(* ===== verification/Prelude.thy ===== *)
theory Prelude
  imports Main "HOL-Library.Word" "HOL-Library.Multiset"
begin

text \<open>
  Shared vocabulary of the development: the machine integer types of the Rust sources, the
  checked and saturating operations of Rust's integer types, the arithmetic reading of
  power-of-two masks, and the array swap.

  The Rust sources are compiled with the release profile of the workspace's Cargo.toml, which
  does not turn overflow checks on: \<open>+\<close>, \<open>-\<close> and \<open>*\<close> on fixed-width integers wrap, which is
  what the operations of \<open>'a word\<close> do, and a debug assertion has no effect. A panic that the
  release build keeps (an out-of-range index, a failed assertion, an unwrap of nothing) is a
  value of the model.
\<close>

unbundle bit_operations_syntax

type_synonym u8 = "8 word"
type_synonym u16 = "16 word"
type_synonym u32 = "32 word"
type_synonym u64 = "64 word"

named_theorems mach_simps \<open>arithmetic readings of machine operations\<close>

section \<open>Checked and saturating operations\<close>

definition checked_add :: "'a::len word \<Rightarrow> 'a word \<Rightarrow> 'a word option" where
  "checked_add a b = (if unat a + unat b < 2 ^ LENGTH('a) then Some (a + b) else None)"

definition saturating_add :: "'a::len word \<Rightarrow> 'a word \<Rightarrow> 'a word" where
  "saturating_add a b = (if unat a + unat b < 2 ^ LENGTH('a) then a + b else - 1)"

definition saturating_sub :: "'a::len word \<Rightarrow> 'a word \<Rightarrow> 'a word" where
  "saturating_sub a b = (if b \<le> a then a - b else 0)"

definition saturating_mul :: "'a::len word \<Rightarrow> 'a word \<Rightarrow> 'a word" where
  "saturating_mul a b = (if unat a * unat b < 2 ^ LENGTH('a) then a * b else - 1)"

text \<open>Code equations that stay within words, so that evaluation never unfolds a large \<open>nat\<close>.\<close>

lemma checked_add_code [code]: "checked_add a b = (if a \<le> a + b then Some (a + b) else None)"
  by (simp add: checked_add_def no_olen_add_nat)

lemma saturating_add_code [code]: "saturating_add a b = (if a \<le> a + b then a + b else - 1)"
  by (simp add: saturating_add_def no_olen_add_nat)

lemma saturating_mul_code [code]:
  "saturating_mul a b = (if uint a * uint b < 2 ^ LENGTH('a) then a * b else - 1)"
  for a b :: "'a::len word"
proof -
  have "unat a * unat b < 2 ^ LENGTH('a) \<longleftrightarrow> int (unat a * unat b) < int (2 ^ LENGTH('a))"
    by (simp only: of_nat_less_iff)
  also have "\<dots> \<longleftrightarrow> uint a * uint b < 2 ^ LENGTH('a)" by simp
  finally show ?thesis by (simp add: saturating_mul_def)
qed

lemma checked_add_eq_Some [mach_simps]:
  "checked_add a b = Some c \<longleftrightarrow> unat c = unat a + unat b"
proof -
  have "unat (a + b) = unat a + unat b" if "unat a + unat b < 2 ^ LENGTH('a)"
    using that by (simp add: unat_add_lem)
  moreover have "unat a + unat b < 2 ^ LENGTH('a)" if "unat c = unat a + unat b"
    using that by (metis unsigned_less)
  ultimately show ?thesis
    by (auto simp: checked_add_def word_unat_eq_iff)
qed

lemma checked_add_eq_None [mach_simps]:
  "checked_add (a :: 'a::len word) b = None \<longleftrightarrow> 2 ^ LENGTH('a) \<le> unat a + unat b"
  by (auto simp: checked_add_def)

lemma unat_minus_one_word [simp]: "unat (- 1 :: 'a::len word) = 2 ^ LENGTH('a) - 1"
  by (simp add: unsigned_minus_1_eq_mask mask_eq_exp_minus_1)

lemma unat_saturating_add [mach_simps]:
  "unat (saturating_add a b) = min (unat a + unat b) (2 ^ LENGTH('a) - 1)"
  for a b :: "'a::len word"
  by (auto simp: saturating_add_def unat_add_lem [THEN iffD1] min_def not_less)

lemma unat_saturating_sub [mach_simps]: "unat (saturating_sub a b) = unat a - unat b"
  by (auto simp: saturating_sub_def unat_sub word_le_nat_alt)

lemma unat_saturating_mul [mach_simps]:
  "unat (saturating_mul a b) = min (unat a * unat b) (2 ^ LENGTH('a) - 1)"
  for a b :: "'a::len word"
proof (cases "unat a * unat b < 2 ^ LENGTH('a)")
  case True
  then have "min (unat a * unat b) (2 ^ LENGTH('a) - 1) = unat a * unat b"
    by (intro min_absorb1) linarith
  with True show ?thesis by (simp add: saturating_mul_def unat_mult_lem [THEN iffD1])
next
  case False
  then have "min (unat a * unat b) (2 ^ LENGTH('a) - 1) = 2 ^ LENGTH('a) - 1"
    by (intro min_absorb2) linarith
  with False show ?thesis by (simp add: saturating_mul_def)
qed

section \<open>Power-of-two masks\<close>

lemma unat_and_mask [mach_simps]: "unat (w AND mask n) = unat w mod 2 ^ n"
  by (metis take_bit_eq_mask take_bit_eq_mod unsigned_take_bit_eq)

lemma and_not_mask_eq: "w AND NOT (mask n) = w - (w AND mask n)" for w :: "'a::len word"
proof -
  have "w AND NOT (mask n) = push_bit n (drop_bit n w)"
    by (rule bit_eqI) (auto simp: bit_simps)
  moreover have "push_bit n (drop_bit n w) + (w AND mask n) = w"
    by (simp add: bits_ident flip: take_bit_eq_mask)
  ultimately show ?thesis by (simp add: eq_diff_eq)
qed

lemma unat_and_not_mask [mach_simps]:
  "unat (w AND NOT (mask n)) = unat w - unat w mod 2 ^ n" for w :: "'a::len word"
  by (simp add: and_not_mask_eq unat_sub word_and_le2 unat_and_mask)

lemma unat_and_not_mask_mult:
  "unat (w AND NOT (mask n)) = 2 ^ n * (unat w div 2 ^ n)" for w :: "'a::len word"
  by (simp add: unat_and_not_mask minus_mod_eq_mult_div)

lemma exp_minus_one_mask: "push_bit n (1 :: 'a::len word) - 1 = mask n"
  by (simp add: mask_eq_exp_minus_1 push_bit_eq_mult)

lemma unat_push_bit_one: "n < LENGTH('a) \<Longrightarrow> unat (push_bit n (1 :: 'a::len word)) = 2 ^ n"
  by (subst unsigned_push_bit_eq) (simp add: take_bit_eq_mod)

section \<open>Arrays\<close>

definition swap :: "'a list \<Rightarrow> nat \<Rightarrow> nat \<Rightarrow> 'a list" where
  "swap xs i j = xs[i := xs ! j, j := xs ! i]"

lemma length_swap [simp]: "length (swap xs i j) = length xs"
  by (simp add: swap_def)

lemma take_swap_last:
  assumes "i \<le> n" and "n < length xs"
  shows "take n (swap xs i n) = butlast ((take (Suc n) xs)[i := xs ! n])"
  using assms
  by (intro nth_equalityI) (auto simp: swap_def nth_butlast nth_list_update)

lemma mset_swap_remove:
  assumes "i < length xs"
  shows "mset (butlast (xs[i := last xs])) = mset xs - {#xs ! i#}"
proof -
  from assms have "xs \<noteq> []" by auto
  then have ne: "xs[i := last xs] \<noteq> []" by simp
  have last: "last (xs[i := last xs]) = last xs"
    using \<open>xs \<noteq> []\<close> by (simp add: last_list_update)
  have "mset (xs[i := last xs]) = mset (butlast (xs[i := last xs])) + {#last xs#}"
    by (metis append_butlast_last_id last mset.simps mset_append ne)
  moreover have "mset (xs[i := last xs]) = add_mset (last xs) (mset xs - {#xs ! i#})"
    using assms by (rule mset_update)
  ultimately show ?thesis by simp
qed

section \<open>Unsigned arithmetic on natural numbers\<close>

text \<open>Addition and subtraction of \<open>w\<close>-bit values that are kept as natural numbers.\<close>

definition wrap_add :: "nat \<Rightarrow> nat \<Rightarrow> nat \<Rightarrow> nat" where
  "wrap_add w a b = (a + b) mod 2 ^ w"

definition wrap_sub :: "nat \<Rightarrow> nat \<Rightarrow> nat \<Rightarrow> nat" where
  "wrap_sub w a b = (a + (2 ^ w - b)) mod 2 ^ w"

lemma wrap_add_le: "wrap_add w a b \<le> a + b"
  by (simp add: wrap_add_def)

lemma wrap_add_eq: "a + b < 2 ^ w \<Longrightarrow> wrap_add w a b = a + b"
  by (simp add: wrap_add_def)

lemma wrap_sub_eq:
  assumes "b \<le> a" "a < 2 ^ w"
  shows "wrap_sub w a b = a - b"
proof -
  have "a + (2 ^ w - b) = a - b + 2 ^ w" using assms by simp
  then show ?thesis using assms by (simp only: wrap_sub_def mod_add_self2) simp
qed

section \<open>Overwriting a part of a list\<close>

definition overwrite :: "'a list \<Rightarrow> nat \<Rightarrow> 'a list \<Rightarrow> 'a list" where
  "overwrite xs p ys = take p xs @ ys @ drop (p + length ys) xs"

lemma overwrite_overwrite: "p \<le> length xs \<Longrightarrow> overwrite (overwrite xs p ys) (p + length ys) zs = overwrite xs p (ys @ zs)"
  by (simp add: overwrite_def add.commute add.left_commute)

lemma overwrite_Nil [simp]: "overwrite xs p [] = xs"
  by (simp add: overwrite_def)

lemma overwrite_append1: "p + length ys \<le> length xs \<Longrightarrow> overwrite (xs @ zs) p ys = overwrite xs p ys @ zs"
  by (simp add: overwrite_def)

lemma overwrite_append2: "overwrite (xs @ zs) (length xs + p) ys = xs @ overwrite zs p ys"
  by (simp add: overwrite_def add.assoc)

lemma length_overwrite: "p + length ys \<le> length xs \<Longrightarrow> length (overwrite xs p ys) = length xs"
  by (simp add: overwrite_def)

lemma overwrite_take:
  assumes "p \<le> n" "n \<le> length xs" "p + length ys \<le> length xs"
  shows "take (max n (p + length ys)) (overwrite xs p ys) = overwrite (take n xs) p ys"
proof (cases "n \<le> p + length ys")
  case True
  then show ?thesis using assms by (cases ys) (auto simp: overwrite_def max_def min_def)
next
  case False
  then show ?thesis using assms by (simp add: overwrite_def max_def min_def drop_take)
qed

section \<open>Words of different lengths\<close>

lemma unat_ucast: "unat (ucast w :: 'b::len word) = unat w mod 2 ^ LENGTH('b)"
  by (simp add: unsigned_ucast_eq take_bit_eq_mod)

lemma bit_below:
  assumes "unat x < 2 ^ k" "bit x n"
  shows "n < k"
proof -
  have "bit (take_bit k (unat x)) n" using assms by (simp add: take_bit_nat_eq_self bit_unsigned_iff)
  then show ?thesis by (simp add: bit_take_bit_iff)
qed

lemma bit_u8: "bit (a :: u8) n \<Longrightarrow> n < 8"
  by (drule bit_imp_le_length) simp

end
