(* ===== verification/Addrs.thy ===== *)
theory Addrs
  imports Prelude
begin

text \<open>
  Physical and virtual addresses and alignments: beskar-core/src/arch/addrs.rs.
  The enum \<open>Alignment\<close> is a datatype, \<open>VirtAddr\<close> and \<open>PhysAddr\<close> are one-field datatypes over
  \<open>u64\<close>. The lemmas give the arithmetic meaning of the alignment operations, the canonical form
  of virtual addresses, and the correspondence of an address with its page table indices.
\<close>

section \<open>Alignments\<close>

datatype alignment =
    Align1 | Align2 | Align4 | Align8 | Align16 | Align32 | Align64 | Align128 | Align256
  | Align512 | Align1K | Align2K | Align4K | Align8K | Align16K | Align32K | Align64K
  | Align128K | Align256K | Align512K | Align1M | Align2M | Align4M | Align8M | Align16M
  | Align32M | Align64M | Align128M | Align256M | Align512M | Align1G | Align2G | Align4G
  | Align8G | Align16G | Align32G | Align64G | Align128G | Align256G | Align512G

text \<open>The exponent in the discriminant \<open>1 << n\<close> of each variant.\<close>

primrec align_shift :: "alignment \<Rightarrow> nat" where
  "align_shift Align1 = 0"
| "align_shift Align2 = 1"
| "align_shift Align4 = 2"
| "align_shift Align8 = 3"
| "align_shift Align16 = 4"
| "align_shift Align32 = 5"
| "align_shift Align64 = 6"
| "align_shift Align128 = 7"
| "align_shift Align256 = 8"
| "align_shift Align512 = 9"
| "align_shift Align1K = 10"
| "align_shift Align2K = 11"
| "align_shift Align4K = 12"
| "align_shift Align8K = 13"
| "align_shift Align16K = 14"
| "align_shift Align32K = 15"
| "align_shift Align64K = 16"
| "align_shift Align128K = 17"
| "align_shift Align256K = 18"
| "align_shift Align512K = 19"
| "align_shift Align1M = 20"
| "align_shift Align2M = 21"
| "align_shift Align4M = 22"
| "align_shift Align8M = 23"
| "align_shift Align16M = 24"
| "align_shift Align32M = 25"
| "align_shift Align64M = 26"
| "align_shift Align128M = 27"
| "align_shift Align256M = 28"
| "align_shift Align512M = 29"
| "align_shift Align1G = 30"
| "align_shift Align2G = 31"
| "align_shift Align4G = 32"
| "align_shift Align8G = 33"
| "align_shift Align16G = 34"
| "align_shift Align32G = 35"
| "align_shift Align64G = 36"
| "align_shift Align128G = 37"
| "align_shift Align256G = 38"
| "align_shift Align512G = 39"

definition align_as_u64 :: "alignment \<Rightarrow> u64" where
  "align_as_u64 a = push_bit (align_shift a) 1"

definition align_mask :: "alignment \<Rightarrow> u64" where
  "align_mask a = align_as_u64 a - 1"

definition align_down :: "alignment \<Rightarrow> u64 \<Rightarrow> u64" where
  "align_down a x = x AND NOT (align_mask a)"

definition align_up :: "alignment \<Rightarrow> u64 \<Rightarrow> u64" where
  "align_up a x = (let m = align_mask a in (x + m) AND NOT m)"

definition is_aligned :: "alignment \<Rightarrow> u64 \<Rightarrow> bool" where
  "is_aligned a x \<longleftrightarrow> x AND align_mask a = 0"

section \<open>Virtual and physical addresses\<close>

datatype virt_addr = VirtAddr (virt_as_u64: u64)

datatype phys_addr = PhysAddr (phys_as_u64: u64)

text \<open>Both types derive Rust's \<open>Ord\<close> from their only field.\<close>

instantiation virt_addr :: linorder
begin

definition less_eq_virt_addr :: "virt_addr \<Rightarrow> virt_addr \<Rightarrow> bool" where
  "less_eq_virt_addr a b \<longleftrightarrow> virt_as_u64 a \<le> virt_as_u64 b"

definition less_virt_addr :: "virt_addr \<Rightarrow> virt_addr \<Rightarrow> bool" where
  "less_virt_addr a b \<longleftrightarrow> virt_as_u64 a < virt_as_u64 b"

instance
  by standard (auto simp: less_eq_virt_addr_def less_virt_addr_def virt_addr.expand)

end

instantiation phys_addr :: linorder
begin

definition less_eq_phys_addr :: "phys_addr \<Rightarrow> phys_addr \<Rightarrow> bool" where
  "less_eq_phys_addr a b \<longleftrightarrow> phys_as_u64 a \<le> phys_as_u64 b"

definition less_phys_addr :: "phys_addr \<Rightarrow> phys_addr \<Rightarrow> bool" where
  "less_phys_addr a b \<longleftrightarrow> phys_as_u64 a < phys_as_u64 b"

instance
  by standard (auto simp: less_eq_phys_addr_def less_phys_addr_def phys_addr.expand)

end

definition canonicalize :: "u64 \<Rightarrow> u64" where
  "canonicalize raw = signed_drop_bit 16 (push_bit 16 raw)"

definition virt_new_extend :: "u64 \<Rightarrow> virt_addr" where
  "virt_new_extend addr = VirtAddr (canonicalize addr)"

definition virt_try_new :: "u64 \<Rightarrow> virt_addr option" where
  "virt_try_new addr =
     (let extended = virt_new_extend addr
      in if virt_as_u64 extended \<noteq> addr then None else Some extended)"

definition virt_from_pt_indices :: "u16 \<Rightarrow> u16 \<Rightarrow> u16 \<Rightarrow> u16 \<Rightarrow> u16 \<Rightarrow> virt_addr" where
  "virt_from_pt_indices p4 p3 p2 p1 offset =
     virt_new_extend
       (push_bit 39 (ucast (p4 AND 0x1FF)) OR push_bit 30 (ucast (p3 AND 0x1FF))
        OR push_bit 21 (ucast (p2 AND 0x1FF)) OR push_bit 12 (ucast (p1 AND 0x1FF))
        OR ucast (offset AND 0xFFF))"

text \<open>The checks of \<open>new_unchecked\<close> are debug assertions, which a release build leaves out; a pointer is its address.\<close>

definition virt_new_unchecked :: "u64 \<Rightarrow> virt_addr" where
  "virt_new_unchecked addr = VirtAddr addr"

definition virt_from_ptr :: "u64 \<Rightarrow> virt_addr" where
  "virt_from_ptr p = virt_new_unchecked p"

definition virt_aligned_down :: "virt_addr \<Rightarrow> alignment \<Rightarrow> virt_addr" where
  "virt_aligned_down v a = VirtAddr (align_down a (virt_as_u64 v))"

definition virt_aligned_up :: "virt_addr \<Rightarrow> alignment \<Rightarrow> virt_addr" where
  "virt_aligned_up v a = virt_new_extend (align_up a (virt_as_u64 v))"

definition virt_is_aligned :: "virt_addr \<Rightarrow> alignment \<Rightarrow> bool" where
  "virt_is_aligned v a = is_aligned a (virt_as_u64 v)"

text \<open>
  \<open>u16::try_from(...).unwrap()\<close> of a value masked to 9 or 12 bits never panics
  (lemma \<open>index_try_from\<close>), so the index functions are plain truncations.
\<close>

definition p4_index :: "virt_addr \<Rightarrow> u16" where
  "p4_index v = ucast (drop_bit 39 (virt_as_u64 v) AND 0x1FF)"

definition p3_index :: "virt_addr \<Rightarrow> u16" where
  "p3_index v = ucast (drop_bit 30 (virt_as_u64 v) AND 0x1FF)"

definition p2_index :: "virt_addr \<Rightarrow> u16" where
  "p2_index v = ucast (drop_bit 21 (virt_as_u64 v) AND 0x1FF)"

definition p1_index :: "virt_addr \<Rightarrow> u16" where
  "p1_index v = ucast (drop_bit 12 (virt_as_u64 v) AND 0x1FF)"

definition page_offset :: "virt_addr \<Rightarrow> u16" where
  "page_offset v = ucast (virt_as_u64 v AND 0xFFF)"

definition PHYS_MAX :: u64 where
  "PHYS_MAX = 0x000FFFFFFFFFFFFF"

definition phys_new_truncate :: "u64 \<Rightarrow> phys_addr" where
  "phys_new_truncate addr = PhysAddr (addr AND PHYS_MAX)"

definition phys_try_new :: "u64 \<Rightarrow> phys_addr option" where
  "phys_try_new addr =
     (let truncated = phys_new_truncate addr
      in if phys_as_u64 truncated \<noteq> addr then None else Some truncated)"

definition phys_new_unchecked :: "u64 \<Rightarrow> phys_addr" where
  "phys_new_unchecked addr = PhysAddr addr"

definition phys_aligned_down :: "phys_addr \<Rightarrow> alignment \<Rightarrow> phys_addr" where
  "phys_aligned_down p a = PhysAddr (align_down a (phys_as_u64 p))"

definition phys_aligned_up :: "phys_addr \<Rightarrow> alignment \<Rightarrow> phys_addr" where
  "phys_aligned_up p a = PhysAddr (align_up a (phys_as_u64 p))"

definition phys_is_aligned :: "phys_addr \<Rightarrow> alignment \<Rightarrow> bool" where
  "phys_is_aligned p a = is_aligned a (phys_as_u64 p)"

definition virt_add :: "virt_addr \<Rightarrow> u64 \<Rightarrow> virt_addr" where
  "virt_add v rhs = virt_new_extend (virt_as_u64 v + rhs)"

definition virt_sub :: "virt_addr \<Rightarrow> u64 \<Rightarrow> virt_addr" where
  "virt_sub v rhs = virt_new_extend (virt_as_u64 v - rhs)"

definition virt_diff :: "virt_addr \<Rightarrow> virt_addr \<Rightarrow> u64" where
  "virt_diff v w = virt_as_u64 v - virt_as_u64 w"

definition phys_add :: "phys_addr \<Rightarrow> u64 \<Rightarrow> phys_addr" where
  "phys_add p rhs = phys_new_truncate (phys_as_u64 p + rhs)"

definition phys_sub :: "phys_addr \<Rightarrow> u64 \<Rightarrow> phys_addr" where
  "phys_sub p rhs = phys_new_truncate (phys_as_u64 p - rhs)"

definition phys_diff :: "phys_addr \<Rightarrow> phys_addr \<Rightarrow> u64" where
  "phys_diff p q = phys_as_u64 p - phys_as_u64 q"

text \<open>
  The invariants of the two types: a virtual address is canonical (its upper 17 bits are equal),
  a physical address has at most 52 bits.
\<close>

definition canonical :: "virt_addr \<Rightarrow> bool" where
  "canonical v \<longleftrightarrow> canonicalize (virt_as_u64 v) = virt_as_u64 v"

definition phys_valid :: "phys_addr \<Rightarrow> bool" where
  "phys_valid p \<longleftrightarrow> phys_as_u64 p \<le> PHYS_MAX"

section \<open>Alignment arithmetic\<close>

lemma align_as_u64_code [code]: "align_as_u64 a = word_of_int (push_bit (align_shift a) 1)"
  by (simp add: align_as_u64_def push_bit_eq_mult)

lemma align_shift_less: "align_shift a < 40"
  by (cases a) simp_all

lemma align_mask_eq: "align_mask a = mask (align_shift a)"
  by (simp add: align_mask_def align_as_u64_def mask_eq_exp_minus_1)

lemma unat_align_as_u64 [mach_simps]: "unat (align_as_u64 a) = 2 ^ align_shift a"
  using align_shift_less [of a] by (simp add: align_as_u64_def unat_push_bit_one del: push_bit_of_1)

lemma unat_align_mask [mach_simps]: "unat (align_mask a) = 2 ^ align_shift a - 1"
proof -
  have "1 \<le> align_as_u64 a"
    by (simp add: word_le_nat_alt unat_align_as_u64)
  then show ?thesis
    by (simp add: align_mask_def unat_sub unat_align_as_u64)
qed

lemma is_aligned_iff_dvd: "is_aligned a x \<longleftrightarrow> 2 ^ align_shift a dvd unat x"
  by (simp add: is_aligned_def align_mask_eq unat_eq_zero dvd_eq_mod_eq_0 flip: unat_and_mask)

lemma unat_align_down: "unat (align_down a x) = 2 ^ align_shift a * (unat x div 2 ^ align_shift a)"
  by (simp add: align_down_def align_mask_eq unat_and_not_mask_mult)

lemma unat_align_up:
  assumes "unat x + (2 ^ align_shift a - 1) < 2 ^ 64"
  shows "unat (align_up a x) = 2 ^ align_shift a * ((unat x + (2 ^ align_shift a - 1)) div 2 ^ align_shift a)"
proof -
  have "unat (x + align_mask a) = unat x + (2 ^ align_shift a - 1)"
    using assms by (simp add: unat_align_mask unat_add_lem [THEN iffD1])
  then show ?thesis
    by (simp add: align_up_def Let_def align_mask_eq unat_and_not_mask_mult)
qed

lemma align_up_overflow:
  assumes "2 ^ 64 \<le> unat x + (2 ^ align_shift a - 1)"
  shows "align_up a x = 0"
proof -
  have "unat (x + align_mask a) = unat x + (2 ^ align_shift a - 1) - 2 ^ 64"
    using assms by (simp add: unat_align_mask unat_plus_if')
  moreover have "unat x < 2 ^ 64" using unsigned_less[of x] by simp
  moreover have "(0::nat) < 2 ^ align_shift a" by simp
  ultimately have "unat (x + align_mask a) < 2 ^ align_shift a"
    by linarith
  then have "unat (align_up a x) = 0"
    by (simp add: align_up_def Let_def align_mask_eq unat_and_not_mask_mult)
  then show ?thesis by (simp add: unat_eq_zero)
qed

lemma bit_canonicalize: "bit (canonicalize x) n \<longleftrightarrow> n < 64 \<and> bit x (if n < 48 then n else 47)"
  by (auto simp: canonicalize_def bit_signed_drop_bit_iff bit_simps)

lemma canonicalize_eq: "canonicalize x = signed_take_bit 47 x"
  by (rule bit_eqI)
    (auto simp: bit_canonicalize bit_signed_take_bit_iff min_def less_Suc_eq_le le_antisym
       dest: le_antisym [of 47])

lemma canonicalize_idem [simp]: "canonicalize (canonicalize x) = canonicalize x"
  by (rule bit_eqI) (auto simp: bit_canonicalize)


lemma canonicalize_cong: "(\<And>n. n < 48 \<Longrightarrow> bit x n = bit y n) \<Longrightarrow> canonicalize x = canonicalize y"
  by (rule bit_eqI) (auto simp: bit_canonicalize)

lemma canonicalize_small: 
  assumes "unat x < 2 ^ 47" shows "canonicalize x = x"
proof -
  from assms have "take_bit 47 x = x"
    by (simp add: word_unat_eq_iff unsigned_take_bit_eq take_bit_nat_eq_self)
  then have "\<not> bit x n" if "47 \<le> n" for n
    using that by (metis bit_take_bit_iff not_less)
  then show ?thesis
    by (intro bit_eqI) (auto simp: bit_canonicalize)
qed

lemma index_try_from:
  "uint (drop_bit k x AND 0x1FF :: u64) < 2 ^ 16" "uint (x AND 0xFFF :: u64) < 2 ^ 16"
proof -
  have "drop_bit k x AND 0x1FF \<le> 0x1FF" "x AND 0xFFF \<le> 0xFFF" by (rule word_and_le1)+
  then show "uint (drop_bit k x AND 0x1FF :: u64) < 2 ^ 16" "uint (x AND 0xFFF :: u64) < 2 ^ 16"
    by (simp_all only: word_le_def) simp_all
qed

lemma index_mask: "(0x1FF :: u16) = mask 9" "(0x1FF :: u64) = mask 9"
  "(0xFFF :: u16) = mask 12" "(0xFFF :: u64) = mask 12"
  by (simp_all add: mask_eq_exp_minus_1)

lemma pt_index_bits:
  "bit (ucast (ucast (drop_bit k x AND 0x1FF :: u64) AND 0x1FF :: u16) :: u64) n \<longleftrightarrow> n < 9 \<and> bit x (k + n)"
  unfolding index_mask by (auto simp: bit_simps)

lemma offset_bits:
  "bit (ucast (ucast (x AND 0xFFF :: u64) AND 0xFFF :: u16) :: u64) n \<longleftrightarrow> n < 12 \<and> bit x n"
  unfolding index_mask by (auto simp: bit_simps)

lemma from_pt_indices_indices: "canonical v \<Longrightarrow>
   virt_from_pt_indices (p4_index v) (p3_index v) (p2_index v) (p1_index v) (page_offset v) = v"
proof -
  let ?x = "virt_as_u64 v"
  let ?y = "push_bit 39 (ucast (p4_index v AND 0x1FF)) OR push_bit 30 (ucast (p3_index v AND 0x1FF))
        OR push_bit 21 (ucast (p2_index v AND 0x1FF)) OR push_bit 12 (ucast (p1_index v AND 0x1FF))
        OR ucast (page_offset v AND 0xFFF) :: u64"
  have y: "bit ?y n \<longleftrightarrow> bit ?x n" if "n < 48" for n
  proof -
    consider "n < 12" | "12 \<le> n" "n < 21" | "21 \<le> n" "n < 30" | "30 \<le> n" "n < 39" | "39 \<le> n" "n < 48"
      using \<open>n < 48\<close> by linarith
    then show ?thesis
      unfolding p4_index_def p3_index_def p2_index_def p1_index_def page_offset_def
        bit_or_iff bit_push_bit_iff pt_index_bits offset_bits
      by cases (simp_all add: less_diff_conv2)
  qed
  have "canonicalize ?y = canonicalize ?x"
    by (rule canonicalize_cong) (simp only: y)
  moreover assume "canonical v"
  ultimately show ?thesis
    by (simp only: virt_from_pt_indices_def virt_new_extend_def canonical_def virt_addr.collapse)
qed

lemma index_of_bits:
  assumes "\<And>i. i < 9 \<Longrightarrow> bit (y :: u64) (k + i) = bit (p :: u16) i"
  shows "ucast (drop_bit k y AND 0x1FF) = p AND 0x1FF"
  using assms unfolding index_mask by (intro bit_eqI) (auto simp: bit_simps)

lemma offset_of_bits:
  assumes "\<And>i. i < 12 \<Longrightarrow> bit (y :: u64) i = bit (p :: u16) i"
  shows "ucast (y AND 0xFFF) = p AND 0xFFF"
  using assms unfolding index_mask by (intro bit_eqI) (auto simp: bit_simps)

lemma bit_pt_raw:
  assumes "n < 48"
  shows "bit (push_bit 39 (ucast (p4 AND 0x1FF :: u16)) OR push_bit 30 (ucast (p3 AND 0x1FF :: u16))
        OR push_bit 21 (ucast (p2 AND 0x1FF :: u16)) OR push_bit 12 (ucast (p1 AND 0x1FF :: u16))
        OR ucast (off AND 0xFFF :: u16) :: u64) n \<longleftrightarrow>
    (if 39 \<le> n then bit p4 (n - 39) else if 30 \<le> n then bit p3 (n - 30)
     else if 21 \<le> n then bit p2 (n - 21) else if 12 \<le> n then bit p1 (n - 12) else bit off n)"
proof -
  consider "n < 12" | "12 \<le> n" "n < 21" | "21 \<le> n" "n < 30" | "30 \<le> n" "n < 39" | "39 \<le> n" "n < 48"
    using assms by linarith
  then show ?thesis
    unfolding index_mask
    by cases (simp_all add: bit_simps less_diff_conv2 less_diff_conv)
qed

lemma bit_canonicalize_low: "n < 48 \<Longrightarrow> bit (canonicalize x) n = bit x n"
  by (simp add: bit_canonicalize)

lemma bit_from_pt_indices:
  "n < 48 \<Longrightarrow> bit (virt_as_u64 (virt_from_pt_indices p4 p3 p2 p1 off)) n \<longleftrightarrow>
    (if 39 \<le> n then bit p4 (n - 39) else if 30 \<le> n then bit p3 (n - 30)
     else if 21 \<le> n then bit p2 (n - 21) else if 12 \<le> n then bit p1 (n - 12) else bit off n)"
  unfolding virt_from_pt_indices_def virt_new_extend_def virt_addr.sel
  by (simp only: bit_canonicalize_low bit_pt_raw)

lemma indices_from_pt_indices:
  "p4_index (virt_from_pt_indices p4 p3 p2 p1 off) = p4 AND 0x1FF"
  "p3_index (virt_from_pt_indices p4 p3 p2 p1 off) = p3 AND 0x1FF"
  "p2_index (virt_from_pt_indices p4 p3 p2 p1 off) = p2 AND 0x1FF"
  "p1_index (virt_from_pt_indices p4 p3 p2 p1 off) = p1 AND 0x1FF"
  "page_offset (virt_from_pt_indices p4 p3 p2 p1 off) = off AND 0xFFF"
  unfolding p4_index_def p3_index_def p2_index_def p1_index_def page_offset_def
  by (rule index_of_bits offset_of_bits; simp add: bit_from_pt_indices)+

lemma canonical_new_extend [simp]: "canonical (virt_new_extend x)"
  by (simp add: canonical_def virt_new_extend_def)

lemma virt_try_new_eq_Some: "virt_try_new x = Some v \<longleftrightarrow> canonical v \<and> v = VirtAddr x"
  by (auto simp: virt_try_new_def virt_new_extend_def canonical_def Let_def)

lemma canonicalize_fixed_iff:
  "canonicalize x = x \<longleftrightarrow> take_bit 47 x = x \<or> take_bit 47 (NOT x) = NOT x"
proof -
  have "canonicalize x = x \<longleftrightarrow> (\<forall>n. 47 \<le> n \<and> n < 64 \<longrightarrow> bit x n = bit x 47)"
  proof
    assume x: "canonicalize x = x"
    have "bit x n = bit x 47" if "47 \<le> n" "n < 64" for n
      using that bit_canonicalize [of x n] unfolding x by (cases "n = 47") auto
    then show "\<forall>n. 47 \<le> n \<and> n < 64 \<longrightarrow> bit x n = bit x 47" by blast
  next
    assume *: "\<forall>n. 47 \<le> n \<and> n < 64 \<longrightarrow> bit x n = bit x 47"
    have "bit (canonicalize x) n = bit x n" if "n < 64" for n
      using that spec [OF *, of n] by (auto simp: bit_canonicalize)
    then show "canonicalize x = x" by (intro bit_eqI) simp
  qed
  moreover have *: "take_bit 47 y = y \<longleftrightarrow> (\<forall>n. 47 \<le> n \<and> n < 64 \<longrightarrow> \<not> bit y n)" for y :: u64
    by (force simp: bit_eq_iff bit_take_bit_iff not_less)
  moreover have "take_bit 47 (NOT x) = NOT x \<longleftrightarrow> (\<forall>n. 47 \<le> n \<and> n < 64 \<longrightarrow> bit x n)"
    unfolding * by (simp add: bit_not_iff)
  ultimately show ?thesis by auto
qed

lemma take_bit_word_id_iff: "take_bit n x = x \<longleftrightarrow> unat x < 2 ^ n" for x :: "'a::len word"
  by (simp add: word_unat_eq_iff unsigned_take_bit_eq take_bit_nat_eq_self_iff)

lemma canonical_iff_range:
  "canonical v \<longleftrightarrow> virt_as_u64 v \<le> 0x00007FFFFFFFFFFF \<or> 0xFFFF800000000000 \<le> virt_as_u64 v"
proof -
  have "unat (NOT x) = 2 ^ 64 - 1 - unat x" for x :: u64
  proof -
    have "NOT x = - 1 - x" by (simp add: not_eq_complement)
    then show ?thesis by (simp add: unat_sub)
  qed
  then show ?thesis
    using unsigned_less[of "virt_as_u64 v"]
    by (auto simp: canonical_def canonicalize_fixed_iff take_bit_word_id_iff word_le_nat_alt)
qed

lemma canonical_aligned_down: "canonical v \<Longrightarrow> canonical (virt_aligned_down v a)"
proof -
  have *: "2 ^ align_shift a * (m div 2 ^ align_shift a) \<ge> 2 ^ 64 - 2 ^ 47" if "2 ^ 64 - 2 ^ 47 \<le> m" for m :: nat
  proof -
    have "(2 ^ 64 - 2 ^ 47 :: nat) = 2 ^ align_shift a * (2 ^ (47 - align_shift a) * (2 ^ 17 - 1))"
      using align_shift_less [of a] by (simp flip: power_add mult.assoc)
    then show ?thesis using that 
      by (metis div_le_mono mult_le_mono2 nonzero_mult_div_cancel_left power_not_zero zero_neq_numeral)
  qed
  have "2 ^ align_shift a * (m div 2 ^ align_shift a) \<le> l" if "m \<le> l" for m l :: nat
    using that by (rule le_trans [OF times_div_less_eq_dividend])
  then show "canonical v \<Longrightarrow> canonical (virt_aligned_down v a)"
    using *[of "unat (virt_as_u64 v)"]
    by (auto simp: canonical_iff_range virt_aligned_down_def word_le_nat_alt unat_align_down)
qed


lemma PHYS_MAX_mask: "PHYS_MAX = mask 52"
  by (simp add: PHYS_MAX_def mask_eq_exp_minus_1)

lemma unat_PHYS_MAX: "unat PHYS_MAX = 2 ^ 52 - 1"
  by (simp add: PHYS_MAX_def)

lemma unat_phys_new_truncate: "unat (phys_as_u64 (phys_new_truncate x)) = unat x mod 2 ^ 52"
  by (simp add: phys_new_truncate_def PHYS_MAX_mask unat_and_mask)

lemma phys_valid_new_truncate [simp]: "phys_valid (phys_new_truncate x)"
  by (simp add: phys_valid_def phys_new_truncate_def word_and_le1)

lemma phys_valid_iff: "phys_valid p \<longleftrightarrow> unat (phys_as_u64 p) < 2 ^ 52"
  by (auto simp: phys_valid_def word_le_nat_alt unat_PHYS_MAX)

lemma phys_new_truncate_small: "unat x < 2 ^ 52 \<Longrightarrow> phys_new_truncate x = PhysAddr x"
  by (rule phys_addr.expand) (simp add: word_unat_eq_iff unat_phys_new_truncate)

lemma phys_try_new_eq_Some: "phys_try_new x = Some p \<longleftrightarrow> phys_valid p \<and> p = PhysAddr x"
proof -
  have "x AND PHYS_MAX = x \<longleftrightarrow> x \<le> PHYS_MAX"
    by (metis PHYS_MAX_mask take_bit_eq_mask take_bit_word_id_iff phys_addr.sel phys_valid_def
        phys_valid_iff)
  then show ?thesis
    by (auto simp: phys_try_new_def phys_new_truncate_def phys_valid_def Let_def)
qed

section \<open>Properties\<close>

text \<open>
  Aligning down gives the greatest aligned address not above the argument; aligning up gives
  the least aligned address not below it, unless the sum in \<open>align_up\<close> exceeds 64 bits.
\<close>

theorem align_down_up_optimal:
  assumes "unat x + 2 ^ align_shift a \<le> 2 ^ 64"
  shows "is_aligned a (align_down a x) \<and> align_down a x \<le> x
    \<and> (\<forall>y. is_aligned a y \<and> y \<le> x \<longrightarrow> y \<le> align_down a x)
    \<and> is_aligned a (align_up a x) \<and> x \<le> align_up a x
    \<and> (\<forall>y. is_aligned a y \<and> x \<le> y \<longrightarrow> align_up a x \<le> y)"
proof -
  let ?m = "2 ^ align_shift a :: nat"
  have pos: "0 < ?m" by simp
  have up: "unat (align_up a x) = ?m * ((unat x + (?m - 1)) div ?m)"
    using assms pos by (intro unat_align_up) linarith
  have "unat y \<le> ?m * (unat x div ?m)" if "?m dvd unat y" "unat y \<le> unat x" for y :: u64
    using that by (metis div_le_mono dvd_mult_div_cancel mult_le_mono2)
  moreover have "?m * ((unat x + (?m - 1)) div ?m) \<le> unat y" if "?m dvd unat y" "unat x \<le> unat y" for y :: u64
  proof -
    from that(1) obtain q where q: "unat y = ?m * q" ..
    have "(unat x + (?m - 1)) div ?m \<le> (unat y + (?m - 1)) div ?m"
      using that(2) by (intro div_le_mono) simp
    also have "\<dots> = q"
    proof (rule div_nat_eqI)
      show "?m * q \<le> unat y + (?m - 1)" by (simp only: q le_add1)
      show "unat y + (?m - 1) < ?m * Suc q" using pos by (simp add: q algebra_simps)
    qed
    finally show ?thesis unfolding q by (intro mult_le_mono2)
  qed
  moreover have "unat x \<le> ?m * ((unat x + (?m - 1)) div ?m)"
  proof -
    have "(unat x + (?m - 1)) mod ?m \<le> ?m - 1" using pos by (metis Suc_pred' mod_less_divisor less_Suc_eq_le)
    then show ?thesis using mult_div_mod_eq [of ?m "unat x + (?m - 1)"] pos by linarith
  qed
  ultimately show ?thesis
    using times_div_less_eq_dividend [of ?m "unat x"]
    by (simp add: is_aligned_iff_dvd word_le_nat_alt unat_align_down up)
qed

theorem align_down_up_optimal_witness:
  "align_down Align4K 0x1234 = 0x1000 \<and> align_up Align4K 0x1234 = 0x2000
   \<and> is_aligned Align4K (align_up Align4K 0x1234) \<and> align_up Align4K 0x1234 \<le> 0x5000"
proof -
  have "align_down Align4K 0x1234 = 0x1000" "align_up Align4K 0x1234 = 0x2000"
    "is_aligned Align4K 0x5000" by code_simp+
  then show ?thesis using align_down_up_optimal [of "0x1234" Align4K] by simp
qed

text \<open>
  C39. The page-table indices and the page offset of a canonical address determine it:
  \<open>from_pt_indices\<close> rebuilds the address from them; conversely every index passed to
  \<open>from_pt_indices\<close> is read back, truncated to its field, and the address built is canonical.
\<close>

theorem pt_indices_roundtrip:
  "(canonical v \<longrightarrow>
      virt_from_pt_indices (p4_index v) (p3_index v) (p2_index v) (p1_index v) (page_offset v) = v)
   \<and> (let w = virt_from_pt_indices p4 p3 p2 p1 off in
        canonical w \<and> p4_index w = p4 AND 0x1FF \<and> p3_index w = p3 AND 0x1FF \<and>
        p2_index w = p2 AND 0x1FF \<and> p1_index w = p1 AND 0x1FF \<and> page_offset w = off AND 0xFFF)"
  using from_pt_indices_indices [of v]
  by (simp add: indices_from_pt_indices) (simp add: virt_from_pt_indices_def)

theorem pt_indices_roundtrip_witness:
  "(let v = VirtAddr 0xFFFF800012345678 in canonical v \<and>
     virt_from_pt_indices (p4_index v) (p3_index v) (p2_index v) (p1_index v) (page_offset v) = v)"
proof -
  have "canonical (VirtAddr 0xFFFF800012345678)" by (simp add: canonical_iff_range)
  then show ?thesis using pt_indices_roundtrip [of "VirtAddr 0xFFFF800012345678"] by simp
qed

text \<open>
  C40. \<open>VirtAddr::try_new\<close> takes a 64-bit value as it is exactly when it lies in the lower or the upper half, and
  \<open>PhysAddr::try_new\<close> exactly when it has at most 52 bits. \<open>new_extend\<close>, \<open>from_pt_indices\<close>, \<open>aligned_up\<close> and the sums and differences
  of a virtual address give canonical addresses, and \<open>aligned_down\<close> keeps an address canonical; \<open>new_truncate\<close> and the sums and differences of a physical
  address give valid addresses, and \<open>aligned_down\<close> keeps an address valid. The exceptions are \<open>new_unchecked\<close>
  and \<open>from_ptr\<close>, valid only for the values that \<open>try_new\<close> takes, and \<open>PhysAddr::aligned_up\<close>, which leads out of the valid addresses.
\<close>

theorem address_validity:
  "virt_try_new x = (if x \<le> 0x00007FFFFFFFFFFF \<or> 0xFFFF800000000000 \<le> x then Some (VirtAddr x) else None)
   \<and> phys_try_new x = (if x \<le> 0x000FFFFFFFFFFFFF then Some (PhysAddr x) else None)
   \<and> canonical (virt_new_extend x) \<and> canonical (virt_from_pt_indices i4 i3 i2 i1 off)
   \<and> canonical (virt_aligned_up v a)
   \<and> (canonical v \<longrightarrow> canonical (virt_aligned_down v a))
   \<and> canonical (virt_add v x) \<and> canonical (virt_sub v x)
   \<and> (canonical (virt_new_unchecked x) \<longleftrightarrow> virt_try_new x \<noteq> None)
   \<and> (canonical (virt_from_ptr x) \<longleftrightarrow> virt_try_new x \<noteq> None)
   \<and> phys_valid (phys_new_truncate x) \<and> phys_valid (phys_add p x) \<and> phys_valid (phys_sub p x)
   \<and> (phys_valid p \<longrightarrow> phys_valid (phys_aligned_down p a))
   \<and> (phys_valid (phys_new_unchecked x) \<longleftrightarrow> phys_try_new x \<noteq> None)
   \<and> phys_valid (PhysAddr PHYS_MAX) \<and> \<not> phys_valid (phys_aligned_up (PhysAddr PHYS_MAX) Align4K)"
proof -
  have "phys_valid (phys_aligned_down p a)" if "phys_valid p"
    using le_less_trans [OF times_div_less_eq_dividend [of "2 ^ align_shift a" "unat (phys_as_u64 p)"]]
      that by (simp add: phys_valid_iff phys_aligned_down_def unat_align_down)
  moreover have "\<not> phys_valid (phys_aligned_up (PhysAddr PHYS_MAX) Align4K)" by code_simp
  moreover have p: "phys_valid (PhysAddr x) \<longleftrightarrow> x \<le> 0x000FFFFFFFFFFFFF" "phys_valid (PhysAddr PHYS_MAX)"
    by (simp_all add: phys_valid_def PHYS_MAX_def)
  moreover have v: "canonical (VirtAddr x) \<longleftrightarrow> x \<le> 0x00007FFFFFFFFFFF \<or> 0xFFFF800000000000 \<le> x"
    by (simp add: canonical_iff_range)
  moreover have "virt_try_new x = (if canonical (VirtAddr x) then Some (VirtAddr x) else None)"
    "phys_try_new x = (if phys_valid (PhysAddr x) then Some (PhysAddr x) else None)"
    using virt_try_new_eq_Some [of x] phys_try_new_eq_Some [of x] by (metis not_Some_eq)+
  ultimately show ?thesis
    using canonical_aligned_down [of v a]
    by (simp add: virt_from_pt_indices_def Let_def virt_aligned_up_def virt_add_def virt_sub_def phys_add_def phys_sub_def
        virt_new_unchecked_def virt_from_ptr_def phys_new_unchecked_def)
qed

theorem address_validity_witness:
  "canonical (VirtAddr 0x7FFFFFFFFFFF) \<and> canonical (virt_aligned_down (VirtAddr 0x7FFFFFFFFFFF) Align2M)
   \<and> phys_valid (PhysAddr 0x12345) \<and> phys_valid (phys_aligned_down (PhysAddr 0x12345) Align4K)"
proof -
  have "canonical (VirtAddr 0x7FFFFFFFFFFF)" "phys_valid (PhysAddr 0x12345)"
    by (simp_all add: canonical_iff_range phys_valid_def PHYS_MAX_def)
  then show ?thesis
    using address_validity [of 0 0 0 0 0 0 "VirtAddr 0x7FFFFFFFFFFF" Align2M "PhysAddr 0"]
      address_validity [of 0 0 0 0 0 0 "VirtAddr 0" Align4K "PhysAddr 0x12345"] by blast
qed

end
