(* ===== verification/Allocator.thy ===== *)
theory Allocator
  imports Main
begin

text \<open>
  The contract every allocator of the system offers to its clients: the range allocator of
  beskar-core, the frame and page allocators of the kernel, and the slab, buddy and hybrid
  allocators of heaperion.

  A request \<open>'r\<close> has a size and an alignment; \<open>ok s L\<close> says that the allocator state \<open>s\<close> is
  consistent with the set \<open>L\<close> of blocks (address and request) that are live. A client is a
  sequence of allocations and of deallocations of live blocks.
\<close>

definition block :: "('r \<Rightarrow> nat) \<Rightarrow> nat \<times> 'r \<Rightarrow> nat set" where
  "block bytes b = {fst b..<fst b + bytes (snd b)}"

datatype 'r client_op = Allocate 'r | Deallocate nat

text \<open>
  One step of a client that keeps its live blocks in a list: \<open>Deallocate i\<close> gives back the
  \<open>i\<close>-th of them, an allocation that fails changes nothing.
\<close>

fun client_step ::
  "('s \<Rightarrow> 'r \<Rightarrow> (nat \<times> 's) option) \<Rightarrow> ('s \<Rightarrow> nat \<Rightarrow> 'r \<Rightarrow> 's) \<Rightarrow> 'r client_op
     \<Rightarrow> 's \<times> (nat \<times> 'r) list \<Rightarrow> 's \<times> (nat \<times> 'r) list" where
  "client_step alloc dealloc (Allocate r) (s, live) =
     (case alloc s r of None \<Rightarrow> (s, live) | Some (a, s') \<Rightarrow> (s', (a, r) # live))"
| "client_step alloc dealloc (Deallocate i) (s, live) =
     (if i < length live
      then (dealloc s (fst (live ! i)) (snd (live ! i)), remove1 (live ! i) live)
      else (s, live))"

definition client_run ::
  "('s \<Rightarrow> 'r \<Rightarrow> (nat \<times> 's) option) \<Rightarrow> ('s \<Rightarrow> nat \<Rightarrow> 'r \<Rightarrow> 's) \<Rightarrow> 'r client_op list
     \<Rightarrow> 's \<times> (nat \<times> 'r) list \<Rightarrow> 's \<times> (nat \<times> 'r) list" where
  "client_run alloc dealloc ops = fold (client_step alloc dealloc) ops"

definition blocks_disjoint :: "('r \<Rightarrow> nat) \<Rightarrow> (nat \<times> 'r) set \<Rightarrow> bool" where
  "blocks_disjoint bytes L \<longleftrightarrow>
     (\<forall>b \<in> L. \<forall>c \<in> L. b \<noteq> c \<longrightarrow> block bytes b \<inter> block bytes c = {})"

locale allocator =
  fixes alloc :: "'s \<Rightarrow> 'r \<Rightarrow> (nat \<times> 's) option"
    and dealloc :: "'s \<Rightarrow> nat \<Rightarrow> 'r \<Rightarrow> 's"
    and bytes :: "'r \<Rightarrow> nat"
    and align :: "'r \<Rightarrow> nat"
    and ok :: "'s \<Rightarrow> (nat \<times> 'r) set \<Rightarrow> bool"
  assumes alloc_ok: "ok s L \<Longrightarrow> alloc s r = Some (a, s') \<Longrightarrow> ok s' (insert (a, r) L) \<and> (a, r) \<notin> L"
    and dealloc_ok: "ok s L \<Longrightarrow> (a, r) \<in> L \<Longrightarrow> ok (dealloc s a r) (L - {(a, r)})"
    and ok_disjoint: "ok s L \<Longrightarrow> blocks_disjoint bytes L"
    and ok_aligned: "ok s L \<Longrightarrow> (a, r) \<in> L \<Longrightarrow> align r dvd a"
begin

lemma step_ok:
  assumes "ok s (set live)" "distinct live" "client_step alloc dealloc op (s, live) = (s', live')"
  shows "ok s' (set live') \<and> distinct live'"
proof (cases op)
  case (Allocate r)
  with assms show ?thesis using alloc_ok [OF assms(1)] by (auto split: option.splits)
next
  case (Deallocate i)
  show ?thesis
  proof (cases "i < length live")
    case True
    then have "live ! i \<in> set live" by simp
    with Deallocate True assms dealloc_ok [OF assms(1), of "fst (live ! i)" "snd (live ! i)"]
    show ?thesis by (auto simp: set_remove1_eq)
  qed (use Deallocate assms in auto)
qed

lemma run_ok:
  assumes "ok s (set live)" "distinct live" "client_run alloc dealloc ops (s, live) = (s', live')"
  shows "ok s' (set live') \<and> distinct live'"
  using assms
proof (induction ops arbitrary: s live)
  case Nil
  then show ?case by (simp add: client_run_def)
next
  case (Cons op ops)
  obtain t l where t: "client_step alloc dealloc op (s, live) = (t, l)" by fastforce
  with Cons.prems have "client_run alloc dealloc ops (t, l) = (s', live')"
    by (simp add: client_run_def)
  with Cons.IH step_ok [OF Cons.prems(1,2) t] show ?case by blast
qed

lemma run_safe:
  assumes "ok s {}" "client_run alloc dealloc ops (s, []) = (s', live)"
  shows "distinct live \<and> blocks_disjoint bytes (set live) \<and> (\<forall>(a, r) \<in> set live. align r dvd a)"
  using run_ok [of s "[]" ops s' live] assms ok_disjoint ok_aligned by fastforce

end

end
