(* ===== verification/Ranges.thy ===== *)
theory Ranges
  imports Addrs Allocator
begin

text \<open>
  Sets of memory ranges and best-fit allocation in them: beskar-core/src/mem/ranges.rs.
  \<open>MemoryRange\<close> is a record with an inclusive end; \<open>MemoryRanges<N>\<close> is the array of \<open>N\<close> ranges
  (a list of that length) with the count of ranges in use. An operation on \<open>&mut self\<close> returns
  the updated record.
\<close>

section \<open>A single range\<close>

record memory_range =
  rstart :: u64
  rend :: u64

definition range_new :: "u64 \<Rightarrow> u64 \<Rightarrow> memory_range" where
  "range_new s e = \<lparr>rstart = s, rend = e\<rparr>"

definition range_overlaps :: "memory_range \<Rightarrow> memory_range \<Rightarrow> memory_range option" where
  "range_overlaps r other =
     (if rstart r \<ge> rend other \<or> rend r \<le> rstart other then None
      else Some \<lparr>rstart = (if rstart r > rstart other then rstart r else rstart other),
                 rend = (if rend r < rend other then rend r else rend other)\<rparr>)"

definition range_is_inside :: "memory_range \<Rightarrow> memory_range \<Rightarrow> bool" where
  "range_is_inside r other \<longleftrightarrow> rstart r \<ge> rstart other \<and> rend r \<le> rend other"

definition range_contains :: "memory_range \<Rightarrow> memory_range \<Rightarrow> bool" where
  "range_contains r other \<longleftrightarrow> rstart r \<le> rstart other \<and> rend r \<ge> rend other"

definition range_size :: "memory_range \<Rightarrow> u64" where
  "range_size r = rend r - rstart r + 1"

section \<open>The array of ranges\<close>

record memory_ranges =
  ranges :: "memory_range list"
  used :: nat

definition ranges_new :: "nat \<Rightarrow> memory_ranges" where
  "ranges_new n = \<lparr>ranges = replicate n \<lparr>rstart = 0, rend = 0\<rparr>, used = 0\<rparr>"

definition entries :: "memory_ranges \<Rightarrow> memory_range list" where
  "entries m = take (used m) (ranges m)"

text \<open>\<open>Index::index\<close> asserts that the index is in use: \<open>None\<close> is that panic.\<close>

definition ranges_index :: "memory_ranges \<Rightarrow> nat \<Rightarrow> memory_range option" where
  "ranges_index m i = (if i < used m then Some (ranges m ! i) else None)"

definition ranges_delete :: "memory_ranges \<Rightarrow> nat \<Rightarrow> memory_ranges" where
  "ranges_delete m i =
     (if i < used m
      then \<lparr>ranges = swap (ranges m) i (used m - 1), used = used m - 1\<rparr>
      else m)"

definition ranges_create :: "memory_ranges \<Rightarrow> memory_range \<Rightarrow> memory_ranges" where
  "ranges_create m r =
     (if used m < length (ranges m)
      then \<lparr>ranges = (ranges m)[used m := r], used = used m + 1\<rparr>
      else m)"

text \<open>The adjacency test of \<open>insert\<close>.\<close>

definition touches :: "memory_range \<Rightarrow> memory_range \<Rightarrow> bool" where
  "touches r current \<longleftrightarrow>
     rstart r \<le> saturating_add (rend current) 1 \<and> rstart current \<le> saturating_add (rend r) 1"

definition range_hull :: "memory_range \<Rightarrow> memory_range \<Rightarrow> memory_range" where
  "range_hull r current =
     \<lparr>rstart = min (rstart r) (rstart current), rend = max (rend r) (rend current)\<rparr>"

function ranges_merge :: "memory_ranges \<Rightarrow> memory_range \<Rightarrow> nat \<Rightarrow> memory_ranges \<times> memory_range" where
  "ranges_merge m r i =
     (if i < used m
      then (let current = ranges m ! i
            in if touches r current then ranges_merge (ranges_delete m i) (range_hull r current) i
               else ranges_merge m r (i + 1))
      else (m, r))"
  by pat_completeness auto
termination
  by (relation "measure (\<lambda>(m, r, i). used m - i)") (auto simp: ranges_delete_def)

declare ranges_merge.simps [simp del]

definition ranges_insert :: "memory_ranges \<Rightarrow> memory_range \<Rightarrow> memory_ranges" where
  "ranges_insert m r =
     (if rstart r > rend r then m
      else (let (m', r') = ranges_merge m r 0 in ranges_create m' r'))"

definition ranges_sum :: "memory_ranges \<Rightarrow> u64" where
  "ranges_sum m = sum_list (map (\<lambda>r. rend r - rstart r + 1) (entries m))"

text \<open>\<open>trim_remove\<close> is private and called with an index in use only.\<close>

definition ranges_trim_remove :: "memory_ranges \<Rightarrow> nat \<Rightarrow> memory_range \<Rightarrow> memory_ranges" where
  "ranges_trim_remove m i t =
     (let r = ranges m ! i
      in if rstart t \<le> rstart r \<and> rend t \<ge> rend r then ranges_delete m i
         else if rstart t \<le> rstart r
         then m\<lparr>ranges := (ranges m)[i := r\<lparr>rstart := rend t + 1\<rparr>]\<rparr>
         else if rend t \<ge> rend r
         then m\<lparr>ranges := (ranges m)[i := r\<lparr>rend := rstart t - 1\<rparr>]\<rparr>
         else ranges_create (m\<lparr>ranges := (ranges m)[i := r\<lparr>rend := rstart t - 1\<rparr>]\<rparr>)
                (range_new (rend t + 1) (rend r)))"

section \<open>Best-fit allocation\<close>

text \<open>Index, start, end and waste of the best fit found so far.\<close>

type_synonym best = "nat \<times> u64 \<times> u64 \<times> u64"

definition better :: "best option \<Rightarrow> nat \<Rightarrow> u64 \<times> u64 \<times> u64 \<Rightarrow> best option" where
  "better best i c =
     (case c of (s, e, waste) \<Rightarrow>
        (case best of
           None \<Rightarrow> Some (i, s, e, waste)
         | Some (_, _, _, best_waste) \<Rightarrow>
             if waste < best_waste then Some (i, s, e, waste) else best))"

text \<open>The body of the loop of \<open>allocate\<close>: \<open>None\<close> is \<open>continue\<close>.\<close>

definition allocate_fit :: "u64 \<Rightarrow> alignment \<Rightarrow> memory_range \<Rightarrow> (u64 \<times> u64 \<times> u64) option" where
  "allocate_fit sz al r =
     (let offset = rstart r AND align_mask al;
          alignment_offset = (align_as_u64 al - offset) AND align_mask al
      in case checked_add (rstart r) alignment_offset of
           None \<Rightarrow> None
         | Some aligned_start \<Rightarrow>
             (case checked_add aligned_start (sz - 1) of
                None \<Rightarrow> None
              | Some e \<Rightarrow>
                  if e > rend r then None
                  else Some (aligned_start, e, alignment_offset + (rend r - e))))"

fun allocate_scan ::
  "u64 \<Rightarrow> alignment \<Rightarrow> nat \<Rightarrow> memory_range list \<Rightarrow> best option \<Rightarrow> best option" where
  "allocate_scan sz al i [] best = best"
| "allocate_scan sz al i (r # rs) best =
     allocate_scan sz al (i + 1) rs
       (case allocate_fit sz al r of None \<Rightarrow> best | Some c \<Rightarrow> better best i c)"

definition ranges_take :: "memory_ranges \<Rightarrow> best option \<Rightarrow> u64 option \<times> memory_ranges" where
  "ranges_take m best =
     (case best of
        None \<Rightarrow> (None, m)
      | Some (i, s, e, _) \<Rightarrow> (Some s, ranges_trim_remove m i (range_new s e)))"

definition ranges_allocate ::
  "memory_ranges \<Rightarrow> u64 \<Rightarrow> alignment \<Rightarrow> u64 option \<times> memory_ranges" where
  "ranges_allocate m sz al =
     (if sz = 0 then (None, m)
      else ranges_take m (allocate_scan sz al 0 (entries m) None))"

text \<open>The body of the inner loop of \<open>allocate_req\<close>.\<close>

definition allocate_req_fit ::
  "u64 \<Rightarrow> alignment \<Rightarrow> memory_range \<Rightarrow> memory_range \<Rightarrow> (u64 \<times> u64 \<times> u64) option" where
  "allocate_req_fit sz al r req =
     (let overlap_start = max (rstart r) (rstart req);
          overlap_end = min (rend r) (rend req)
      in if overlap_start \<ge> overlap_end then None
         else let offset = overlap_start AND align_mask al;
                  alignment_offset = (align_as_u64 al - offset) AND align_mask al
              in case checked_add overlap_start alignment_offset of
                   None \<Rightarrow> None
                 | Some aligned_start \<Rightarrow>
                     if \<not> aligned_start \<le> overlap_end then None
                     else (case checked_add aligned_start (sz - 1) of
                             None \<Rightarrow> None
                           | Some e \<Rightarrow>
                               if \<not> e \<le> overlap_end then None
                               else Some (aligned_start, e, alignment_offset + (rend r - e))))"

fun allocate_req_inner ::
  "u64 \<Rightarrow> alignment \<Rightarrow> nat \<Rightarrow> memory_range \<Rightarrow> memory_range list \<Rightarrow> best option \<Rightarrow> best option" where
  "allocate_req_inner sz al i r [] best = best"
| "allocate_req_inner sz al i r (q # qs) best =
     allocate_req_inner sz al i r qs
       (case allocate_req_fit sz al r q of None \<Rightarrow> best | Some c \<Rightarrow> better best i c)"

fun allocate_req_scan ::
  "u64 \<Rightarrow> alignment \<Rightarrow> memory_range list \<Rightarrow> nat \<Rightarrow> memory_range list \<Rightarrow> best option \<Rightarrow> best option" where
  "allocate_req_scan sz al reqs i [] best = best"
| "allocate_req_scan sz al reqs i (r # rs) best =
     allocate_req_scan sz al reqs (i + 1) rs (allocate_req_inner sz al i r reqs best)"

definition ranges_allocate_req ::
  "memory_ranges \<Rightarrow> u64 \<Rightarrow> alignment \<Rightarrow> memory_ranges \<Rightarrow> u64 option \<times> memory_ranges" where
  "ranges_allocate_req m sz al reqs =
     (if sz = 0 then (None, m)
      else ranges_take m (allocate_req_scan sz al (entries reqs) 0 (entries m) None))"

section \<open>Intersection\<close>

fun intersect_inner :: "memory_range \<Rightarrow> memory_range list \<Rightarrow> memory_ranges \<Rightarrow> memory_ranges" where
  "intersect_inner r [] result = result"
| "intersect_inner r (q # qs) result =
     intersect_inner r qs
       (case range_overlaps r q of None \<Rightarrow> result | Some ov \<Rightarrow> ranges_insert result ov)"

fun intersect_outer ::
  "memory_range list \<Rightarrow> memory_range list \<Rightarrow> memory_ranges \<Rightarrow> memory_ranges" where
  "intersect_outer [] qs result = result"
| "intersect_outer (r # rs) qs result = intersect_outer rs qs (intersect_inner r qs result)"

definition ranges_intersection :: "memory_ranges \<Rightarrow> memory_ranges \<Rightarrow> memory_ranges" where
  "ranges_intersection m other =
     intersect_outer (entries m) (entries other) (ranges_new (length (ranges m)))"

section \<open>What a set of ranges covers, and its invariant\<close>

abbreviation lo :: "memory_range \<Rightarrow> nat" where "lo r \<equiv> unat (rstart r)"
abbreviation hi :: "memory_range \<Rightarrow> nat" where "hi r \<equiv> unat (rend r)"

definition cover :: "memory_range \<Rightarrow> nat set" where
  "cover r = {lo r..hi r}"

definition covers :: "memory_ranges \<Rightarrow> nat set" where
  "covers m = (\<Union>r \<in> set (entries m). cover r)"

definition separated :: "memory_range list \<Rightarrow> bool" where
  "separated rs \<longleftrightarrow> distinct rs \<and> (\<forall>a \<in> set rs. \<forall>b \<in> set rs. a \<noteq> b \<longrightarrow> \<not> touches a b)"

definition valid_range :: "memory_range \<Rightarrow> bool" where
  "valid_range r \<longleftrightarrow> rstart r \<le> rend r"

definition merge_wf :: "memory_ranges \<Rightarrow> bool" where
  "merge_wf m \<longleftrightarrow> used m \<le> length (ranges m) \<and> (\<forall>r \<in> set (entries m). valid_range r)"

definition ranges_inv :: "memory_ranges \<Rightarrow> bool" where
  "ranges_inv m \<longleftrightarrow> merge_wf m \<and> separated (entries m)"

definition first_fit :: "alignment \<Rightarrow> nat \<Rightarrow> nat" where
  "first_fit al x = x + (2 ^ align_shift al - x mod 2 ^ align_shift al) mod 2 ^ align_shift al"

definition waste :: "best option \<Rightarrow> u64" where
  "waste b = (case b of None \<Rightarrow> - 1 | Some (_, _, _, w) \<Rightarrow> w)"

definition splits :: "memory_ranges \<Rightarrow> nat \<Rightarrow> memory_range \<Rightarrow> bool" where
  "splits m i t \<longleftrightarrow> rstart (ranges m ! i) < rstart t \<and> rend t < rend (ranges m ! i)"

definition overlap_set :: "memory_range \<Rightarrow> memory_range \<Rightarrow> nat set" where
  "overlap_set r q = (case range_overlaps r q of None \<Rightarrow> {} | Some _ \<Rightarrow> cover r \<inter> cover q)"

lemma unat_u64_less: "unat (x :: u64) < 2 ^ 64"
  using unsigned_less [of x] by simp

lemma touches_iff: "touches a b \<longleftrightarrow> lo a \<le> hi b + 1 \<and> lo b \<le> hi a + 1"
  using unat_u64_less [of "rstart a"] unat_u64_less [of "rstart b"]
  by (auto simp: touches_def word_le_nat_alt unat_saturating_add min_def)

lemma touches_sym: "touches a b = touches b a"
  by (auto simp: touches_iff)

lemma length_entries [simp]: "used m \<le> length (ranges m) \<Longrightarrow> length (entries m) = used m"
  by (simp add: entries_def)

lemma nth_entries [simp]: "i < used m \<Longrightarrow> entries m ! i = ranges m ! i"
  by (simp add: entries_def)

lemma nth_mem_entries: "i < used m \<Longrightarrow> used m \<le> length (ranges m) \<Longrightarrow> ranges m ! i \<in> set (entries m)"
  by (metis length_entries nth_entries nth_mem)

lemma mset_entries_delete:
  assumes "i < used m" "used m \<le> length (ranges m)"
  shows "mset (entries (ranges_delete m i)) = mset (entries m) - {#ranges m ! i#}"
proof -
  let ?n = "used m - 1"
  have n: "Suc ?n = used m" "i \<le> ?n" "?n < length (ranges m)" using assms by auto
  have "last (entries m) = ranges m ! ?n"
    using assms by (subst last_conv_nth) (auto simp: entries_def)
  then have "entries (ranges_delete m i) = butlast ((entries m)[i := last (entries m)])"
    using take_swap_last[OF n(2,3)] assms n(1) by (simp add: ranges_delete_def entries_def)
  with mset_swap_remove[of i "entries m"] assms show ?thesis by simp
qed

lemma entries_create:
  assumes "used m < length (ranges m)"
  shows "entries (ranges_create m r) = entries m @ [r]"
  using assms by (simp add: ranges_create_def entries_def take_Suc_conv_app_nth)

lemma create_full: "\<not> used m < length (ranges m) \<Longrightarrow> ranges_create m r = m"
  by (simp add: ranges_create_def)

lemma delete_used: "i < used m \<Longrightarrow> used (ranges_delete m i) = used m - 1"
  "length (ranges (ranges_delete m i)) = length (ranges m)"
  by (simp_all add: ranges_delete_def)

lemma cover_hull: "touches a b \<Longrightarrow> rstart a \<le> rend a \<Longrightarrow> rstart b \<le> rend b \<Longrightarrow> cover (range_hull a b) = cover a \<union> cover b"
  by (auto simp: cover_def range_hull_def touches_iff word_le_nat_alt min_def max_def)

lemma touches_hull:
  "touches a b \<Longrightarrow> rstart a \<le> rend a \<Longrightarrow> rstart b \<le> rend b \<Longrightarrow> rstart c \<le> rend c \<Longrightarrow>
   touches (range_hull a b) c \<longleftrightarrow> touches a c \<or> touches b c"
  by (auto simp: range_hull_def touches_iff word_le_nat_alt min_def max_def)

lemma hull_valid: "rstart a \<le> rend a \<Longrightarrow> rstart (range_hull a b) \<le> rend (range_hull a b)"
  by (auto simp: range_hull_def min_def max_def)


lemma set_remove1_mset: "mset ys = mset xs - {#x#} \<Longrightarrow> x \<in> set xs \<Longrightarrow> set xs = insert x (set ys)"
  by (metis insert_DiffM mset_set_set set_mset_add_mset_insert set_mset_mset in_multiset_in_set)

lemma set_entries_delete:
  assumes "i < used m" "used m \<le> length (ranges m)"
  shows "set (entries m) = insert (ranges m ! i) (set (entries (ranges_delete m i)))"
  using set_remove1_mset[OF mset_entries_delete[OF assms] nth_mem_entries[OF assms]] .

lemma covers_delete:
  assumes "i < used m" "used m \<le> length (ranges m)"
  shows "covers m = cover (ranges m ! i) \<union> covers (ranges_delete m i)"
  by (simp add: covers_def set_entries_delete[OF assms])

lemma separated_remove:
  assumes "separated xs" "mset ys = mset xs - {#x#}" "x \<in> set xs"
  shows "separated ys \<and> (\<forall>y \<in> set ys. \<not> touches y x)"
proof -
  have "mset xs = mset (x # ys)" using assms by (simp add: insert_DiffM)
  then have "distinct (x # ys)" "set xs = set (x # ys)"
    using assms(1) unfolding separated_def by (metis mset_eq_imp_distinct_iff, metis mset_eq_setD)
  then show ?thesis using assms(1) unfolding separated_def by (auto)
qed

lemma separated_snoc:
  assumes "separated xs" "\<forall>y \<in> set xs. \<not> touches y r" "valid_range r"
  shows "separated (xs @ [r])"
proof -
  have "touches r r" using assms by (simp add: touches_iff valid_range_def word_le_nat_alt)
  then have "r \<notin> set xs" using assms by auto
  with assms show ?thesis by (auto simp: separated_def touches_sym)
qed

lemma merge_wf_delete: "merge_wf m \<Longrightarrow> i < used m \<Longrightarrow> merge_wf (ranges_delete m i)"
  using set_entries_delete[of i m] by (auto simp: merge_wf_def delete_used)

lemma merge_props:
  assumes "merge_wf m" "valid_range r" "ranges_merge m r i = (m', r')"
  shows "merge_wf m' \<and> valid_range r' \<and> covers m' \<union> cover r' = covers m \<union> cover r
    \<and> length (ranges m') = length (ranges m) \<and> used m' \<le> used m
    \<and> (used m' = used m \<longrightarrow> m' = m \<and> r' = r)
    \<and> (used m' = used m \<longleftrightarrow> (\<forall>j. i \<le> j \<and> j < used m \<longrightarrow> \<not> touches r (ranges m ! j)))"
  using assms
proof (induction m r i arbitrary: m' r' rule: ranges_merge.induct)
  case (1 m r i)
  show ?case
  proof (cases "i < used m")
    case False
    then show ?thesis using 1(3-5) by (auto simp: ranges_merge.simps[of m r i])
  next
    case i: True
    let ?c = "ranges m ! i"
    have c: "valid_range ?c" using 1(3) i by (auto simp: merge_wf_def nth_mem_entries)
    show ?thesis
    proof (cases "touches r ?c")
      case True
      have e: "ranges_merge (ranges_delete m i) (range_hull r ?c) i = (m', r')"
        using 1(5) i True by (simp add: ranges_merge.simps[of m r i])
      have h: "valid_range (range_hull r ?c)" using 1(4) hull_valid by (simp add: valid_range_def)
      note 1(1)[OF i refl True merge_wf_delete[OF 1(3) i] h e]
      moreover have "used (ranges_delete m i) < used m" using i by (simp add: delete_used)
      moreover have "covers (ranges_delete m i) \<union> cover (range_hull r ?c) = covers m \<union> cover r"
        using covers_delete[OF i] 1(3,4) c cover_hull[OF True] by (auto simp: merge_wf_def valid_range_def)
      ultimately show ?thesis using i True by (auto simp: delete_used(2))
    next
      case False
      have e: "ranges_merge m r (i + 1) = (m', r')"
        using 1(5) i False by (simp add: ranges_merge.simps[of m r i])
      have "(\<forall>j. i + 1 \<le> j \<and> j < used m \<longrightarrow> \<not> touches r (ranges m ! j)) \<longleftrightarrow>
            (\<forall>j. i \<le> j \<and> j < used m \<longrightarrow> \<not> touches r (ranges m ! j))"
        using False by (metis Suc_eq_plus1 Suc_leI le_SucI le_eq_less_or_eq le_antisym not_less_eq_eq)
      with 1(2)[OF i refl False 1(3,4) e] show ?thesis by simp
    qed
  qed
qed


lemma separated_nth:
  assumes "separated (entries m)" "used m \<le> length (ranges m)" "i < used m" "j < used m" "i \<noteq> j"
  shows "\<not> touches (ranges m ! i) (ranges m ! j)"
proof -
  have "entries m ! i \<noteq> entries m ! j"
    using assms nth_eq_iff_index_eq [of "entries m" i j] by (simp add: separated_def)
  then show ?thesis
    using assms nth_mem_entries[of i m] nth_mem_entries[of j m] by (auto simp: separated_def)
qed

lemma merge_separated:
  assumes "merge_wf m" "valid_range r" "separated (entries m)" "i \<le> used m"
    "\<forall>j < i. \<not> touches r (ranges m ! j)" "ranges_merge m r i = (m', r')"
  shows "separated (entries m') \<and> (\<forall>e \<in> set (entries m'). \<not> touches r' e)"
  using assms
proof (induction m r i arbitrary: m' r' rule: ranges_merge.induct)
  case (1 m r i)
  have wf: "used m \<le> length (ranges m)" using 1(3) by (simp add: merge_wf_def)
  show ?case
  proof (cases "i < used m")
    case False
    then have "\<forall>j < used m. \<not> touches r (ranges m ! j)" using 1(6,7) by auto
    then have "\<forall>e \<in> set (entries m). \<not> touches r e"
      using wf by (auto simp: in_set_conv_nth)
    with False show ?thesis using 1(5,8) by (auto simp: ranges_merge.simps[of m r i])
  next
    case i: True
    let ?c = "ranges m ! i"
    have c: "valid_range ?c" using 1(3) i by (auto simp: merge_wf_def nth_mem_entries)
    show ?thesis
    proof (cases "touches r ?c")
      case True
      have "separated (entries (ranges_delete m i))"
        using separated_remove[OF 1(5) mset_entries_delete[OF i wf] nth_mem_entries[OF i wf]] by simp
      moreover have "\<forall>j < i. \<not> touches (range_hull r ?c) (ranges (ranges_delete m i) ! j)"
      proof (intro allI impI)
        fix j assume j: "j < i"
        have "ranges (ranges_delete m i) ! j = ranges m ! j"
          using j i by (simp add: ranges_delete_def swap_def)
        moreover have "valid_range (ranges m ! j)"
          using 1(3) i j wf by (auto simp: merge_wf_def nth_mem_entries)
        moreover have "\<not> touches ?c (ranges m ! j)"
          using separated_nth[OF 1(5) wf i, of j] i j by simp
        ultimately show "\<not> touches (range_hull r ?c) (ranges (ranges_delete m i) ! j)"
          using touches_hull[OF True] 1(4) 1(7) c j by (simp add: valid_range_def)
      qed
      moreover have "ranges_merge (ranges_delete m i) (range_hull r ?c) i = (m', r')"
        using 1(8) i True by (simp add: ranges_merge.simps[of m r i])
      moreover have "valid_range (range_hull r ?c)"
        using 1(4) hull_valid by (simp add: valid_range_def)
      moreover have "i \<le> used (ranges_delete m i)" using i by (simp add: delete_used)
      ultimately show ?thesis
        using 1(1)[OF i refl True merge_wf_delete[OF 1(3) i]] by blast
    next
      case False
      have e: "ranges_merge m r (i + 1) = (m', r')"
        using 1(8) i False by (simp add: ranges_merge.simps[of m r i])
      have "\<forall>j < i + 1. \<not> touches r (ranges m ! j)" using 1(7) False by (simp add: less_Suc_eq)
      with 1(2)[OF i refl False 1(3,4,5) _ _ e] i show ?thesis by simp
    qed
  qed
qed

lemma insert_inv: "ranges_inv m \<Longrightarrow> ranges_inv (ranges_insert m r)"
proof (cases "rstart r > rend r")
  case False
  assume inv: "ranges_inv m"
  obtain m' r' where m: "ranges_merge m r 0 = (m', r')" by fastforce
  have r: "valid_range r" using False by (simp add: valid_range_def)
  have 1: "merge_wf m' \<and> valid_range r'" using merge_props[OF _ r m] inv by (auto simp: ranges_inv_def)
  have 2: "separated (entries m') \<and> (\<forall>e \<in> set (entries m'). \<not> touches e r')"
    using merge_separated[OF _ r _ _ _ m] inv by (simp add: ranges_inv_def touches_sym)
  show ?thesis
  proof (cases "used m' < length (ranges m')")
    case True
    then show ?thesis
      using 1 2 False m separated_snoc[of "entries m'" r']
      by (simp add: ranges_insert_def ranges_inv_def merge_wf_def entries_create)
        (simp add: ranges_create_def)
  next
    case False
    then show ?thesis using 1 2 \<open>\<not> rstart r > rend r\<close> m 
      by (simp add: ranges_insert_def ranges_inv_def create_full)
  qed
qed (simp add: ranges_insert_def)

lemma covers_insert:
  assumes "merge_wf m" "valid_range r"
  shows "covers (ranges_insert m r) = (if used m < length (ranges m) \<or> (\<exists>e \<in> set (entries m). touches r e)
     then covers m \<union> cover r else covers m)"
proof -
  obtain m' r' where m: "ranges_merge m r 0 = (m', r')" by fastforce
  note P = merge_props[OF assms m]
  have ins: "ranges_insert m r = ranges_create m' r'"
    using assms m by (simp add: ranges_insert_def valid_range_def not_less)
  have full: "used m' < length (ranges m') \<longleftrightarrow> used m < length (ranges m) \<or> (\<exists>e \<in> set (entries m). touches r e)"
    using P assms(1) nth_mem_entries [of _ m] by (fastforce simp: merge_wf_def in_set_conv_nth)
  have "covers (ranges_create m' r') = covers m' \<union> cover r'" if "used m' < length (ranges m')"
    using that by (auto simp: covers_def entries_create)
  moreover have "covers (ranges_create m' r') = covers m" if "\<not> used m' < length (ranges m')"
    using that P assms(1) by (auto simp: create_full merge_wf_def)
  ultimately show ?thesis using P full ins by auto
qed

section \<open>Best fit and trimming\<close>

lemma pad_eq: "x + (m - x mod m) mod m = m * (x div m + 1)" if "x mod m \<noteq> 0" "0 < m" for x m :: nat
proof -
  have "(m - x mod m) mod m = m - x mod m" using that by simp
  moreover have "x + (m - x mod m) = m * (x div m) + m"
    using mult_div_mod_eq [of m x] mod_less_divisor [OF that(2), of x] by linarith
  ultimately show ?thesis by simp
qed

lemma pad_dvd: "m dvd x + (m - x mod m) mod m" if "0 < m" for x m :: nat
  using that by (cases "x mod m = 0") (auto simp: pad_eq simp flip: dvd_eq_mod_eq_0)

lemma pad_least: "x + (m - x mod m) mod m \<le> y" if "0 < m" "m dvd y" "x \<le> y" for x y m :: nat
proof (cases "x mod m = 0")
  case False
  from that(2) obtain q where y: "y = m * q" ..
  have "x div m < q"
  proof (rule ccontr)
    assume "\<not> x div m < q"
    then have "y \<le> m * (x div m)" using y by simp
    with that False show False using mult_div_mod_eq [of m x] by linarith
  qed
  then have "m * (x div m + 1) \<le> m * q" by (intro mult_le_mono2) simp
  then show ?thesis using y pad_eq [OF False that(1)] by simp
qed (use that in auto)

lemma unat_alignment_offset:
  "unat ((align_as_u64 al - (x AND align_mask al)) AND align_mask al)
   = (2 ^ align_shift al - unat x mod 2 ^ align_shift al) mod 2 ^ align_shift al"
proof -
  have "x AND align_mask al \<le> align_as_u64 al"
    by (simp add: word_le_nat_alt align_mask_eq unat_and_mask unat_align_as_u64)
  then show ?thesis
    by (simp add: align_mask_eq unat_and_mask unat_sub unat_align_as_u64)
qed

lemma first_fit_props: "2 ^ align_shift al dvd first_fit al x" "x \<le> first_fit al x"
   "2 ^ align_shift al dvd y \<Longrightarrow> x \<le> y \<Longrightarrow> first_fit al x \<le> y"
  by (simp_all add: first_fit_def pad_dvd pad_least)

lemma unat_size_minus_one: "sz \<noteq> 0 \<Longrightarrow> unat (sz - 1 :: u64) = unat sz - 1"
  by (simp add: unat_minus_one)

lemma allocate_fit_Some:
  assumes "sz \<noteq> 0" "allocate_fit sz al r = Some (s, e, w)"
  shows "unat s = first_fit al (lo r) \<and> unat e = unat s + unat sz - 1 \<and> unat e \<le> hi r
     \<and> unat w = (unat s - lo r) + (hi r - unat e)"
proof -
  let ?o = "(align_as_u64 al - (rstart r AND align_mask al)) AND align_mask al"
  from assms have s: "unat s = lo r + unat ?o" and e: "unat e = unat s + unat (sz - 1)"
    and le: "e \<le> rend r" and w: "w = ?o + (rend r - e)"
    by (auto simp: allocate_fit_def Let_def checked_add_eq_Some not_less split: option.splits if_splits)
  have pos: "0 < unat sz" using assms(1) by (simp add: unat_gt_0)
  have h: "unat e \<le> hi r" using le by (simp add: word_le_nat_alt)
  have "unat w = unat ?o + (hi r - unat e)"
  proof -
    have "unat ?o + (hi r - unat e) < 2 ^ 64"
      using s e h unat_u64_less[of "rend r"] by linarith
    then show ?thesis using w le by (simp add: unat_add_lem [THEN iffD1] unat_sub)
  qed
  moreover have "unat s = first_fit al (lo r)"
    using s by (simp only: first_fit_def unat_alignment_offset)
  ultimately show ?thesis
    using s e h pos assms(1) by (simp add: unat_size_minus_one)
qed

lemma allocate_fit_None:
  assumes "sz \<noteq> 0" "allocate_fit sz al r = None" "2 ^ align_shift al dvd a" "lo r \<le> a"
  shows "hi r < a + unat sz - 1"
proof (rule ccontr)
  assume "\<not> hi r < a + unat sz - 1"
  then have a: "a + unat sz - 1 \<le> hi r" by simp
  let ?o = "(align_as_u64 al - (rstart r AND align_mask al)) AND align_mask al"
  have pos: "0 < unat sz" using assms(1) by (simp add: unat_gt_0)
  have f: "lo r + unat ?o \<le> a"
    using first_fit_props(3)[OF assms(3,4)] by (simp only: first_fit_def unat_alignment_offset)
  have "lo r + unat ?o < 2 ^ 64" using f a pos unat_u64_less[of "rend r"] by linarith
  then obtain s where s: "checked_add (rstart r) ?o = Some s" by (simp add: checked_add_def)
  then have us: "unat s = lo r + unat ?o" by (simp add: checked_add_eq_Some)
  have "unat s + unat (sz - 1) < 2 ^ 64"
    using us f a pos unat_u64_less[of "rend r"] unat_size_minus_one[OF assms(1)] by linarith
  then obtain e where e: "checked_add s (sz - 1) = Some e" by (simp add: checked_add_def)
  then have "e \<le> rend r" 
    using us f a pos unat_size_minus_one[OF assms(1)] by (simp add: checked_add_eq_Some word_le_nat_alt)
  then have "\<not> rend r < e" by simp
  then show False
    using assms(2) s e by (simp add: allocate_fit_def Let_def)
qed

text \<open>Both scans fold \<open>better\<close> over the candidates in order.\<close>

fun pick_best :: "(nat \<times> (u64 \<times> u64 \<times> u64) option) list \<Rightarrow> best option \<Rightarrow> best option" where
  "pick_best [] best = best"
| "pick_best ((i, c) # cs) best = pick_best cs (case c of None \<Rightarrow> best | Some c \<Rightarrow> better best i c)"

lemma pick_best_append [simp]: "pick_best (cs @ ds) best = pick_best ds (pick_best cs best)"
  by (induction cs best rule: pick_best.induct) simp_all

lemma allocate_scan_pick:
  "allocate_scan sz al i rs best = pick_best (map (\<lambda>(j, r). (j, allocate_fit sz al r)) (enumerate i rs)) best"
  by (induction rs arbitrary: i best) simp_all

lemma allocate_req_inner_pick:
  "allocate_req_inner sz al i r qs best = pick_best (map (\<lambda>q. (i, allocate_req_fit sz al r q)) qs) best"
  by (induction qs arbitrary: best) simp_all

lemma allocate_req_scan_pick:
  "allocate_req_scan sz al qs i rs best =
   pick_best (concat (map (\<lambda>(j, r). map (\<lambda>q. (j, allocate_req_fit sz al r q)) qs) (enumerate i rs))) best"
  by (induction rs arbitrary: i best) (simp_all add: allocate_req_inner_pick)

lemma pick_best_props:
  "(pick_best cs best = best \<or> (\<exists>i s e w. pick_best cs best = Some (i, s, e, w) \<and> (i, Some (s, e, w)) \<in> set cs))
   \<and> (best \<noteq> None \<longrightarrow> pick_best cs best \<noteq> None \<and> waste (pick_best cs best) \<le> waste best)
   \<and> (\<forall>i s e w. (i, Some (s, e, w)) \<in> set cs \<longrightarrow> pick_best cs best \<noteq> None \<and> waste (pick_best cs best) \<le> w)"
proof (induction cs best rule: pick_best.induct)
  case (2 i c cs best)
  let ?b = "case c of None \<Rightarrow> best | Some c \<Rightarrow> better best i c"
  have "(?b = best \<or> (\<exists>s e w. ?b = Some (i, s, e, w) \<and> c = Some (s, e, w)))
     \<and> (best \<noteq> None \<longrightarrow> ?b \<noteq> None \<and> waste ?b \<le> waste best)
     \<and> (\<forall>s e w. c = Some (s, e, w) \<longrightarrow> ?b \<noteq> None \<and> waste ?b \<le> w)"
    by (auto simp: better_def waste_def split: option.splits)
  with 2 show ?case by (fastforce intro: order_trans)
qed simp

lemma pick_best_Some: "pick_best cs None = Some (i, s, e, w) \<Longrightarrow>
   (i, Some (s, e, w)) \<in> set cs \<and> (\<forall>i' s' e' w'. (i', Some (s', e', w')) \<in> set cs \<longrightarrow> w \<le> w')"
  using pick_best_props[of cs None] by (force simp: waste_def)

lemma pick_best_None: "pick_best cs None = None \<Longrightarrow> (i, Some c) \<notin> set cs"
  using pick_best_props[of cs None] by (cases c) auto


lemma entries_update: "i < used m \<Longrightarrow> entries (m\<lparr>ranges := (ranges m)[i := x]\<rparr>) = (entries m)[i := x]"
  by (simp add: entries_def take_update_swap)

lemma cover_empty_iff: "cover r = {} \<longleftrightarrow> \<not> valid_range r"
  by (simp add: cover_def valid_range_def word_le_nat_alt not_le)

lemma not_touches_disjoint: "\<not> touches a b \<Longrightarrow> cover a \<inter> cover b = {}"
  by (auto simp: cover_def touches_iff)

lemma touches_mono: "touches p y \<Longrightarrow> lo r \<le> lo p \<Longrightarrow> hi p \<le> hi r \<Longrightarrow> touches r y"
  by (auto simp: touches_iff)

lemma covers_cong: "mset (entries m) = mset xs \<Longrightarrow> covers m = (\<Union>r \<in> set xs. cover r)"
  by (metis covers_def mset_eq_setD)

lemma separated_cong: "mset ys = mset xs \<Longrightarrow> separated ys = separated xs"
  by (metis separated_def mset_eq_setD mset_eq_imp_distinct_iff)

lemma touches_refl: "valid_range r \<Longrightarrow> touches r r"
  by (simp add: touches_iff valid_range_def word_le_nat_alt)

lemma separated_append:
  assumes "separated ps" "separated xs" "\<forall>p \<in> set ps. valid_range p" "\<forall>p \<in> set ps. \<forall>x \<in> set xs. \<not> touches p x"
  shows "separated (ps @ xs)"
proof -
  have "p \<notin> set xs" if "p \<in> set ps" for p
    using that assms(3,4) touches_refl by blast
  moreover have "\<not> touches x p" if "x \<in> set xs" "p \<in> set ps" for x p
    using that assms(4) touches_sym [of x p] by simp
  ultimately show ?thesis using assms by (auto simp: separated_def)
qed

lemma replace_entry:
  assumes inv: "ranges_inv m" and i: "i < used m"
    and m': "used m' \<le> length (ranges m')" "mset (entries m') = mset ps + (mset (entries m) - {#ranges m ! i#})"
    and ps: "separated ps" "\<forall>p \<in> set ps. valid_range p \<and> lo (ranges m ! i) \<le> lo p \<and> hi p \<le> hi (ranges m ! i)"
  shows "ranges_inv m' \<and> covers m' = (\<Union>p \<in> set ps. cover p) \<union> (covers m - cover (ranges m ! i))"
proof -
  let ?r = "ranges m ! i" and ?rest = "entries (ranges_delete m i)"
  have wf: "used m \<le> length (ranges m)" using inv by (simp add: ranges_inv_def merge_wf_def)
  have rest: "mset ?rest = mset (entries m) - {#?r#}" by (rule mset_entries_delete [OF i wf])
  have mem: "?r \<in> set (entries m)" by (rule nth_mem_entries [OF i wf])
  have sep: "separated ?rest \<and> (\<forall>y \<in> set ?rest. \<not> touches y ?r)"
    using separated_remove [OF _ rest mem] inv by (simp add: ranges_inv_def)
  have set_m: "set (entries m) = insert ?r (set ?rest)"
    by (rule set_entries_delete [OF i wf])
  have m'_eq: "mset (entries m') = mset (ps @ ?rest)" using m'(2) rest by simp
  have "\<forall>p \<in> set ps. \<forall>x \<in> set ?rest. \<not> touches p x"
    using sep ps(2) touches_mono touches_sym by blast
  then have "separated (entries m')"
    using separated_append [OF ps(1)] sep ps(2) separated_cong [OF m'_eq] by auto
  moreover have "set (entries m') = set ps \<union> set ?rest"
    using mset_eq_setD [OF m'_eq] by simp
  then have "merge_wf m'"
    using m'(1) inv ps(2) set_m by (auto simp: ranges_inv_def merge_wf_def)
  moreover have "covers m - cover ?r = (\<Union>p \<in> set ?rest. cover p)"
    using sep not_touches_disjoint by (fastforce simp: covers_def set_m)
  ultimately show ?thesis
    using covers_cong [OF m'_eq] by (simp add: ranges_inv_def)
qed

lemma trim_remove_props:
  assumes inv: "ranges_inv m" and i: "i < used m" and t: "valid_range t"
    and sub: "rstart (ranges m ! i) \<le> rstart t" "rend t \<le> rend (ranges m ! i)"
  shows "ranges_inv (ranges_trim_remove m i t) \<and>
    covers (ranges_trim_remove m i t) = 
     covers m - (if splits m i t \<and> used m = length (ranges m) then {lo t..hi (ranges m ! i)} else cover t)"
proof -
  let ?r = "ranges m ! i"
  let ?cut = "m\<lparr>ranges := (ranges m)[i := ?r\<lparr>rend := rstart t - 1\<rparr>]\<rparr>"
  have wf: "used m \<le> length (ranges m)" using inv by (simp add: ranges_inv_def merge_wf_def)
  have mem: "cover ?r \<subseteq> covers m" using nth_mem_entries [OF i wf] by (auto simp: covers_def)
  have upd: "mset (entries (m\<lparr>ranges := (ranges m)[i := x]\<rparr>)) = mset [x] + (mset (entries m) - {#?r#})" for x
    using mset_update [of i "entries m" x] i wf by (simp add: entries_update)
  have one: "separated [x]" for x by (simp add: separated_def)
  have t_nat: "lo t \<le> hi t" "lo ?r \<le> lo t" "hi t \<le> hi ?r"
    using t sub by (simp_all add: valid_range_def word_le_nat_alt)
  have succ: "unat (rend t + 1) = hi t + 1" if "rend t < rend ?r"
    using that unat_u64_less [of "rend ?r"] by (simp add: word_less_nat_alt unat_add_lem [THEN iffD1])
  have pred: "unat (rstart t - 1) = lo t - 1" if "rstart ?r < rstart t"
    using that by (intro unat_minus_one) auto
  consider (all) "rstart t = rstart ?r" "rend t = rend ?r"
    | (beg) "rstart t = rstart ?r" "rend t < rend ?r"
    | (fin) "rstart ?r < rstart t" "rend t = rend ?r"
    | (mid) "rstart ?r < rstart t" "rend t < rend ?r"
    using sub by fastforce
  then show ?thesis
  proof cases
    case all
    then have T: "ranges_trim_remove m i t = ranges_delete m i" by (simp add: ranges_trim_remove_def Let_def)
    have "ranges_inv (ranges_delete m i) \<and> covers (ranges_delete m i) = (\<Union>p \<in> set []. cover p) \<union> (covers m - cover ?r)"
      by (rule replace_entry [OF inv i]) (use i wf in \<open>auto simp: delete_used mset_entries_delete separated_def\<close>)
    with all T show ?thesis by (simp add: splits_def cover_def)
  next
    case beg
    let ?p = "?r\<lparr>rstart := rend t + 1\<rparr>"
    have T: "ranges_trim_remove m i t = m\<lparr>ranges := (ranges m)[i := ?p]\<rparr>"
      using beg by (simp add: ranges_trim_remove_def Let_def)
    have p: "valid_range ?p \<and> lo ?r \<le> lo ?p \<and> hi ?p \<le> hi ?r"
      using beg succ t_nat by (simp add: valid_range_def word_le_nat_alt word_less_nat_alt)
    have "cover ?p = cover ?r - cover t"
      using beg succ t_nat by (auto simp: cover_def word_less_nat_alt)
    moreover have "ranges_inv (m\<lparr>ranges := (ranges m)[i := ?p]\<rparr>) \<and>
        covers (m\<lparr>ranges := (ranges m)[i := ?p]\<rparr>) = (\<Union>p \<in> set [?p]. cover p) \<union> (covers m - cover ?r)"
      by (rule replace_entry [OF inv i _ upd one]) (use wf p in auto)
    ultimately show ?thesis using beg T mem t_nat by (auto simp: splits_def cover_def)
  next
    case fin
    let ?p = "?r\<lparr>rend := rstart t - 1\<rparr>"
    have T: "ranges_trim_remove m i t = ?cut"
      using fin by (simp add: ranges_trim_remove_def Let_def)
    have p: "valid_range ?p \<and> lo ?r \<le> lo ?p \<and> hi ?p \<le> hi ?r"
      using fin pred t_nat by (auto simp: valid_range_def word_le_nat_alt word_less_nat_alt)
    have "cover ?p = cover ?r - cover t"
      using fin pred t_nat by (auto simp: cover_def word_less_nat_alt)
    moreover have "ranges_inv ?cut \<and> covers ?cut = (\<Union>p \<in> set [?p]. cover p) \<union> (covers m - cover ?r)"
      by (rule replace_entry [OF inv i _ upd one]) (use wf p in auto)
    ultimately show ?thesis using fin T mem t_nat by (auto simp: splits_def cover_def)
  next
    case mid
    let ?p = "?r\<lparr>rend := rstart t - 1\<rparr>" and ?q = "range_new (rend t + 1) (rend ?r)"
    have T: "ranges_trim_remove m i t = ranges_create ?cut ?q"
      using mid by (simp add: ranges_trim_remove_def Let_def)
    have p: "valid_range ?p \<and> lo ?r \<le> lo ?p \<and> hi ?p \<le> hi ?r"
      using mid pred t_nat by (auto simp: valid_range_def word_le_nat_alt word_less_nat_alt)
    have q: "valid_range ?q \<and> lo ?r \<le> lo ?q \<and> hi ?q \<le> hi ?r"
      using mid succ t_nat by (auto simp: valid_range_def word_le_nat_alt word_less_nat_alt range_new_def)
    show ?thesis
    proof (cases "used m < length (ranges m)")
      case True
      have pq: "\<not> touches ?p ?q" "\<not> touches ?q ?p"
        using mid succ pred t_nat by (auto simp: touches_iff range_new_def word_less_nat_alt)
      have "?p \<noteq> ?q" using p q pq touches_iff [of ?p ?p]  by (auto simp: valid_range_def word_le_nat_alt)
      then have "separated [?p, ?q]" using pq by (auto simp: separated_def)
      moreover have "mset (entries (ranges_create ?cut ?q)) = mset [?p, ?q] + (mset (entries m) - {#?r#})"
        using True upd [of ?p] by (simp add: entries_create)
      moreover have "used (ranges_create ?cut ?q) \<le> length (ranges (ranges_create ?cut ?q))"
        using True by (simp add: ranges_create_def)
      ultimately have "ranges_inv (ranges_create ?cut ?q) \<and>
          covers (ranges_create ?cut ?q) = (\<Union>p \<in> set [?p, ?q]. cover p) \<union> (covers m - cover ?r)"
        using p q by (intro replace_entry [OF inv i]) auto
      moreover have "cover ?p \<union> cover ?q = cover ?r - cover t"
        using mid succ pred t_nat by (auto simp: cover_def range_new_def word_less_nat_alt)
      ultimately show ?thesis using True T mem t_nat by (auto simp: cover_def)
    next
      case False
      then have "ranges_create ?cut ?q = ?cut" by (simp add: create_full)
      moreover have "ranges_inv ?cut \<and> covers ?cut = (\<Union>p \<in> set [?p]. cover p) \<union> (covers m - cover ?r)"
        by (rule replace_entry [OF inv i _ upd one]) (use wf p in auto)
      moreover have "cover ?p = cover ?r - {lo t..hi ?r}"
        using mid pred t_nat by (auto simp: cover_def word_less_nat_alt)
      ultimately show ?thesis using mid False wf T mem t_nat by (auto simp: cover_def splits_def)
    qed
  qed
qed


lemma mem_enumerate_map: "j < length xs \<Longrightarrow> (j, f (xs ! j)) \<in> set (map (\<lambda>(j, x). (j, f x)) (enumerate 0 xs))"
  by (auto simp: in_set_enumerate_eq image_iff intro!: bexI [of _ "(j, xs ! j)"])

lemma allocate_result:
  assumes inv: "ranges_inv m" and al: "ranges_allocate m sz al = (Some a, m')"
  shows "\<exists>i e w. sz \<noteq> 0 \<and> i < used m \<and> allocate_fit sz al (ranges m ! i) = Some (a, e, w)
     \<and> m' = ranges_trim_remove m i (range_new a e)
     \<and> (\<forall>r \<in> set (entries m). \<forall>s' e' w'. allocate_fit sz al r = Some (s', e', w') \<longrightarrow> w \<le> w')"
proof -
  have sz: "sz \<noteq> 0" using al by (auto simp: ranges_allocate_def)
  with al obtain i e w where p: "allocate_scan sz al 0 (entries m) None = Some (i, a, e, w)"
    and m': "m' = ranges_trim_remove m i (range_new a e)"
    by (auto simp: ranges_allocate_def ranges_take_def split: option.splits)
  let ?cs = "map (\<lambda>(j, r). (j, allocate_fit sz al r)) (enumerate 0 (entries m))"
  have "pick_best ?cs None = Some (i, a, e, w)" using p by (simp only: allocate_scan_pick)
  note P = pick_best_Some [OF this]
  have cs: "set ?cs = {(j, allocate_fit sz al (entries m ! j)) | j. j < length (entries m)}"
    by (force simp: in_set_enumerate_eq image_iff)
  have len: "length (entries m) = used m" using inv by (simp add: ranges_inv_def merge_wf_def)
  have "i < used m \<and> allocate_fit sz al (ranges m ! i) = Some (a, e, w)"
    using P cs len by auto
  moreover have "w \<le> w'" if "r \<in> set (entries m)" "allocate_fit sz al r = Some (s', e', w')" for r s' e' w'
  proof -
    from that(1) obtain j where "j < length (entries m)" "r = entries m ! j" by (metis in_set_conv_nth)
    with that(2) cs have "(j, Some (s', e', w')) \<in> set ?cs" by force
    with P show ?thesis by blast
  qed
  ultimately show ?thesis using sz m' by blast
qed


lemma interval_in_one:
  assumes inv: "ranges_inv m" and sub: "{a..b} \<subseteq> covers m" "a \<le> b"
  shows "\<exists>r \<in> set (entries m). {a..b} \<subseteq> cover r"
  using sub(2,1)
proof (induction b rule: dec_induct)
  case base
  then show ?case by (auto simp: covers_def)
next
  case (step n)
  from step(4) have "{a..n} \<subseteq> covers m" by auto
  with step.IH obtain r where r: "r \<in> set (entries m)" "{a..n} \<subseteq> cover r" by blast
  from step(4) have "Suc n \<in> covers m" using step(1) by auto
  then obtain q where q: "q \<in> set (entries m)" "Suc n \<in> cover q" by (auto simp: covers_def)
  have "touches r q" using r(2) q(2) step(1) by (auto simp: touches_iff cover_def)
  then have "r = q" using inv r(1) q(1) by (auto simp: ranges_inv_def separated_def)
  then show ?case using r q by (auto simp: atLeastAtMostSuc_conv step(1) le_SucI)
qed

lemma trim_room:
  assumes "ranges_inv m" "i < used m" "valid_range t" "rstart (ranges m ! i) \<le> rstart t" "rend t \<le> rend (ranges m ! i)"
  shows "length (ranges (ranges_trim_remove m i t)) = length (ranges m) \<and>
   (used (ranges_trim_remove m i t) \<le> used m \<or> (\<exists>e \<in> set (entries (ranges_trim_remove m i t)). touches t e))"
proof (cases "splits m i t \<and> used m < length (ranges m)")
  case True
  let ?p = "(ranges m ! i)\<lparr>rend := rstart t - 1\<rparr>"
  let ?cut = "m\<lparr>ranges := (ranges m)[i := ?p]\<rparr>"
  have T: "ranges_trim_remove m i t = ranges_create ?cut (range_new (rend t + 1) (rend (ranges m ! i)))"
    using True by (auto simp: ranges_trim_remove_def splits_def Let_def)
  have "?p \<in> set (entries ?cut)"
    using assms(1,2) by (simp add: entries_update ranges_inv_def merge_wf_def set_update_memI)
  then have "?p \<in> set (entries (ranges_trim_remove m i t))" using T True by (simp add: entries_create)
  moreover have "unat (rstart t - 1) = lo t - 1"
    using True by (intro unat_minus_one) (auto simp: splits_def)
  then have "touches t ?p"
    using True assms(3) by (auto simp: touches_iff splits_def valid_range_def word_le_nat_alt word_less_nat_alt)
  moreover have "length (ranges (ranges_trim_remove m i t)) = length (ranges m)"
    by (simp add: T ranges_create_def)
  ultimately show ?thesis by blast
next
  case False
  then show ?thesis using assms(2,4,5)
    by (auto simp: ranges_trim_remove_def Let_def delete_used splits_def create_full)
qed

lemma allocate_block:
  assumes inv: "ranges_inv m" and al: "ranges_allocate m sz al = (Some a, m')"
  obtains i e where "sz \<noteq> 0" "i < used m" "m' = ranges_trim_remove m i (range_new a e)"
    "valid_range (range_new a e)" "rstart (ranges m ! i) \<le> a" "e \<le> rend (ranges m ! i)"
    "unat a = first_fit al (lo (ranges m ! i))" "unat e = unat a + unat sz - 1" 
    "cover (range_new a e) = {unat a..<unat a + unat sz}"
proof -
  obtain i e w where R: "sz \<noteq> 0" "i < used m" "allocate_fit sz al (ranges m ! i) = Some (a, e, w)"
     "m' = ranges_trim_remove m i (range_new a e)"
    using allocate_result [OF assms] by blast
  have pos: "0 < unat sz" using R(1) by (simp add: unat_gt_0)
  note F = allocate_fit_Some [OF R(1,3)]
  show ?thesis
    by (rule that [OF R(1,2,4)])
      (use F pos first_fit_props(2) [of "lo (ranges m ! i)" al] in
        \<open>auto simp: valid_range_def range_new_def word_le_nat_alt cover_def\<close>)
qed


text \<open>What removing an allocated block does, shared by both allocation functions.\<close>

lemma take_block:
  assumes inv: "ranges_inv m" and i: "i < used m" and t: "valid_range (range_new a e)"
    "rstart (ranges m ! i) \<le> a" "e \<le> rend (ranges m ! i)" 
    and c: "cover (range_new a e) = {unat a..<unat a + unat sz}"
    and m': "m' = ranges_trim_remove m i (range_new a e)"
  shows "ranges_inv m' \<and> {unat a..<unat a + unat sz} \<subseteq> covers m
    \<and> covers m' \<subseteq> covers m - {unat a..<unat a + unat sz}
    \<and> (used m < length (ranges m) \<longrightarrow> covers m' = covers m - {unat a..<unat a + unat sz})"
proof -
  have "cover (range_new a e) \<subseteq> cover (ranges m ! i)"
    using t by (auto simp: cover_def range_new_def word_le_nat_alt)
  moreover have "cover (ranges m ! i) \<subseteq> covers m"
    using nth_mem_entries [OF i] inv by (auto simp: covers_def ranges_inv_def merge_wf_def)
  moreover have "cover (range_new a e) \<subseteq> {unat a..hi (ranges m ! i)}"
    using t by (auto simp: cover_def range_new_def word_le_nat_alt)
  ultimately show ?thesis
    using trim_remove_props [OF inv i t(1)] t m' c by (auto simp: range_new_def)
qed


section \<open>Restricted allocation and intersection\<close>

lemma allocate_req_fit_Some:
  assumes "sz \<noteq> 0" "allocate_req_fit sz al r q = Some (s, e, w)"
  shows "2 ^ align_shift al dvd unat s \<and> lo r \<le> unat s \<and> lo q \<le> unat s \<and> unat e = unat s + unat sz - 1
     \<and> unat e \<le> hi r \<and> unat e \<le> hi q"
proof -
  let ?x = "max (rstart r) (rstart q)"
  let ?o = "(align_as_u64 al - (?x AND align_mask al)) AND align_mask al"
  from assms have s: "unat s = unat ?x + unat ?o" and e: "unat e = unat s + unat (sz - 1)"
    and le: "e \<le> rend r" "e \<le> rend q"
    by (auto simp: allocate_req_fit_def Let_def checked_add_eq_Some not_less split: option.splits if_splits)
  have "0 < unat sz" using assms(1) by (simp add: unat_gt_0)
  moreover have "unat s = first_fit al (unat ?x)"
    using s by (simp only: first_fit_def unat_alignment_offset)
  moreover have "lo r \<le> unat ?x" "lo q \<le> unat ?x"
    by (simp_all flip: word_le_nat_alt)
  ultimately show ?thesis
    using e le assms(1) first_fit_props(1,2) [where al = al and x = "unat ?x"]
    by (auto simp: unat_size_minus_one word_le_nat_alt)
qed

lemma allocate_req_block:
  assumes inv: "ranges_inv m" and al: "ranges_allocate_req m sz al reqs = (Some a, m')"
  obtains i q e where "sz \<noteq> 0" "i < used m" "m' = ranges_trim_remove m i (range_new a e)"
    "valid_range (range_new a e)" "rstart (ranges m ! i) \<le> a" "e \<le> rend (ranges m ! i)"
    "is_aligned al a" "unat e = unat a + unat sz - 1" 
    "cover (range_new a e) = {unat a..<unat a + unat sz}"
    "q \<in> set (entries reqs)" "cover (range_new a e) \<subseteq> cover q"
proof -
  have sz: "sz \<noteq> 0" using al by (auto simp: ranges_allocate_req_def)
  with al obtain i e w where p: "allocate_req_scan sz al (entries reqs) 0 (entries m) None = Some (i, a, e, w)"
    and m': "m' = ranges_trim_remove m i (range_new a e)"
    by (auto simp: ranges_allocate_req_def ranges_take_def split: option.splits)
  from p [unfolded allocate_req_scan_pick, THEN pick_best_Some]
  obtain q where q: "q \<in> set (entries reqs)" "i < length (entries m)"
    "allocate_req_fit sz al (entries m ! i) q = Some (a, e, w)"
    by (auto simp: in_set_enumerate_eq)
  have i: "i < used m" using q(2) inv by (simp add: ranges_inv_def merge_wf_def)
  have pos: "0 < unat sz" using sz by (simp add: unat_gt_0)
  note F = allocate_req_fit_Some [OF sz q(3)]
  show ?thesis
    by (rule that [OF sz i m' _ _ _ _ _ _ q(1)])
      (use F pos i in \<open>auto simp: valid_range_def range_new_def word_le_nat_alt cover_def is_aligned_iff_dvd\<close>)
qed

lemma overlaps_cover: "range_overlaps r q = Some ov \<Longrightarrow> valid_range r \<Longrightarrow> valid_range q \<Longrightarrow> valid_range ov \<and> cover ov = cover r \<inter> cover q"
  by (auto simp: range_overlaps_def valid_range_def cover_def word_le_nat_alt word_less_nat_alt split: if_splits)

lemma overlaps_None: "range_overlaps r q = None \<longleftrightarrow> rend q \<le> rstart r \<or> rend r \<le> rstart q"
  by (auto simp: range_overlaps_def)

lemma insert_used: "used (ranges_insert m r) \<le> used m + 1 \<and> length (ranges (ranges_insert m r)) = length (ranges m)" if "merge_wf m"
proof (cases "valid_range r")
  case True
  obtain m' r' where m: "ranges_merge m r 0 = (m', r')" by fastforce
  from merge_props [OF that True m] m True show ?thesis
    by (auto simp: ranges_insert_def ranges_create_def valid_range_def)
next
  case False
  then show ?thesis by (simp add: ranges_insert_def valid_range_def not_le)
qed

lemma intersect_inner_props:
  assumes "ranges_inv res" "valid_range r" "\<forall>q \<in> set qs. valid_range q"
  shows "ranges_inv (intersect_inner r qs res) \<and> length (ranges (intersect_inner r qs res)) = length (ranges res)
    \<and> used (intersect_inner r qs res) \<le> used res + length qs
    \<and> covers (intersect_inner r qs res) \<subseteq> covers res \<union> (\<Union>q \<in> set qs. overlap_set r q)
    \<and> (used res + length qs \<le> length (ranges res) \<longrightarrow>
        covers (intersect_inner r qs res) = covers res \<union> (\<Union>q \<in> set qs. overlap_set r q))"
  using assms
proof (induction r qs res rule: intersect_inner.induct)
  case (2 r q qs res)
  let ?res = "case range_overlaps r q of None \<Rightarrow> res | Some ov \<Rightarrow> ranges_insert res ov"
  have inv: "ranges_inv ?res" using 2(2) by (auto simp: insert_inv split: option.splits)
  have wf: "merge_wf res" using 2(2) by (simp add: ranges_inv_def)
  have len: "length (ranges ?res) = length (ranges res)" "used ?res \<le> used res + 1"
    using insert_used [OF wf] by (auto split: option.splits)
  have cov: "covers ?res \<subseteq> covers res \<union> overlap_set r q \<and> (used res < length (ranges res) \<longrightarrow> covers ?res = covers res \<union> overlap_set r q)"
  proof (cases "range_overlaps r q")
    case (Some ov)
    then show ?thesis
      using overlaps_cover [OF Some] 2(3,4) covers_insert [OF wf, of ov] by (auto simp: overlap_set_def)
  qed (simp add: overlap_set_def)
  have "\<forall>q \<in> set qs. valid_range q" using 2(4) by simp
  with 2(1) [OF inv 2(3)] len cov show ?case by auto
qed simp

lemma intersect_outer_props:
  assumes "ranges_inv res" "\<forall>r \<in> set rs. valid_range r" "\<forall>q \<in> set qs. valid_range q"
  shows "ranges_inv (intersect_outer rs qs res) \<and> length (ranges (intersect_outer rs qs res)) = length (ranges res)
    \<and> covers (intersect_outer rs qs res) \<subseteq> covers res \<union> (\<Union>r \<in> set rs. \<Union>q \<in> set qs. overlap_set r q)
    \<and> (used res + length rs * length qs \<le> length (ranges res) \<longrightarrow>
        covers (intersect_outer rs qs res) = covers res \<union> (\<Union>r \<in> set rs. \<Union>q \<in> set qs. overlap_set r q))"
  using assms
proof (induction rs qs res rule: intersect_outer.induct)
  case (2 r rs qs res)
  have v: "valid_range r" "\<forall>r \<in> set rs. valid_range r" using 2(3) by auto
  let ?i = "intersect_inner r qs res"
  note I = intersect_inner_props [OF 2(2) v(1) 2(4)]
  have O: "ranges_inv (intersect_outer rs qs ?i) \<and> length (ranges (intersect_outer rs qs ?i)) = length (ranges ?i)
    \<and> covers (intersect_outer rs qs ?i) \<subseteq> covers ?i \<union> (\<Union>r \<in> set rs. \<Union>q \<in> set qs. overlap_set r q)
    \<and> (used ?i + length rs * length qs \<le> length (ranges ?i) \<longrightarrow>
        covers (intersect_outer rs qs ?i) = covers ?i \<union> (\<Union>r \<in> set rs. \<Union>q \<in> set qs. overlap_set r q))"
    by (rule 2(1) [OF _ v(2) 2(4)]) (use I in blast)
  have "used ?i + length rs * length qs \<le> length (ranges ?i)" "used res + length qs \<le> length (ranges res)"
    if "used res + length (r # rs) * length qs \<le> length (ranges res)"
    using that I by simp_all
  with I O show ?case by (simp only: intersect_outer.simps set_simps UN_insert) blast
qed simp


lemma allocate_sound:
  assumes inv: "ranges_inv m" and al: "ranges_allocate m sz al = (Some a, m')"
  shows "ranges_inv m' \<and> is_aligned al a \<and> {unat a..<unat a + unat sz} \<subseteq> covers m
    \<and> covers m' \<subseteq> covers m - {unat a..<unat a + unat sz}
    \<and> (used m < length (ranges m) \<longrightarrow> covers m' = covers m - {unat a..<unat a + unat sz})"
proof (rule allocate_block [OF assms])
  fix i e
  assume A: "i < used m" "m' = ranges_trim_remove m i (range_new a e)"
    "valid_range (range_new a e)" "rstart (ranges m ! i) \<le> a" "e \<le> rend (ranges m ! i)"
    "unat a = first_fit al (lo (ranges m ! i))"
    "cover (range_new a e) = {unat a..<unat a + unat sz}"
  have "is_aligned al a" using A(6) first_fit_props(1) by (simp add: is_aligned_iff_dvd)
  with take_block [OF inv A(1,3,4,5,7,2)] show ?thesis by blast
qed

lemma allocate_req_sound:
  assumes "ranges_inv m" and "ranges_allocate_req m sz al reqs = (Some a, m')"
  shows "ranges_inv m' \<and> is_aligned al a \<and> {unat a..<unat a + unat sz} \<subseteq> covers m
    \<and> (\<exists>q \<in> set (entries reqs). {unat a..<unat a + unat sz} \<subseteq> cover q)
    \<and> covers m' \<subseteq> covers m - {unat a..<unat a + unat sz}
    \<and> (used m < length (ranges m) \<longrightarrow> covers m' = covers m - {unat a..<unat a + unat sz})"
proof (rule allocate_req_block [OF assms])
  fix i q e
  assume A: "i < used m" "m' = ranges_trim_remove m i (range_new a e)"
    "valid_range (range_new a e)" "rstart (ranges m ! i) \<le> a" "e \<le> rend (ranges m ! i)"
    "is_aligned al a" "cover (range_new a e) = {unat a..<unat a + unat sz}"
    "q \<in> set (entries reqs)" "cover (range_new a e) \<subseteq> cover q"
  show ?thesis
    using take_block [OF assms(1) A(1,3,4,5,7,2)] A(6-9) by auto
qed

lemma allocate_nonzero: "ranges_allocate m sz al = (Some a, m') \<Longrightarrow> 0 < unat sz"
  by (auto simp: ranges_allocate_def unat_gt_0 split: if_splits)

lemma allocate_length:
  assumes "ranges_inv m" "ranges_allocate m sz al = (Some a, m')"
  shows "length (ranges m') = length (ranges m)"
  by (rule allocate_block [OF assms])
    (use trim_room [OF assms(1)] in \<open>auto simp: range_new_def\<close>)

lemma free_restores:
  assumes inv: "ranges_inv m" and al: "ranges_allocate m sz al = (Some a, m')"
    and room: "used m < length (ranges m)"
  shows "covers (ranges_insert m' (range_new a (a + (sz - 1)))) = covers m"
proof (rule allocate_block [OF inv al])
  fix i e
  assume A: "sz \<noteq> 0" "i < used m" "m' = ranges_trim_remove m i (range_new a e)"
    "valid_range (range_new a e)" "rstart (ranges m ! i) \<le> a" "e \<le> rend (ranges m ! i)"
    "unat e = unat a + unat sz - 1" "cover (range_new a e) = {unat a..<unat a + unat sz}"
  note S = allocate_sound [OF inv al]
  have pos: "0 < unat sz" using A(1) by (simp add: unat_gt_0)
  have "unat a + unat (sz - 1) = unat e" using A(1,7) pos by (simp add: unat_size_minus_one)
  then have e: "a + (sz - 1) = e"
    by (metis unat_add_lem unsigned_less unsigned_word_eqI)
  have "used m' < length (ranges m') \<or> (\<exists>x \<in> set (entries m'). touches (range_new a e) x)"
    using trim_room [OF inv A(2,4)] A(3,5,6) room by (auto simp: range_new_def)
  then have "covers (ranges_insert m' (range_new a e)) = covers m' \<union> cover (range_new a e)"
    using covers_insert [of m' "range_new a e"] S A(4) by (auto simp: ranges_inv_def)
  with S A(8) room e show ?thesis by auto
qed

lemma covers_less: "x \<in> covers m \<Longrightarrow> x < 2 ^ 64"
  using unat_u64_less by (fastforce simp: covers_def cover_def intro: le_less_trans)

lemma block_end:
  assumes "{unat a..<unat a + unat sz} \<subseteq> covers m" "0 < unat sz"
  shows "unat a + unat sz \<le> 2 ^ 64"
proof -
  have "unat a + unat sz - 1 \<in> covers m" using assms by auto
  from covers_less [OF this] show ?thesis by linarith
qed

text \<open>A block of \<open>sz\<close> bytes, as the callers of \<open>insert\<close> write the range they give back.\<close>

lemma cover_block:
  assumes "0 < unat sz" "unat a + unat sz \<le> 2 ^ 64"
  shows "valid_range (range_new a (a + (sz - 1))) \<and>
    cover (range_new a (a + (sz - 1))) = {unat a..<unat a + unat sz}"
proof -
  have "sz \<noteq> 0" using assms(1) by auto
  then have "unat (a + (sz - 1)) = unat a + unat sz - 1"
    using assms by (simp add: unat_add_lem [THEN iffD1] unat_size_minus_one)
  then show ?thesis
    using assms by (auto simp: valid_range_def cover_def range_new_def word_le_nat_alt)
qed

lemma covers_insert_subset:
  "ranges_inv m \<Longrightarrow> valid_range r \<Longrightarrow> covers (ranges_insert m r) \<subseteq> covers m \<union> cover r"
  by (auto simp: covers_insert ranges_inv_def split: if_splits)

lemma ranges_new_props [simp]:
  "ranges_inv (ranges_new n)" "covers (ranges_new n) = {}" "used (ranges_new n) = 0"
  "length (ranges (ranges_new n)) = n"
  by (simp_all add: ranges_new_def ranges_inv_def merge_wf_def entries_def separated_def covers_def)

section \<open>The range allocator meets the allocator contract\<close>

text \<open>
  A request is a size and an alignment. \<open>ranges_ok\<close> relates the free ranges to the live blocks:
  they are disjoint from each other and from the free ranges, and none wraps.
\<close>

type_synonym ranges_req = "u64 \<times> alignment"

definition ranges_alloc :: "memory_ranges \<Rightarrow> ranges_req \<Rightarrow> (nat \<times> memory_ranges) option" where
  "ranges_alloc m r =
     (case ranges_allocate m (fst r) (snd r) of
        (None, _) \<Rightarrow> None | (Some a, m') \<Rightarrow> Some (unat a, m'))"

definition ranges_dealloc :: "memory_ranges \<Rightarrow> nat \<Rightarrow> ranges_req \<Rightarrow> memory_ranges" where
  "ranges_dealloc m a r = ranges_insert m (range_new (of_nat a) (of_nat a + (fst r - 1)))"

definition ranges_bytes :: "ranges_req \<Rightarrow> nat" where
  "ranges_bytes r = unat (fst r)"

definition ranges_align :: "ranges_req \<Rightarrow> nat" where
  "ranges_align r = 2 ^ align_shift (snd r)"

definition ranges_ok :: "memory_ranges \<Rightarrow> (nat \<times> ranges_req) set \<Rightarrow> bool" where
  "ranges_ok m L \<longleftrightarrow> ranges_inv m \<and> blocks_disjoint ranges_bytes L \<and>
     (\<forall>b \<in> L. block ranges_bytes b \<inter> covers m = {} \<and> 0 < ranges_bytes (snd b) \<and>
        fst b + ranges_bytes (snd b) \<le> 2 ^ 64 \<and> ranges_align (snd b) dvd fst b)"

lemma ranges_alloc_Some:
  assumes "ranges_inv m" "ranges_alloc m r = Some (a, m')"
  shows "ranges_inv m' \<and> ranges_align r dvd a \<and> block ranges_bytes (a, r) \<subseteq> covers m \<and>
    covers m' \<subseteq> covers m - block ranges_bytes (a, r) \<and> 0 < ranges_bytes r \<and>
    a + ranges_bytes r \<le> 2 ^ 64"
proof -
  obtain w where w: "ranges_allocate m (fst r) (snd r) = (Some w, m')" "a = unat w"
    using assms(2) by (auto simp: ranges_alloc_def split: prod.splits option.splits)
  from allocate_sound [OF assms(1) w(1)] allocate_nonzero [OF w(1)] w(2)
    block_end [of w "fst r" m]
  show ?thesis
    by (simp add: block_def ranges_bytes_def ranges_align_def is_aligned_iff_dvd)
qed

lemma ranges_dealloc_props:
  assumes "ranges_inv m" "0 < ranges_bytes r" "a + ranges_bytes r \<le> 2 ^ 64"
  shows "ranges_inv (ranges_dealloc m a r) \<and>
    covers (ranges_dealloc m a r) \<subseteq> covers m \<union> block ranges_bytes (a, r)"
proof -
  have "a < 2 ^ 64" using assms(2,3) by simp
  then have a: "unat (of_nat a :: u64) = a" by (simp add: unat_of_nat)
  have "valid_range (range_new (of_nat a) (of_nat a + (fst r - 1)))"
    "cover (range_new (of_nat a) (of_nat a + (fst r - 1))) = block ranges_bytes (a, r)"
    using cover_block [of "fst r" "of_nat a"] assms(2,3) a by (simp_all add: ranges_bytes_def block_def)
  with covers_insert_subset [OF assms(1)] insert_inv [OF assms(1)] show ?thesis
    by (metis ranges_dealloc_def)
qed

interpretation range_allocator: allocator ranges_alloc ranges_dealloc ranges_bytes ranges_align ranges_ok
proof unfold_locales
  fix m L r a m'
  assume ok: "ranges_ok m L" and al: "ranges_alloc m r = Some (a, m')"
  have inv: "ranges_inv m" using ok by (simp add: ranges_ok_def)
  note A = ranges_alloc_Some [OF inv al]
  have new: "block ranges_bytes b \<inter> block ranges_bytes (a, r) = {}" if "b \<in> L" for b
    using that ok A by (fastforce simp: ranges_ok_def)
  moreover have "a \<in> block ranges_bytes (a, r)" using A by (simp add: block_def)
  ultimately have "(a, r) \<notin> L" by blast
  moreover have "blocks_disjoint ranges_bytes (insert (a, r) L)"
    using ok new by (auto simp: ranges_ok_def blocks_disjoint_def)
  ultimately show "ranges_ok m' (insert (a, r) L) \<and> (a, r) \<notin> L"
    using ok A unfolding ranges_ok_def by fastforce
next
  fix m L a and r :: ranges_req
  assume ok: "ranges_ok m L" and l: "(a, r) \<in> L"
  then have "ranges_inv m" "0 < ranges_bytes r" "a + ranges_bytes r \<le> 2 ^ 64"
    by (auto simp: ranges_ok_def)
  note D = ranges_dealloc_props [OF this]
  have "block ranges_bytes b \<inter> covers (ranges_dealloc m a r) = {}" if "b \<in> L - {(a, r)}" for b
  proof -
    have "block ranges_bytes b \<inter> covers m = {}" "block ranges_bytes b \<inter> block ranges_bytes (a, r) = {}"
      using that ok l by (auto simp: ranges_ok_def blocks_disjoint_def)
    with D show ?thesis by blast
  qed
  with D ok show "ranges_ok (ranges_dealloc m a r) (L - {(a, r)})"
    by (auto simp: ranges_ok_def blocks_disjoint_def)
qed (auto simp: ranges_ok_def)

lemma ranges_ok_empty [simp]: "ranges_ok m {} = ranges_inv m"
  by (simp add: ranges_ok_def blocks_disjoint_def)

section \<open>Properties\<close>

definition demo_ranges :: memory_ranges where
  "demo_ranges =
     ranges_insert (ranges_insert (ranges_new 4) (range_new 0x1003 0x1FFF)) (range_new 0x3000 0x37FF)"

lemma demo_ranges_eval:
  "demo_ranges = \<lparr>ranges = [range_new 0x1003 0x1FFF, range_new 0x3000 0x37FF, range_new 0 0,
     range_new 0 0], used = 2\<rparr>" "ranges_inv demo_ranges"
  by code_simp+

text \<open>
  Inserting a range keeps the invariant of the array (ranges that are valid, pairwise
  neither overlapping nor adjacent) and adds exactly the addresses of the range, whenever the
  array has a free slot or the range merges with one that is there; a full array drops it.
\<close>

theorem ranges_insert_covers:
  assumes "ranges_inv m"
  shows "ranges_inv (ranges_insert m r) \<and> covers (ranges_insert m r) =
    (if used m < length (ranges m) \<or> (\<exists>e \<in> set (entries m). touches r e)
     then covers m \<union> cover r else covers m)"
proof (cases "valid_range r")
  case True
  with assms insert_inv covers_insert show ?thesis by (simp add: ranges_inv_def)
next
  case False
  then have "ranges_insert m r = m" "cover r = {}"
    by (simp_all add: ranges_insert_def cover_empty_iff, simp add: valid_range_def)
  with assms show ?thesis by simp
qed

theorem ranges_insert_covers_witness:
  "covers (ranges_insert demo_ranges (range_new 0x2000 0x2FFF))
     = covers demo_ranges \<union> cover (range_new 0x2000 0x2FFF)
   \<and> used (ranges_insert demo_ranges (range_new 0x2000 0x2FFF)) = 1"
proof -
  have "used demo_ranges < length (ranges demo_ranges)" by code_simp
  moreover have "used (ranges_insert demo_ranges (range_new 0x2000 0x2FFF)) = 1" by code_simp
  ultimately show ?thesis
    using ranges_insert_covers [OF demo_ranges_eval(2), of "range_new 0x2000 0x2FFF"] by simp
qed

text \<open>
  C38. A successful allocation returns an address with the requested alignment whose whole block
  was free, takes that block out of the free ranges (exactly it, when the array has a slot for a
  split) and keeps the invariant. It is a best fit: no other candidate of the scan wastes less.
\<close>

theorem ranges_allocate_sound:
  assumes "ranges_inv m" and "ranges_allocate m sz al = (Some a, m')"
  shows "ranges_inv m' \<and> is_aligned al a \<and> {unat a..<unat a + unat sz} \<subseteq> covers m
    \<and> covers m' \<subseteq> covers m - {unat a..<unat a + unat sz}
    \<and> (used m < length (ranges m) \<longrightarrow> covers m' = covers m - {unat a..<unat a + unat sz})
    \<and> (\<exists>i < used m. \<exists>e w. allocate_fit sz al (ranges m ! i) = Some (a, e, w)
         \<and> (\<forall>r \<in> set (entries m). \<forall>s' e' w'. allocate_fit sz al r = Some (s', e', w') \<longrightarrow> w \<le> w'))"
  using allocate_sound [OF assms] allocate_result [OF assms] by blast

theorem ranges_allocate_sound_witness:
  "is_aligned Align4K 0x3000
   \<and> covers (snd (ranges_allocate demo_ranges 0x100 Align4K)) = covers demo_ranges - {0x3000..<0x3100}"
proof -
  have "fst (ranges_allocate demo_ranges 0x100 Align4K) = Some 0x3000"
    "used demo_ranges < length (ranges demo_ranges)" by code_simp+
  then show ?thesis
    using ranges_allocate_sound [OF demo_ranges_eval(2), of "0x100" Align4K "0x3000"
        "snd (ranges_allocate demo_ranges 0x100 Align4K)"]
    by (simp add: prod_eq_iff)
qed

text \<open>
  An allocation fails only when it has to: the state is unchanged, and either the size is
  zero or no aligned block of that size lies in the free addresses, however they are split into
  ranges.
\<close>

theorem ranges_allocate_none:
  assumes inv: "ranges_inv m" and al: "ranges_allocate m sz al = (None, m')"
  shows "m' = m \<and> (sz = 0 \<or> \<not> (\<exists>a. 2 ^ align_shift al dvd a \<and> {a..<a + unat sz} \<subseteq> covers m))"
proof (cases "sz = 0")
  case False
  then have sc: "allocate_scan sz al 0 (entries m) None = None" and m': "m' = m"
    using al by (auto simp: ranges_allocate_def ranges_take_def split: option.splits)
  have pos: "0 < unat sz" using False by (simp add: unat_gt_0)
  have none: "allocate_fit sz al r = None" if "r \<in> set (entries m)" for r
  proof (rule ccontr)
    assume "allocate_fit sz al r \<noteq> None"
    then obtain c where c: "allocate_fit sz al r = Some c" by blast
    from that obtain j where "j < length (entries m)" "r = entries m ! j" by (metis in_set_conv_nth)
    with c have "(j, Some c) \<in> set (map (\<lambda>(j, r). (j, allocate_fit sz al r)) (enumerate 0 (entries m)))"
      using mem_enumerate_map [of j "entries m" "allocate_fit sz al"] by simp
    with sc show False using pick_best_None by (metis allocate_scan_pick)
  qed
  have "False" if a: "2 ^ align_shift al dvd a" "{a..<a + unat sz} \<subseteq> covers m" for a
  proof -
    have "{a..<a + unat sz} = {a..a + unat sz - 1}" using pos by auto
    with a(2) have "{a..a + unat sz - 1} \<subseteq> covers m" by simp
    moreover have "a \<le> a + unat sz - 1" using pos by simp
    ultimately obtain r where r: "r \<in> set (entries m)" "{a..a + unat sz - 1} \<subseteq> cover r"
      using interval_in_one [OF inv] by blast
    have "lo r \<le> a \<and> a + unat sz - 1 \<le> hi r" using r(2) \<open>a \<le> a + unat sz - 1\<close> by (simp add: cover_def)
    with allocate_fit_None [OF False none [OF r(1)] a(1)] show False by simp
  qed
  with m' show ?thesis by blast
qed (use al in \<open>simp add: ranges_allocate_def\<close>)

theorem ranges_allocate_none_witness:
  "\<not> (\<exists>a. 2 ^ align_shift Align4K dvd a \<and> {a..<a + unat (0x900 :: u64)} \<subseteq> covers demo_ranges)"
proof -
  have "fst (ranges_allocate demo_ranges 0x900 Align4K) = None" by code_simp
  then show ?thesis
    using ranges_allocate_none [OF demo_ranges_eval(2), of "0x900" Align4K
        "snd (ranges_allocate demo_ranges 0x900 Align4K)"]
    by (simp add: prod_eq_iff)
qed

text \<open>
  Giving back the block of an allocation, as the frame and page allocators do, restores the
  free addresses exactly, when the array had a free slot before the allocation.
\<close>

theorem ranges_free_restores:
  assumes inv: "ranges_inv m" and al: "ranges_allocate m sz al = (Some a, m')"
    and room: "used m < length (ranges m)"
  shows "covers (ranges_insert m' (range_new a (a + (sz - 1)))) = covers m"
  by (rule free_restores [OF assms])

theorem ranges_free_restores_witness:
  "covers (ranges_insert (snd (ranges_allocate demo_ranges 0x100 Align4K)) (range_new 0x3000 0x30FF))
     = covers demo_ranges"
proof -
  have "fst (ranges_allocate demo_ranges 0x100 Align4K) = Some 0x3000"
    "used demo_ranges < length (ranges demo_ranges)" by code_simp+
  then show ?thesis
    using ranges_free_restores [OF demo_ranges_eval(2), of "0x100" Align4K "0x3000"
        "snd (ranges_allocate demo_ranges 0x100 Align4K)"]
    by (simp add: prod_eq_iff)
qed

text \<open>
  An allocation restricted to required ranges returns an aligned block that was free and lies
  inside one of the required ranges, and removes it from the free ranges.
\<close>

theorem ranges_allocate_req_sound:
  assumes "ranges_inv m" and "ranges_allocate_req m sz al reqs = (Some a, m')"
  shows "ranges_inv m' \<and> is_aligned al a \<and> {unat a..<unat a + unat sz} \<subseteq> covers m
    \<and> (\<exists>q \<in> set (entries reqs). {unat a..<unat a + unat sz} \<subseteq> cover q)
    \<and> covers m' \<subseteq> covers m - {unat a..<unat a + unat sz}
    \<and> (used m < length (ranges m) \<longrightarrow> covers m' = covers m - {unat a..<unat a + unat sz})"
  by (rule allocate_req_sound [OF assms])

theorem ranges_allocate_req_sound_witness:
  "\<exists>q \<in> set (entries demo_ranges). {0x3000..<0x3100} \<subseteq> cover q"
proof -
  have "fst (ranges_allocate_req (ranges_insert (ranges_new 2) (range_new 0x2001 0x3200)) 0x100 Align4K demo_ranges)
      = Some 0x3000"
    "ranges_inv (ranges_insert (ranges_new 2) (range_new 0x2001 0x3200))" by code_simp+
  then show ?thesis
    using ranges_allocate_req_sound [of "ranges_insert (ranges_new 2) (range_new 0x2001 0x3200)"
        "0x100" Align4K demo_ranges "0x3000"
        "snd (ranges_allocate_req (ranges_insert (ranges_new 2) (range_new 0x2001 0x3200)) 0x100 Align4K demo_ranges)"]
    by (simp add: prod_eq_iff)
qed

text \<open>
  The intersection of two sets of ranges never contains an address outside either set, and
  is the union of the overlaps of more than one address when the array is large enough; an
  overlap of a single address is left out.
\<close>

theorem ranges_intersection_covers:
  assumes "ranges_inv m" "ranges_inv other"
  shows "ranges_inv (ranges_intersection m other)
    \<and> covers (ranges_intersection m other) \<subseteq> covers m \<inter> covers other
    \<and> (used m * used other \<le> length (ranges m) \<longrightarrow>
        covers (ranges_intersection m other) =
          (\<Union>r \<in> set (entries m). \<Union>q \<in> set (entries other).
             if rstart r < rend q \<and> rstart q < rend r then cover r \<inter> cover q else {}))"
proof -
  let ?new = "ranges_new (length (ranges m))"
  have new: "ranges_inv ?new" "covers ?new = {}" "used ?new = 0" "length (ranges ?new) = length (ranges m)"
    by (simp_all add: ranges_new_def ranges_inv_def merge_wf_def entries_def separated_def covers_def)
  have ov: "overlap_set r q = (if rstart r < rend q \<and> rstart q < rend r then cover r \<inter> cover q else {})" for r q
    by (auto simp: overlap_set_def overlaps_None not_le split: option.splits)
      (auto simp: range_overlaps_def split: if_splits)
  have "(\<Union>r \<in> set (entries m). \<Union>q \<in> set (entries other). overlap_set r q) \<subseteq> covers m \<inter> covers other"
    by (auto simp: ov covers_def split: if_splits)
  moreover have "length (entries m) = used m" "length (entries other) = used other"
    using assms by (simp_all add: ranges_inv_def merge_wf_def)
  moreover have "\<forall>r \<in> set (entries m). valid_range r" "\<forall>r \<in> set (entries other). valid_range r"
    using assms by (simp_all add: ranges_inv_def merge_wf_def)
  ultimately show ?thesis
    using intersect_outer_props [OF new(1), of "entries m" "entries other"] new
    unfolding ranges_intersection_def ov by simp (meson order_trans)
qed

theorem ranges_intersection_covers_witness:
  "covers (ranges_intersection demo_ranges (ranges_insert (ranges_new 4) (range_new 0x1800 0x3100)))
     \<subseteq> covers demo_ranges
   \<and> used (ranges_intersection demo_ranges (ranges_insert (ranges_new 4) (range_new 0x1800 0x3100))) = 2"
proof -
  have "ranges_inv (ranges_insert (ranges_new 4) (range_new 0x1800 0x3100))"
    "used (ranges_intersection demo_ranges (ranges_insert (ranges_new 4) (range_new 0x1800 0x3100))) = 2"
    by code_simp+
  then show ?thesis
    using ranges_intersection_covers [OF demo_ranges_eval(2),
        of "ranges_insert (ranges_new 4) (range_new 0x1800 0x3100)"] by simp
qed

text \<open>
  C37. Whatever sequence of allocations and of releases of live blocks a client performs on a
  consistent set of ranges, its live blocks are pairwise disjoint and each has the alignment it
  was requested with.
\<close>

theorem ranges_client_safe:
  assumes "ranges_inv m" "client_run ranges_alloc ranges_dealloc ops (m, []) = (m', live)"
  shows "distinct live \<and> blocks_disjoint ranges_bytes (set live)
    \<and> (\<forall>(a, r) \<in> set live. ranges_align r dvd a)"
  using range_allocator.run_safe [of m ops m' live] assms by simp

theorem ranges_client_safe_witness:
  "blocks_disjoint ranges_bytes (set (snd (client_run ranges_alloc ranges_dealloc
      [Allocate (0x100, Align4K), Allocate (0x40, Align64), Deallocate 1, Allocate (0x80, Align128)]
      (demo_ranges, []))))"
  using ranges_client_safe [OF demo_ranges_eval(2),
      of "[Allocate (0x100, Align4K), Allocate (0x40, Align64), Deallocate 1, Allocate (0x80, Align128)]"]
  by (metis prod.collapse)

end
