(* ===== verification/Paging.thy ===== *)
theory Paging
  imports Ranges
begin

text \<open>
  Pages and frames: beskar-core/src/arch/paging.rs, paging/page.rs and paging/frame.rs.
  The type parameter \<open>S: MemSize\<close> is a value of \<open>mem_size\<close>, an argument of the operations;
  \<open>Page<S>\<close> and \<open>Frame<S>\<close> are their start addresses (the other field is \<open>PhantomData\<close>).
\<close>

unbundle bit_operations_syntax

datatype mem_size = M4KiB | M2MiB | M1GiB

primrec SIZE :: "mem_size \<Rightarrow> u64" where
  "SIZE M4KiB = 4096"
| "SIZE M2MiB = 4096 * 512"
| "SIZE M1GiB = 4096 * 512 * 512"

primrec ALIGNMENT :: "mem_size \<Rightarrow> alignment" where
  "ALIGNMENT M4KiB = Align4K"
| "ALIGNMENT M2MiB = Align2M"
| "ALIGNMENT M1GiB = Align1G"

section \<open>Pages\<close>

datatype page = Page (page_start: virt_addr)

definition page_containing :: "mem_size \<Rightarrow> virt_addr \<Rightarrow> page" where
  "page_containing S v = Page (virt_aligned_down v (ALIGNMENT S))"

definition page_size :: "mem_size \<Rightarrow> page \<Rightarrow> u64" where
  "page_size S p = SIZE S"

definition page_p4_index :: "page \<Rightarrow> u16" where
  "page_p4_index p = p4_index (page_start p)"

definition page_p3_index :: "page \<Rightarrow> u16" where
  "page_p3_index p = p3_index (page_start p)"

definition page_p2_index :: "page \<Rightarrow> u16" where
  "page_p2_index p = p2_index (page_start p)"

definition page_p1_index :: "page \<Rightarrow> u16" where
  "page_p1_index p = p1_index (page_start p)"

definition page_from_p4p3 :: "u16 \<Rightarrow> u16 \<Rightarrow> page" where
  "page_from_p4p3 p4 p3 = Page (virt_new_extend (push_bit 39 (ucast p4) OR push_bit 30 (ucast p3)))"

definition page_from_p4p3p2 :: "u16 \<Rightarrow> u16 \<Rightarrow> u16 \<Rightarrow> page" where
  "page_from_p4p3p2 p4 p3 p2 =
     Page (virt_new_extend (push_bit 39 (ucast p4) OR push_bit 30 (ucast p3) OR push_bit 21 (ucast p2)))"

definition page_from_p4p3p2p1 :: "u16 \<Rightarrow> u16 \<Rightarrow> u16 \<Rightarrow> u16 \<Rightarrow> page" where
  "page_from_p4p3p2p1 p4 p3 p2 p1 =
     Page (virt_new_extend (push_bit 39 (ucast p4) OR push_bit 30 (ucast p3) OR push_bit 21 (ucast p2)
             OR push_bit 12 (ucast p1)))"

definition page_add :: "mem_size \<Rightarrow> page \<Rightarrow> u64 \<Rightarrow> page" where
  "page_add S p rhs = page_containing S (virt_add (page_start p) (rhs * SIZE S))"

definition page_sub :: "mem_size \<Rightarrow> page \<Rightarrow> u64 \<Rightarrow> page" where
  "page_sub S p rhs = page_containing S (virt_sub (page_start p) (rhs * SIZE S))"

definition page_diff :: "mem_size \<Rightarrow> page \<Rightarrow> page \<Rightarrow> u64" where
  "page_diff S p q = virt_diff (page_start p) (page_start q) div SIZE S"

definition page_le :: "page \<Rightarrow> page \<Rightarrow> bool" where
  "page_le p q \<longleftrightarrow> page_start p \<le> page_start q"

record page_range =
  pr_start :: page
  pr_end :: page

definition page_range_inclusive :: "page \<Rightarrow> page \<Rightarrow> page_range" where
  "page_range_inclusive s e = \<lparr>pr_start = s, pr_end = e\<rparr>"

definition page_range_is_empty :: "page_range \<Rightarrow> bool" where
  "page_range_is_empty r \<longleftrightarrow> \<not> page_le (pr_start r) (pr_end r)"

definition page_range_len :: "mem_size \<Rightarrow> page_range \<Rightarrow> u64" where
  "page_range_len S r = (if page_range_is_empty r then 0 else page_diff S (pr_end r) (pr_start r) + 1)"

definition page_range_size :: "mem_size \<Rightarrow> page_range \<Rightarrow> u64" where
  "page_range_size S r = SIZE S * page_range_len S r"

definition page_range_contains :: "page_range \<Rightarrow> page \<Rightarrow> bool" where
  "page_range_contains r p \<longleftrightarrow> page_le (pr_start r) p \<and> page_le p (pr_end r)"

definition page_range_overlaps :: "page_range \<Rightarrow> page_range \<Rightarrow> bool" where
  "page_range_overlaps r q \<longleftrightarrow>
     \<not> (\<not> page_le (pr_start q) (pr_end r) \<or> \<not> page_le (pr_start r) (pr_end q))"

text \<open>
  \<open>PageIterator\<close> has the two fields of the range it comes from; a call of \<open>next\<close> or \<open>next_back\<close>
  returns the item and the iterator after it.
\<close>

definition page_iter_next :: "mem_size \<Rightarrow> page_range \<Rightarrow> (page \<times> page_range) option" where
  "page_iter_next S it =
     (if page_le (pr_start it) (pr_end it)
      then Some (pr_start it, it\<lparr>pr_start := page_add S (pr_start it) 1\<rparr>)
      else None)"

definition page_iter_next_back :: "mem_size \<Rightarrow> page_range \<Rightarrow> (page \<times> page_range) option" where
  "page_iter_next_back S it =
     (if page_le (pr_start it) (pr_end it)
      then Some (pr_end it, it\<lparr>pr_end := page_sub S (pr_end it) 1\<rparr>)
      else None)"

section \<open>Frames\<close>

datatype frame = Frame (frame_start: phys_addr)

definition frame_containing :: "mem_size \<Rightarrow> phys_addr \<Rightarrow> frame" where
  "frame_containing S a = Frame (phys_aligned_down a (ALIGNMENT S))"

definition frame_end_address :: "mem_size \<Rightarrow> frame \<Rightarrow> phys_addr" where
  "frame_end_address S f = phys_add (frame_start f) (SIZE S - 1)"

definition frame_size :: "mem_size \<Rightarrow> frame \<Rightarrow> u64" where
  "frame_size S f = SIZE S"

definition frame_add :: "mem_size \<Rightarrow> frame \<Rightarrow> u64 \<Rightarrow> frame" where
  "frame_add S f rhs = frame_containing S (phys_add (frame_start f) (rhs * SIZE S))"

definition frame_sub :: "mem_size \<Rightarrow> frame \<Rightarrow> u64 \<Rightarrow> frame" where
  "frame_sub S f rhs = frame_containing S (phys_sub (frame_start f) (rhs * SIZE S))"

definition frame_diff :: "mem_size \<Rightarrow> frame \<Rightarrow> frame \<Rightarrow> u64" where
  "frame_diff S f g = phys_diff (frame_start f) (frame_start g) div SIZE S"

definition frame_le :: "frame \<Rightarrow> frame \<Rightarrow> bool" where
  "frame_le f g \<longleftrightarrow> frame_start f \<le> frame_start g"

record frame_range =
  fr_start :: frame
  fr_end :: frame

definition frame_range_inclusive :: "frame \<Rightarrow> frame \<Rightarrow> frame_range" where
  "frame_range_inclusive s e = \<lparr>fr_start = s, fr_end = e\<rparr>"

definition frame_range_is_empty :: "frame_range \<Rightarrow> bool" where
  "frame_range_is_empty r \<longleftrightarrow> \<not> frame_le (fr_start r) (fr_end r)"

definition frame_range_len :: "mem_size \<Rightarrow> frame_range \<Rightarrow> u64" where
  "frame_range_len S r =
     (if frame_range_is_empty r then 0 else frame_diff S (fr_end r) (fr_start r) + 1)"

definition frame_range_size :: "mem_size \<Rightarrow> frame_range \<Rightarrow> u64" where
  "frame_range_size S r = SIZE S * frame_range_len S r"

definition frame_range_contains :: "frame_range \<Rightarrow> frame \<Rightarrow> bool" where
  "frame_range_contains r f \<longleftrightarrow> frame_le (fr_start r) f \<and> frame_le f (fr_end r)"

definition frame_range_overlaps :: "frame_range \<Rightarrow> frame_range \<Rightarrow> bool" where
  "frame_range_overlaps r q \<longleftrightarrow>
     \<not> (\<not> frame_le (fr_start q) (fr_end r) \<or> \<not> frame_le (fr_start r) (fr_end q))"

definition frame_iter_next :: "mem_size \<Rightarrow> frame_range \<Rightarrow> (frame \<times> frame_range) option" where
  "frame_iter_next S it =
     (if frame_le (fr_start it) (fr_end it)
      then Some (fr_start it, it\<lparr>fr_start := frame_add S (fr_start it) 1\<rparr>)
      else None)"

definition frame_iter_next_back :: "mem_size \<Rightarrow> frame_range \<Rightarrow> (frame \<times> frame_range) option" where
  "frame_iter_next_back S it =
     (if frame_le (fr_start it) (fr_end it)
      then Some (fr_end it,
        if phys_as_u64 (frame_start (fr_end it)) = 0
        then it\<lparr>fr_start := frame_add S (fr_end it) 1\<rparr>
        else it\<lparr>fr_end := frame_sub S (fr_end it) 1\<rparr>)
      else None)"

text \<open>
  A \<open>for\<close> loop over an iterator, with a bound on the number of calls of \<open>next\<close>: the items, and
  whether the iterator was exhausted within the bound.
\<close>

fun iter_collect :: "('i \<Rightarrow> ('a \<times> 'i) option) \<Rightarrow> nat \<Rightarrow> 'i \<Rightarrow> 'a list \<times> bool" where
  "iter_collect nxt 0 it = ([], False)"
| "iter_collect nxt (Suc n) it =
     (case nxt it of
        None \<Rightarrow> ([], True)
      | Some (x, it') \<Rightarrow> (case iter_collect nxt n it' of (xs, done) \<Rightarrow> (x # xs, done)))"

section \<open>Page and frame numbers\<close>

abbreviation size_bits :: "mem_size \<Rightarrow> nat" where
  "size_bits S \<equiv> align_shift (ALIGNMENT S)"

lemma size_bits_le: "size_bits S \<le> 30"
  by (cases S) simp_all

lemma unat_SIZE: "unat (SIZE S) = 2 ^ size_bits S"
  by (cases S) simp_all

text \<open>
  A canonical address read modulo 2^48 numbers the lower half first and the upper half right
  after it, in the order of the addresses.
\<close>

definition page_valid :: "mem_size \<Rightarrow> page \<Rightarrow> bool" where
  "page_valid S p \<longleftrightarrow> canonical (page_start p) \<and> virt_is_aligned (page_start p) (ALIGNMENT S)"

definition page_num :: "mem_size \<Rightarrow> page \<Rightarrow> nat" where
  "page_num S p = unat (virt_as_u64 (page_start p)) mod 2 ^ 48 div 2 ^ size_bits S"

definition frame_valid :: "mem_size \<Rightarrow> frame \<Rightarrow> bool" where
  "frame_valid S f \<longleftrightarrow> phys_valid (frame_start f) \<and> phys_is_aligned (frame_start f) (ALIGNMENT S)"

definition frame_num :: "mem_size \<Rightarrow> frame \<Rightarrow> nat" where
  "frame_num S f = unat (phys_as_u64 (frame_start f)) div 2 ^ size_bits S"

lemma unat_canonicalize_mod: "unat (canonicalize x) mod 2 ^ 48 = unat x mod 2 ^ 48"
proof -
  have "take_bit 48 (canonicalize x) = take_bit 48 x"
    by (rule bit_eqI) (auto simp: bit_take_bit_iff bit_canonicalize)
  then show ?thesis by (metis take_bit_eq_mod unsigned_take_bit_eq)
qed

lemma dvd_mod_pow: "k \<le> m \<Longrightarrow> 2 ^ k dvd (x mod 2 ^ m) \<longleftrightarrow> 2 ^ k dvd x" for x :: nat
  by (simp add: dvd_mod_iff le_imp_power_dvd)

lemma mod_pow_mod_pow: "k \<le> m \<Longrightarrow> (x mod 2 ^ m) mod 2 ^ k = x mod 2 ^ k" for x :: nat
  by (simp add: mod_mod_cancel le_imp_power_dvd)

lemma align_down_id: "is_aligned a x \<Longrightarrow> align_down a x = x"
  by (simp add: is_aligned_iff_dvd word_unat_eq_iff unat_align_down)

lemma is_aligned_align_down [simp]: "is_aligned a (align_down a x)"
  by (simp add: is_aligned_iff_dvd unat_align_down)

lemma is_aligned_canonicalize:
  "is_aligned (ALIGNMENT S) (canonicalize x) \<longleftrightarrow> is_aligned (ALIGNMENT S) x"
proof -
  have k: "size_bits S \<le> 48" using size_bits_le [of S] by simp
  show ?thesis
    using dvd_mod_pow [OF k, of "unat (canonicalize x)"] dvd_mod_pow [OF k, of "unat x"]
    by (simp only: is_aligned_iff_dvd unat_canonicalize_mod)
qed

lemma page_valid_containing: "canonical v \<Longrightarrow> page_valid S (page_containing S v)"
  using canonical_aligned_down [of v "ALIGNMENT S"]
  by (simp add: page_valid_def page_containing_def virt_is_aligned_def virt_aligned_down_def)

lemma frame_valid_containing: "phys_valid a \<Longrightarrow> frame_valid S (frame_containing S a)"
  using le_less_trans [OF times_div_less_eq_dividend [of "2 ^ size_bits S" "unat (phys_as_u64 a)"]]
  by (simp add: frame_valid_def frame_containing_def phys_valid_iff phys_is_aligned_def
      phys_aligned_down_def unat_align_down)

lemma page_containing_id: "page_valid S (Page v) \<Longrightarrow> page_containing S v = Page v"
  by (simp add: page_valid_def page_containing_def virt_is_aligned_def virt_aligned_down_def
      align_down_id)

lemma frame_containing_id: "frame_valid S (Frame a) \<Longrightarrow> frame_containing S a = Frame a"
  by (simp add: frame_valid_def frame_containing_def phys_is_aligned_def phys_aligned_down_def
      align_down_id)

lemma page_num_less: "page_num S p < 2 ^ (48 - size_bits S)"
proof -
  have "(2 ^ 48 :: nat) = 2 ^ (48 - size_bits S) * 2 ^ size_bits S"
    using size_bits_le [of S] by (simp flip: power_add)
  then show ?thesis
    by (simp add: page_num_def less_mult_imp_div_less)
qed

lemma frame_num_less: "frame_valid S f \<Longrightarrow> frame_num S f < 2 ^ (52 - size_bits S)"
proof -
  assume "frame_valid S f"
  then have "unat (phys_as_u64 (frame_start f)) < 2 ^ 52" by (simp add: frame_valid_def phys_valid_iff)
  also have "(2 ^ 52 :: nat) = 2 ^ (52 - size_bits S) * 2 ^ size_bits S"
    using size_bits_le [of S] by (simp flip: power_add)
  finally show ?thesis by (simp add: frame_num_def less_mult_imp_div_less)
qed

text \<open>Adding \<open>n\<close> units to an aligned word, read modulo 2^m.\<close>

lemma unat_add_units:
  fixes a n u :: u64
  assumes "k \<le> m" "m \<le> 64" "2 ^ k dvd unat a" "unat u = 2 ^ k"
  shows "unat (a + n * u) mod 2 ^ m = 2 ^ k * ((unat a div 2 ^ k + unat n) mod 2 ^ (m - k))"
    (is "_ = ?rhs")
proof -
  have "(2 ^ m :: nat) dvd 2 ^ 64" using assms(2) by (rule le_imp_power_dvd)
  then have "unat (a + n * u) mod 2 ^ m = (unat a + unat n * unat u) mod 2 ^ m"
    by (simp add: unat_word_ariths mod_mod_cancel mod_simps)
  also have "\<dots> = (2 ^ k * (unat a div 2 ^ k + unat n)) mod (2 ^ k * 2 ^ (m - k))"
    using assms by (simp add: distrib_left mult.commute flip: power_add)
  also have "\<dots> = ?rhs" by (rule mod_mult_mult1)
  finally show ?thesis .
qed

lemma size_bits_small: "size_bits S \<le> 48" "size_bits S \<le> 52"
  using size_bits_le [of S] by simp_all

lemma page_add_num:
  assumes "page_valid S p"
  shows "page_valid S (page_add S p n) \<and> page_num S (page_add S p n) = (page_num S p + unat n) mod 2 ^ (48 - size_bits S)"
proof -
  let ?a = "virt_as_u64 (page_start p)" and ?k = "size_bits S"
  let ?x = "?a + n * SIZE S"
  have al: "2 ^ ?k dvd unat ?a"
    using assms by (simp add: page_valid_def virt_is_aligned_def is_aligned_iff_dvd)
  note U = unat_add_units [OF size_bits_small(1) _ al unat_SIZE, of n, simplified]
  have dvd: "2 ^ ?k dvd unat ?x"
    using U dvd_mod_pow [OF size_bits_small(1), of S "unat ?x"] by simp
  then have v: "page_valid S (Page (VirtAddr (canonicalize ?x)))"
    using is_aligned_canonicalize [of S ?x]
    by (simp add: page_valid_def canonical_def virt_is_aligned_def is_aligned_iff_dvd)
  have add: "page_add S p n = Page (VirtAddr (canonicalize ?x))"
    using page_containing_id [OF v] by (simp add: page_add_def virt_add_def virt_new_extend_def)
  have "(page_num S p + unat n) mod 2 ^ (48 - ?k) = (unat ?a div 2 ^ ?k + unat n) mod 2 ^ (48 - ?k)"
  proof -
    have "unat ?a mod 2 ^ 48 div 2 ^ ?k = unat ?a div 2 ^ ?k mod 2 ^ (48 - ?k)"
    proof -
      have "unat ?a mod 2 ^ 48 = 2 ^ ?k * (unat ?a div 2 ^ ?k) mod (2 ^ ?k * 2 ^ (48 - ?k))"
        using al size_bits_small(1) [of S] by (simp flip: power_add)
      also have "\<dots> = 2 ^ ?k * (unat ?a div 2 ^ ?k mod 2 ^ (48 - ?k))" by (rule mod_mult_mult1)
      finally show ?thesis by simp
    qed
    then show ?thesis by (simp add: page_num_def mod_simps)
  qed
  moreover have "page_num S (page_add S p n) = (unat ?a div 2 ^ ?k + unat n) mod 2 ^ (48 - ?k)"
    using U by (simp add: add page_num_def unat_canonicalize_mod [simplified])
  ultimately show ?thesis using add v by simp
qed

lemma frame_add_num:
  assumes "frame_valid S f"
  shows "frame_valid S (frame_add S f n) \<and> frame_num S (frame_add S f n) = (frame_num S f + unat n) mod 2 ^ (52 - size_bits S)"
proof -
  let ?a = "phys_as_u64 (frame_start f)" and ?k = "size_bits S"
  let ?x = "?a + n * SIZE S"
  have al: "2 ^ ?k dvd unat ?a"
    using assms by (simp add: frame_valid_def phys_is_aligned_def is_aligned_iff_dvd)
  have U: "unat (phys_as_u64 (phys_new_truncate ?x)) = 2 ^ ?k * ((unat ?a div 2 ^ ?k + unat n) mod 2 ^ (52 - ?k))"
    using unat_add_units [OF size_bits_small(2) _ al unat_SIZE, of n] by (simp add: unat_phys_new_truncate)
  then have v: "frame_valid S (Frame (phys_new_truncate ?x))"
    by (simp add: frame_valid_def phys_is_aligned_def is_aligned_iff_dvd)
  have add: "frame_add S f n = Frame (phys_new_truncate ?x)"
    using frame_containing_id [OF v] by (simp add: frame_add_def phys_add_def)
  show ?thesis using U v by (simp add: add frame_num_def)
qed

lemma canonical_lin:
  "canonical v \<Longrightarrow> unat (virt_as_u64 v) mod 2 ^ 48 =
     (if unat (virt_as_u64 v) < 2 ^ 47 then unat (virt_as_u64 v)
      else unat (virt_as_u64 v) - (2 ^ 64 - 2 ^ 48))
   \<and> (unat (virt_as_u64 v) < 2 ^ 47 \<or> 2 ^ 64 - 2 ^ 47 \<le> unat (virt_as_u64 v))"
proof -
  assume "canonical v"
  then have half: "unat (virt_as_u64 v) < 2 ^ 47 \<or> 2 ^ 64 - 2 ^ 47 \<le> unat (virt_as_u64 v)"
    by (auto simp: canonical_iff_range word_le_nat_alt)
  have "n mod 2 ^ 48 = n - (2 ^ 64 - 2 ^ 48)" if "2 ^ 64 - 2 ^ 47 \<le> n" "n < 2 ^ 64" for n :: nat
  proof -
    have "n = (n - (2 ^ 64 - 2 ^ 48)) + (2 ^ 16 - 1) * 2 ^ 48" using that by simp
    moreover have "n - (2 ^ 64 - 2 ^ 48) < 2 ^ 48" using that by simp
    ultimately show ?thesis by (metis mod_less mod_mult_self1)
  qed
  with half unat_u64_less [of "virt_as_u64 v"] show ?thesis by auto
qed

lemma page_lin_num: "page_valid S p \<Longrightarrow> unat (virt_as_u64 (page_start p)) mod 2 ^ 48 = 2 ^ size_bits S * page_num S p"
  using dvd_mod_pow [OF size_bits_small(1), of S "unat (virt_as_u64 (page_start p))"]
  by (simp add: page_valid_def page_num_def virt_is_aligned_def is_aligned_iff_dvd)

lemma frame_start_num: "frame_valid S f \<Longrightarrow> unat (phys_as_u64 (frame_start f)) = 2 ^ size_bits S * frame_num S f"
  by (simp add: frame_valid_def frame_num_def phys_is_aligned_def is_aligned_iff_dvd)

lemma page_le_num: "page_valid S p \<Longrightarrow> page_valid S q \<Longrightarrow> page_le p q \<longleftrightarrow> page_num S p \<le> page_num S q"
proof -
  assume p: "page_valid S p" and q: "page_valid S q"
  have c: "canonical (page_start p)" "canonical (page_start q)" using p q by (simp_all add: page_valid_def)
  have "page_le p q \<longleftrightarrow> unat (virt_as_u64 (page_start p)) mod 2 ^ 48 \<le> unat (virt_as_u64 (page_start q)) mod 2 ^ 48"
    using canonical_lin [OF c(1)] canonical_lin [OF c(2)]
    by (auto simp: page_le_def less_eq_virt_addr_def word_le_nat_alt)
  then show ?thesis unfolding page_lin_num [OF p] page_lin_num [OF q] by simp
qed

lemma frame_le_num: "frame_valid S f \<Longrightarrow> frame_valid S g \<Longrightarrow> frame_le f g \<longleftrightarrow> frame_num S f \<le> frame_num S g"
  by (simp add: frame_le_def less_eq_phys_addr_def word_le_nat_alt frame_start_num)

lemma page_num_inj: "page_valid S p \<Longrightarrow> page_valid S q \<Longrightarrow> page_num S p = page_num S q \<Longrightarrow> p = q"
  using page_le_num [of S p q] page_le_num [of S q p]
  by (simp add: page_le_def page.expand)

lemma frame_num_inj: "frame_valid S f \<Longrightarrow> frame_valid S g \<Longrightarrow> frame_num S f = frame_num S g \<Longrightarrow> f = g"
  using frame_le_num [of S f g] frame_le_num [of S g f]
  by (simp add: frame_le_def frame.expand)

lemma page_sub_num:
  assumes "page_valid S p" "0 < page_num S p"
  shows "page_valid S (page_sub S p 1) \<and> page_num S (page_sub S p 1) = page_num S p - 1"
proof -
  let ?a = "virt_as_u64 (page_start p)" and ?k = "size_bits S"
  let ?x = "?a - 1 * SIZE S"
  have lin: "unat ?a mod 2 ^ 48 = 2 ^ ?k * page_num S p" by (rule page_lin_num [OF assms(1)])
  have ge: "2 ^ ?k \<le> unat ?a mod 2 ^ 48" unfolding lin using assms(2) by simp
  have le: "2 ^ ?k \<le> unat ?a" using ge mod_less_eq_dividend [of "unat ?a" "2 ^ 48"] by (rule order_trans)
  have x: "unat ?x = unat ?a - 2 ^ ?k"
    using le by (simp add: unat_sub word_le_nat_alt unat_SIZE)
  have "unat ?a = unat ?x + 2 ^ ?k" using x le by simp
  have "unat ?x mod 2 ^ 48 = unat ?a mod 2 ^ 48 - 2 ^ ?k"
  proof -
    have "unat ?x = 2 ^ 48 * (unat ?a div 2 ^ 48) + (unat ?a mod 2 ^ 48 - 2 ^ ?k)"
      using x ge mult_div_mod_eq [of "2 ^ 48" "unat ?a"] by linarith
    moreover have "unat ?a mod 2 ^ 48 - 2 ^ ?k < 2 ^ 48"
      by (rule le_less_trans [OF diff_le_self mod_less_divisor]) simp
    ultimately show ?thesis by (metis mod_less mod_mult_self4)
  qed
  then have xm: "unat ?x mod 2 ^ 48 = 2 ^ ?k * (page_num S p - 1)"
    unfolding lin by (simp add: right_diff_distrib')
  have "2 ^ ?k dvd unat ?x"
    using xm dvd_mod_pow [OF size_bits_small(1), of S "unat ?x"] by simp
  then have v: "page_valid S (Page (VirtAddr (canonicalize ?x)))"
    using is_aligned_canonicalize [of S ?x]
    by (simp add: page_valid_def canonical_def virt_is_aligned_def is_aligned_iff_dvd)
  have "page_sub S p 1 = Page (VirtAddr (canonicalize ?x))"
    using page_containing_id [OF v] by (simp add: page_sub_def virt_sub_def virt_new_extend_def)
  with v xm unat_canonicalize_mod [of ?x] show ?thesis by (simp add: page_num_def)
qed

lemma frame_sub_num:
  assumes "frame_valid S f" "0 < frame_num S f"
  shows "frame_valid S (frame_sub S f 1) \<and> frame_num S (frame_sub S f 1) = frame_num S f - 1"
proof -
  let ?a = "phys_as_u64 (frame_start f)" and ?k = "size_bits S"
  let ?x = "?a - 1 * SIZE S"
  have a: "unat ?a = 2 ^ ?k * frame_num S f" by (rule frame_start_num [OF assms(1)])
  have "2 ^ ?k \<le> unat ?a" using assms(2) by (simp add: a)
  then have x: "unat ?x = 2 ^ ?k * (frame_num S f - 1)"
    by (simp add: unat_sub word_le_nat_alt unat_SIZE a right_diff_distrib')
  have "unat ?x \<le> unat ?a" unfolding x a by simp
  then have small: "unat ?x < 2 ^ 52" using assms(1) by (simp add: frame_valid_def phys_valid_iff)
  have v: "frame_valid S (Frame (PhysAddr ?x))"
    using small x by (simp add: frame_valid_def phys_valid_iff phys_is_aligned_def is_aligned_iff_dvd)
  have "frame_sub S f 1 = Frame (PhysAddr ?x)"
    using frame_containing_id [OF v] phys_new_truncate_small [OF small]
    by (simp add: frame_sub_def phys_sub_def)
  with v x show ?thesis by (simp add: frame_num_def)
qed

section \<open>Range iterators\<close>

text \<open>
  What the two iterators share. The items of a range are numbered; \<open>next\<close> yields the first and
  moves it one number up (wrapping past the last item of the address space), \<open>next_back\<close> yields
  the last and moves it one number down.
\<close>

locale range_iter =
  fixes front :: "'i \<Rightarrow> 'p"
    and rear :: "'i \<Rightarrow> 'p"
    and nxt :: "'i \<Rightarrow> ('p \<times> 'i) option"
    and nxt_back :: "'i \<Rightarrow> ('p \<times> 'i) option"
    and valid :: "'p \<Rightarrow> bool"
    and num :: "'p \<Rightarrow> nat"
    and limit :: nat
  assumes limit_pos: "0 < limit"
    and num_less: "valid p \<Longrightarrow> num p < limit"
    and num_inj: "valid p \<Longrightarrow> valid q \<Longrightarrow> num p = num q \<Longrightarrow> p = q"
    and nxt_None: "valid (front it) \<Longrightarrow> valid (rear it) \<Longrightarrow> num (rear it) < num (front it) \<Longrightarrow> nxt it = None"
    and nxt_Some: "valid (front it) \<Longrightarrow> valid (rear it) \<Longrightarrow> num (front it) \<le> num (rear it) \<Longrightarrow>
      \<exists>it'. nxt it = Some (front it, it') \<and> valid (front it') \<and> rear it' = rear it \<and>
        num (front it') = (num (front it) + 1) mod limit"
    and nxt_back_None: "valid (front it) \<Longrightarrow> valid (rear it) \<Longrightarrow> num (rear it) < num (front it) \<Longrightarrow>
      nxt_back it = None"
    and nxt_back_Some: "valid (front it) \<Longrightarrow> valid (rear it) \<Longrightarrow> num (front it) \<le> num (rear it) \<Longrightarrow>
      0 < num (rear it) \<Longrightarrow>
      \<exists>it'. nxt_back it = Some (rear it, it') \<and> valid (rear it') \<and> front it' = front it \<and>
        num (rear it') = num (rear it) - 1"
begin

lemma forward:
  assumes "valid (front it)" "valid (rear it)" "num (rear it) + 1 < limit"
    "num (rear it) + 1 - num (front it) < n"
  shows "\<exists>xs. iter_collect nxt n it = (xs, True) \<and> (\<forall>x \<in> set xs. valid x) \<and>
    map num xs = [num (front it)..<num (rear it) + 1]"
  using assms
proof (induction n arbitrary: it)
  case (Suc n)
  show ?case
  proof (cases "num (front it) \<le> num (rear it)")
    case True
    from nxt_Some [OF Suc.prems(1,2) True] obtain it' where
      it': "nxt it = Some (front it, it')" "valid (front it')" "rear it' = rear it"
        "num (front it') = (num (front it) + 1) mod limit" by blast
    have num': "num (front it') = num (front it) + 1"
      using it'(4) True Suc.prems(3) by simp
    have "\<exists>xs. iter_collect nxt n it' = (xs, True) \<and> (\<forall>x \<in> set xs. valid x) \<and>
        map num xs = [num (front it')..<num (rear it') + 1]"
      by (rule Suc.IH) (use it' num' True Suc.prems in auto)
    with it' num' True Suc.prems(1) show ?thesis by (auto simp: upt_rec [of "num (front it)"])
  next
    case False
    with nxt_None [OF Suc.prems(1,2)] show ?thesis by simp
  qed
qed simp

lemma backward:
  assumes "valid (front it)" "valid (rear it)" "0 < num (front it)"
    "num (rear it) + 1 - num (front it) < n"
  shows "\<exists>xs. iter_collect nxt_back n it = (xs, True) \<and> (\<forall>x \<in> set xs. valid x) \<and>
    map num xs = rev [num (front it)..<num (rear it) + 1]"
  using assms
proof (induction n arbitrary: it)
  case (Suc n)
  show ?case
  proof (cases "num (front it) \<le> num (rear it)")
    case True
    then have "0 < num (rear it)" using Suc.prems(3) by simp
    from nxt_back_Some [OF Suc.prems(1,2) True this] obtain it' where
      it': "nxt_back it = Some (rear it, it')" "valid (rear it')" "front it' = front it"
        "num (rear it') = num (rear it) - 1" by blast
    have "\<exists>xs. iter_collect nxt_back n it' = (xs, True) \<and> (\<forall>x \<in> set xs. valid x) \<and>
        map num xs = rev [num (front it')..<num (rear it') + 1]"
      by (rule Suc.IH) (use it' True Suc.prems in auto)
    with it' True Suc.prems show ?thesis by auto
  next
    case False
    with nxt_back_None [OF Suc.prems(1,2)] show ?thesis by simp
  qed
qed simp

lemma rev_unique:
  assumes "\<forall>x \<in> set xs. valid x" "\<forall>y \<in> set ys. valid y" "map num xs = ns" "map num ys = rev ns"
  shows "ys = rev xs"
proof -
  have "inj_on num (set ys \<union> set (rev xs))"
    using assms(1,2) by (auto intro!: inj_onI num_inj)
  moreover have "map num ys = map num (rev xs)" using assms(3,4) by (metis rev_map)
  ultimately show ?thesis using map_inj_on by blast
qed

lemma forward_endless:
  assumes "valid (front it)" "valid (rear it)" "num (rear it) + 1 = limit"
  shows "\<not> snd (iter_collect nxt n it)"
  using assms
proof (induction n arbitrary: it)
  case (Suc n)
  have "num (front it) \<le> num (rear it)" using num_less [OF Suc.prems(1)] Suc.prems(3) by simp
  from nxt_Some [OF Suc.prems(1,2) this] obtain it' where
    it': "nxt it = Some (front it, it')" "valid (front it')" "rear it' = rear it" by blast
  with Suc.IH [of it'] Suc.prems show ?case by (auto split: prod.splits)
qed simp

end

locale range_iter_zero = range_iter +
  assumes nxt_back_zero: "valid (front it) \<Longrightarrow> valid (rear it) \<Longrightarrow> num (front it) = 0 \<Longrightarrow>
      num (rear it) = 0 \<Longrightarrow>
      \<exists>it'. nxt_back it = Some (rear it, it') \<and> valid (front it') \<and> valid (rear it') \<and>
        num (rear it') < num (front it')"
begin

lemma backward_all:
  assumes "valid (front it)" "valid (rear it)" "num (rear it) + 1 - num (front it) < n"
  shows "\<exists>xs. iter_collect nxt_back n it = (xs, True) \<and> (\<forall>x \<in> set xs. valid x) \<and>
    map num xs = rev [num (front it)..<num (rear it) + 1]"
  using assms
proof (induction n arbitrary: it)
  case (Suc n)
  consider "num (rear it) < num (front it)" | "num (front it) = 0" "num (rear it) = 0"
    | "num (front it) \<le> num (rear it)" "0 < num (rear it)" by linarith
  then show ?case
  proof cases
    case 1
    with nxt_back_None [OF Suc.prems(1,2)] show ?thesis by simp
  next
    case 2
    from nxt_back_zero [OF Suc.prems(1,2) 2] obtain it' where
      it': "nxt_back it = Some (rear it, it')" "nxt_back it' = None"
      using nxt_back_None by blast
    obtain m where "n = Suc m" using Suc.prems(3) 2 by (cases n) auto
    with it' 2 Suc.prems show ?thesis by simp
  next
    case 3
    from nxt_back_Some [OF Suc.prems(1,2) 3] obtain it' where
      it': "nxt_back it = Some (rear it, it')" "valid (rear it')" "front it' = front it"
        "num (rear it') = num (rear it) - 1" by blast
    have "\<exists>xs. iter_collect nxt_back n it' = (xs, True) \<and> (\<forall>x \<in> set xs. valid x) \<and>
        map num xs = rev [num (front it')..<num (rear it') + 1]"
      by (rule Suc.IH) (use it' 3 Suc.prems in auto)
    with it' 3 Suc.prems show ?thesis by auto
  qed
qed simp

end

interpretation page_iterator: range_iter pr_start pr_end "page_iter_next S" "page_iter_next_back S"
  "page_valid S" "page_num S" "2 ^ (48 - size_bits S)" for S
proof unfold_locales
  fix it :: page_range
  assume v: "page_valid S (pr_start it)" "page_valid S (pr_end it)"
  note le = page_le_num [OF v]
  show "page_iter_next S it = None" "page_iter_next_back S it = None"
    if "page_num S (pr_end it) < page_num S (pr_start it)"
    using that le by (simp_all add: page_iter_next_def page_iter_next_back_def)
  assume n: "page_num S (pr_start it) \<le> page_num S (pr_end it)"
  show "\<exists>it'. page_iter_next S it = Some (pr_start it, it') \<and> page_valid S (pr_start it') \<and>
      pr_end it' = pr_end it \<and> page_num S (pr_start it') = (page_num S (pr_start it) + 1) mod 2 ^ (48 - size_bits S)"
    using page_add_num [OF v(1), of 1] le n by (simp add: page_iter_next_def)
  assume "0 < page_num S (pr_end it)"
  from page_sub_num [OF v(2) this]
  show "\<exists>it'. page_iter_next_back S it = Some (pr_end it, it') \<and> page_valid S (pr_end it') \<and>
      pr_start it' = pr_start it \<and> page_num S (pr_end it') = page_num S (pr_end it) - 1"
    using le n by (simp add: page_iter_next_back_def)
qed (auto intro: page_num_less page_num_inj)

interpretation frame_iterator: range_iter fr_start fr_end "frame_iter_next S" "frame_iter_next_back S"
  "frame_valid S" "frame_num S" "2 ^ (52 - size_bits S)" for S
proof unfold_locales
  fix it :: frame_range
  assume v: "frame_valid S (fr_start it)" "frame_valid S (fr_end it)"
  note le = frame_le_num [OF v]
  show "frame_iter_next S it = None" "frame_iter_next_back S it = None"
    if "frame_num S (fr_end it) < frame_num S (fr_start it)"
    using that le by (simp_all add: frame_iter_next_def frame_iter_next_back_def)
  assume n: "frame_num S (fr_start it) \<le> frame_num S (fr_end it)"
  show "\<exists>it'. frame_iter_next S it = Some (fr_start it, it') \<and> frame_valid S (fr_start it') \<and>
      fr_end it' = fr_end it \<and> frame_num S (fr_start it') = (frame_num S (fr_start it) + 1) mod 2 ^ (52 - size_bits S)"
    using frame_add_num [OF v(1), of 1] le n by (simp add: frame_iter_next_def)
  assume pos: "0 < frame_num S (fr_end it)"
  then have "phys_as_u64 (frame_start (fr_end it)) \<noteq> 0" by (auto simp: frame_num_def)
  with frame_sub_num [OF v(2) pos]
  show "\<exists>it'. frame_iter_next_back S it = Some (fr_end it, it') \<and> frame_valid S (fr_end it') \<and>
      fr_start it' = fr_start it \<and> frame_num S (fr_end it') = frame_num S (fr_end it) - 1"
    using le n by (simp add: frame_iter_next_back_def)
qed (auto intro: frame_num_less frame_num_inj)

lemma frame_add_one_zero:
  assumes "frame_valid S f" "frame_num S f = 0"
  shows "frame_num S (frame_add S f 1) = 1"
proof -
  have "1 < (2 :: nat) ^ (52 - size_bits S)"
    using size_bits_le [of S] by (intro one_less_power) auto
  then show ?thesis using frame_add_num [OF assms(1), of 1] assms(2) by (metis mod_less plus_nat.add_0 unat_1)
qed

interpretation frame_iterator_zero: range_iter_zero fr_start fr_end "frame_iter_next S"
  "frame_iter_next_back S" "frame_valid S" "frame_num S" "2 ^ (52 - size_bits S)" for S
proof unfold_locales
  fix it :: frame_range
  assume v: "frame_valid S (fr_start it)" "frame_valid S (fr_end it)"
    and z: "frame_num S (fr_start it) = 0" "frame_num S (fr_end it) = 0"
  have "phys_as_u64 (frame_start (fr_end it)) = 0"
    using frame_start_num [OF v(2)] z(2) by (simp add: unat_eq_zero)
  with frame_le_num [OF v] z v frame_add_one_zero [OF v(2) z(2)] frame_add_num [OF v(2), of 1]
  show "\<exists>it'. frame_iter_next_back S it = Some (fr_end it, it') \<and> frame_valid S (fr_start it') \<and>
      frame_valid S (fr_end it') \<and> frame_num S (fr_end it') < frame_num S (fr_start it')"
    by (simp add: frame_iter_next_back_def)
qed

lemma frame_range_len_num:
  assumes v: "frame_valid S (fr_start r)" "frame_valid S (fr_end r)"
  shows "unat (frame_range_len S r) = frame_num S (fr_end r) + 1 - frame_num S (fr_start r)"
proof (cases "frame_num S (fr_start r) \<le> frame_num S (fr_end r)")
  case True
  let ?s = "phys_as_u64 (frame_start (fr_start r))" and ?e = "phys_as_u64 (frame_start (fr_end r))"
  have "?s \<le> ?e"
    using True by (simp add: word_le_nat_alt frame_start_num [OF v(1)] frame_start_num [OF v(2)])
  then have "unat ((?e - ?s) div SIZE S) = frame_num S (fr_end r) - frame_num S (fr_start r)"
    by (simp add: unat_div_distrib unat_sub unat_SIZE frame_start_num [OF v(1)]
        frame_start_num [OF v(2)] flip: right_diff_distrib')
  moreover have "frame_num S (fr_end r) + 1 < 2 ^ 64"
    using frame_num_less [OF v(2)] power_increasing [of "52 - size_bits S" 52 "2 :: nat"] by simp
  ultimately have "unat ((?e - ?s) div SIZE S + 1) = frame_num S (fr_end r) - frame_num S (fr_start r) + 1"
    by (simp add: unat_add_lem [THEN iffD1])
  with True frame_le_num [OF v] show ?thesis
    by (simp add: frame_range_len_def frame_range_is_empty_def frame_diff_def phys_diff_def)
qed (use frame_le_num [OF v] in \<open>simp add: frame_range_len_def frame_range_is_empty_def\<close>)

text \<open>\<open>len\<close> of a page range subtracts addresses, so it is exact when both ends lie in one half.\<close>

definition same_half :: "page \<Rightarrow> page \<Rightarrow> bool" where
  "same_half p q \<longleftrightarrow>
     (unat (virt_as_u64 (page_start p)) < 2 ^ 47 \<longleftrightarrow> unat (virt_as_u64 (page_start q)) < 2 ^ 47)"

lemma page_range_len_num:
  assumes v: "page_valid S (pr_start r)" "page_valid S (pr_end r)"
    and h: "same_half (pr_start r) (pr_end r)"
  shows "unat (page_range_len S r) = page_num S (pr_end r) + 1 - page_num S (pr_start r)"
proof (cases "page_num S (pr_start r) \<le> page_num S (pr_end r)")
  case True
  let ?s = "virt_as_u64 (page_start (pr_start r))" and ?e = "virt_as_u64 (page_start (pr_end r))"
  have c: "canonical (page_start (pr_start r))" "canonical (page_start (pr_end r))"
    using v by (simp_all add: page_valid_def)
  have le: "?s \<le> ?e" using True page_le_num [OF v] by (simp add: page_le_def less_eq_virt_addr_def)
  have "unat ?e - unat ?s = unat ?e mod 2 ^ 48 - unat ?s mod 2 ^ 48"
    using canonical_lin [OF c(1)] canonical_lin [OF c(2)] h by (auto simp: same_half_def)
  also have "\<dots> = 2 ^ size_bits S * (page_num S (pr_end r) - page_num S (pr_start r))"
    unfolding page_lin_num [OF v(1)] page_lin_num [OF v(2)] by (rule right_diff_distrib' [symmetric])
  finally have "unat ((?e - ?s) div SIZE S) = page_num S (pr_end r) - page_num S (pr_start r)"
    using le by (simp add: unat_div_distrib unat_sub unat_SIZE)
  moreover have "page_num S (pr_end r) + 1 < 2 ^ 64"
    using page_num_less [of S "pr_end r"] power_increasing [of "48 - size_bits S" 48 "2 :: nat"] by simp
  ultimately have "unat ((?e - ?s) div SIZE S + 1) = page_num S (pr_end r) - page_num S (pr_start r) + 1"
    by (simp add: unat_add_lem [THEN iffD1])
  with True page_le_num [OF v] show ?thesis
    by (simp add: page_range_len_def page_range_is_empty_def page_diff_def virt_diff_def)
qed (use page_le_num [OF v] in \<open>simp add: page_range_len_def page_range_is_empty_def\<close>)

section \<open>Properties\<close>

text \<open>
  Iterating over a range of frames yields exactly the frames from its start to its end, each
  once and in order, and stops; as many as \<open>len\<close> says. Iterating from the back yields them in
  reverse, down to frame 0 included. The forward direction needs the range to end before the
  last frame of the physical address space.
\<close>

theorem frame_iter_complete:
  assumes "frame_valid S (fr_start r)" "frame_valid S (fr_end r)"
    "frame_num S (fr_end r) + 1 < 2 ^ (52 - size_bits S)" "unat (frame_range_len S r) < n"
  shows "\<exists>xs ys. iter_collect (frame_iter_next S) n r = (xs, True)
    \<and> map (frame_num S) xs = [frame_num S (fr_start r)..<frame_num S (fr_end r) + 1]
    \<and> length xs = unat (frame_range_len S r) \<and> (\<forall>f \<in> set xs. frame_valid S f)
    \<and> iter_collect (frame_iter_next_back S) n r = (ys, True) \<and> ys = rev xs"
proof -
  have n: "frame_num S (fr_end r) + 1 - frame_num S (fr_start r) < n"
    using assms(4) frame_range_len_num [OF assms(1,2)] by simp
  obtain xs where xs: "iter_collect (frame_iter_next S) n r = (xs, True)" "\<forall>f \<in> set xs. frame_valid S f"
    "map (frame_num S) xs = [frame_num S (fr_start r)..<frame_num S (fr_end r) + 1]"
    using frame_iterator.forward [OF assms(1-3) n] by blast
  obtain ys where ys: "iter_collect (frame_iter_next_back S) n r = (ys, True)" "\<forall>f \<in> set ys. frame_valid S f"
    "map (frame_num S) ys = rev [frame_num S (fr_start r)..<frame_num S (fr_end r) + 1]"
    using frame_iterator_zero.backward_all [OF assms(1,2) n] by blast
  have "ys = rev xs" by (rule frame_iterator.rev_unique [OF xs(2) ys(2) xs(3) ys(3)])
  moreover have "length xs = unat (frame_range_len S r)"
    using frame_range_len_num [OF assms(1,2)] xs(3) by (metis length_map length_upt)
  ultimately show ?thesis using xs ys by blast
qed

theorem frame_iter_complete_witness:
  "\<exists>xs ys. iter_collect (frame_iter_next M4KiB) 4
       (frame_range_inclusive (Frame (PhysAddr 0)) (Frame (PhysAddr 0x2000))) = (xs, True)
     \<and> length xs = 3 \<and> ys = rev xs"
proof -
  let ?r = "frame_range_inclusive (Frame (PhysAddr 0)) (Frame (PhysAddr 0x2000))"
  have "frame_valid M4KiB (fr_start ?r)" "frame_valid M4KiB (fr_end ?r)"
    "frame_range_len M4KiB ?r = 3" by code_simp+
  moreover have "frame_num M4KiB (fr_end ?r) = 2"
    by (simp add: frame_num_def frame_range_inclusive_def)
  ultimately show ?thesis
    using frame_iter_complete [of M4KiB ?r 4] by auto
qed

text \<open>
  Iterating over a range of pages that does not end at the last page of the address space
  yields exactly its pages, in order and across the canonical hole, and stops; \<open>len\<close> is the number
  of pages when both ends lie in the same half. From the back it yields them in reverse when the
  range does not start at page 0.
\<close>

theorem page_iter_complete:
  assumes "page_valid S (pr_start r)" "page_valid S (pr_end r)"
    "page_num S (pr_end r) + 1 < 2 ^ (48 - size_bits S)"
    "page_num S (pr_end r) + 1 - page_num S (pr_start r) < n"
  shows "\<exists>xs. iter_collect (page_iter_next S) n r = (xs, True)
    \<and> map (page_num S) xs = [page_num S (pr_start r)..<page_num S (pr_end r) + 1]
    \<and> (\<forall>p \<in> set xs. page_valid S p)
    \<and> (same_half (pr_start r) (pr_end r) \<longrightarrow> length xs = unat (page_range_len S r))
    \<and> (0 < page_num S (pr_start r) \<longrightarrow> iter_collect (page_iter_next_back S) n r = (rev xs, True))"
proof -
  obtain xs where xs: "iter_collect (page_iter_next S) n r = (xs, True)" "\<forall>p \<in> set xs. page_valid S p"
    "map (page_num S) xs = [page_num S (pr_start r)..<page_num S (pr_end r) + 1]"
    using page_iterator.forward [OF assms] by blast
  have "iter_collect (page_iter_next_back S) n r = (rev xs, True)" if pos: "0 < page_num S (pr_start r)"
  proof -
    obtain ys where ys: "iter_collect (page_iter_next_back S) n r = (ys, True)" "\<forall>p \<in> set ys. page_valid S p"
      "map (page_num S) ys = rev [page_num S (pr_start r)..<page_num S (pr_end r) + 1]"
      using page_iterator.backward [OF assms(1,2) pos assms(4)] by blast
    with page_iterator.rev_unique [OF xs(2) ys(2) xs(3) ys(3)] show ?thesis by simp
  qed
  moreover have "length xs = unat (page_range_len S r)" if "same_half (pr_start r) (pr_end r)"
    using page_range_len_num [OF assms(1,2) that] xs(3) by (metis length_map length_upt)
  ultimately show ?thesis using xs by (intro exI [of _ xs] conjI impI) assumption+
qed

theorem page_iter_complete_witness:
  "\<exists>xs. iter_collect (page_iter_next M4KiB) 3
      (page_range_inclusive (Page (VirtAddr 0x7FFFFFFFF000)) (Page (VirtAddr 0xFFFF800000000000))) = (xs, True)
     \<and> length xs = 2"
proof -
  let ?r = "page_range_inclusive (Page (VirtAddr 0x7FFFFFFFF000)) (Page (VirtAddr 0xFFFF800000000000))"
  have "page_valid M4KiB (pr_start ?r)" "page_valid M4KiB (pr_end ?r)" by code_simp+
  moreover have num: "page_num M4KiB (pr_start ?r) = 2 ^ 35 - 1" "page_num M4KiB (pr_end ?r) = 2 ^ 35"
    by (simp_all add: page_num_def page_range_inclusive_def)
  ultimately obtain xs where "iter_collect (page_iter_next M4KiB) 3 ?r = (xs, True)"
    "map (page_num M4KiB) xs = [2 ^ 35 - 1..<2 ^ 35 + 1]"
    using page_iter_complete [of M4KiB ?r 3] by auto
  moreover from this(2) have "length xs = 2 ^ 35 + 1 - (2 ^ 35 - 1)" by (metis length_map length_upt)
  ultimately show ?thesis by auto
qed

text \<open>
  A range that ends at the last page of the virtual address space, or at the last frame of
  the physical one, is never exhausted by \<open>next\<close>: stepping past the last item wraps to item 0,
  which is again not after the end.
\<close>

theorem iter_endless:
  assumes "page_valid S (pr_start r)" "page_valid S (pr_end r)"
    "page_num S (pr_end r) + 1 = 2 ^ (48 - size_bits S)"
    and "frame_valid S (fr_start q)" "frame_valid S (fr_end q)"
    "frame_num S (fr_end q) + 1 = 2 ^ (52 - size_bits S)"
  shows "\<not> snd (iter_collect (page_iter_next S) n r) \<and> \<not> snd (iter_collect (frame_iter_next S) n q)"
  using page_iterator.forward_endless [OF assms(1-3)] frame_iterator.forward_endless [OF assms(4-6)]
  by blast

theorem iter_endless_witness:
  "\<not> snd (iter_collect (page_iter_next M4KiB) 100
      (page_range_inclusive (Page (VirtAddr 0xFFFFFFFFFFFFE000)) (Page (VirtAddr 0xFFFFFFFFFFFFF000))))"
proof -
  let ?r = "page_range_inclusive (Page (VirtAddr 0xFFFFFFFFFFFFE000)) (Page (VirtAddr 0xFFFFFFFFFFFFF000))"
  let ?q = "frame_range_inclusive (Frame (PhysAddr 0)) (Frame (PhysAddr 0xFFFFFFFFFF000))"
  have "page_valid M4KiB (pr_start ?r)" "page_valid M4KiB (pr_end ?r)"
    "frame_valid M4KiB (fr_start ?q)" "frame_valid M4KiB (fr_end ?q)" by code_simp+
  moreover have "page_num M4KiB (pr_end ?r) + 1 = 2 ^ (48 - size_bits M4KiB)"
    "frame_num M4KiB (fr_end ?q) + 1 = 2 ^ (52 - size_bits M4KiB)"
    by (simp_all add: page_num_def frame_num_def page_range_inclusive_def frame_range_inclusive_def)
  ultimately show ?thesis
    using iter_endless [of M4KiB ?r ?q 100] by blast
qed

end
