(* ===== verification/Mem_Alloc.thy ===== *)
theory Mem_Alloc
  imports Paging
begin

text \<open>
  The kernel's frame allocator (kernel/src/mem/frame_alloc.rs) and page allocator
  (kernel/src/mem/page_alloc.rs), both thin clients of \<open>MemoryRanges\<close>, and the address
  translation of a physical mapping (kernel/src/mem/page_alloc/pmap.rs). The lock around the
  frame allocator is not part of this model: each operation runs under it.
\<close>

section \<open>The frame allocator\<close>

record frame_allocator =
  fa_ranges :: memory_ranges

definition MAX_MEMORY_REGIONS :: nat where
  "MAX_MEMORY_REGIONS = 4096"

definition frame_alloc :: "mem_size \<Rightarrow> frame_allocator \<Rightarrow> frame option \<times> frame_allocator" where
  "frame_alloc S fa =
     (case ranges_allocate (fa_ranges fa) (SIZE S) (ALIGNMENT S) of
        (None, m) \<Rightarrow> (None, fa\<lparr>fa_ranges := m\<rparr>)
      | (Some addr, m) \<Rightarrow>
          (Some (frame_containing S (phys_new_truncate addr)), fa\<lparr>fa_ranges := m\<rparr>))"

definition frame_alloc_request ::
  "mem_size \<Rightarrow> frame_allocator \<Rightarrow> memory_ranges \<Rightarrow> frame option \<times> frame_allocator" where
  "frame_alloc_request S fa reqs =
     (case ranges_allocate_req (fa_ranges fa) (SIZE S) (ALIGNMENT S) reqs of
        (None, m) \<Rightarrow> (None, fa\<lparr>fa_ranges := m\<rparr>)
      | (Some addr, m) \<Rightarrow>
          (Some (frame_containing S (phys_new_truncate addr)), fa\<lparr>fa_ranges := m\<rparr>))"

definition frame_free :: "mem_size \<Rightarrow> frame_allocator \<Rightarrow> frame \<Rightarrow> frame_allocator" where
  "frame_free S fa f =
     fa\<lparr>fa_ranges := ranges_insert (fa_ranges fa)
          (range_new (phys_as_u64 (frame_start f)) (phys_as_u64 (frame_start f) + (frame_size S f - 1)))\<rparr>"

definition AP_TRAMPOLINE_PADDR :: u64 where
  "AP_TRAMPOLINE_PADDR = 0x8000"

text \<open>\<open>None\<close> is the panic of \<open>expect\<close>.\<close>

definition reserve_tramp_frame :: "frame_allocator \<Rightarrow> frame_allocator option" where
  "reserve_tramp_frame fa =
     (let req = ranges_insert (ranges_new 1)
                  (range_new AP_TRAMPOLINE_PADDR (AP_TRAMPOLINE_PADDR + SIZE M4KiB))
      in case frame_alloc_request M4KiB fa req of
           (None, _) \<Rightarrow> None
         | (Some _, fa') \<Rightarrow> Some fa')"

text \<open>\<open>None\<close> is the failed assertion of \<open>init\<close>, or the panic of \<open>reserve_tramp_frame\<close>.\<close>

definition frame_init :: "frame_allocator \<Rightarrow> memory_range list \<Rightarrow> frame_allocator option" where
  "frame_init fa rs =
     (if rs = [] then None
      else reserve_tramp_frame
             (fa\<lparr>fa_ranges := fold (\<lambda>r m. ranges_insert m r) (take MAX_MEMORY_REGIONS rs) (fa_ranges fa)\<rparr>))"

section \<open>The page allocator\<close>

record page_allocator =
  vranges :: memory_ranges

definition pages_new_empty :: "nat \<Rightarrow> page_allocator" where
  "pages_new_empty n = \<lparr>vranges = ranges_new n\<rparr>"

definition pages_new_range :: "nat \<Rightarrow> virt_addr \<Rightarrow> virt_addr \<Rightarrow> page_allocator" where
  "pages_new_range n s e =
     \<lparr>vranges = ranges_insert (ranges_new n) (range_new (virt_as_u64 s) (virt_as_u64 e))\<rparr>"

definition allocate_pages :: "mem_size \<Rightarrow> page_allocator \<Rightarrow> u64 \<Rightarrow> page_range option \<times> page_allocator" where
  "allocate_pages S pa cnt =
     (case ranges_allocate (vranges pa) (SIZE S * cnt) (ALIGNMENT S) of
        (None, m) \<Rightarrow> (None, pa\<lparr>vranges := m\<rparr>)
      | (Some start_vaddr, m) \<Rightarrow>
          (let first_page = page_containing S (virt_new_extend start_vaddr)
           in (Some (page_range_inclusive first_page (page_add S first_page (cnt - 1))),
               pa\<lparr>vranges := m\<rparr>)))"

definition allocate_guarded ::
  "page_allocator \<Rightarrow> u64 \<Rightarrow> (page \<times> page_range \<times> page) option \<times> page_allocator" where
  "allocate_guarded pa cnt =
     (case ranges_allocate (vranges pa) (SIZE M4KiB * (cnt + 2)) (ALIGNMENT M4KiB) of
        (None, m) \<Rightarrow> (None, pa\<lparr>vranges := m\<rparr>)
      | (Some start_vaddr, m) \<Rightarrow>
          (let v = virt_new_extend start_vaddr
           in (Some (page_containing M4KiB v,
                     page_range_inclusive
                       (page_containing M4KiB (virt_add v (SIZE M4KiB)))
                       (page_containing M4KiB (virt_add v (SIZE M4KiB * cnt))),
                     page_containing M4KiB (virt_add v (SIZE M4KiB * (cnt + 1)))),
               pa\<lparr>vranges := m\<rparr>)))"

definition free_pages :: "mem_size \<Rightarrow> page_allocator \<Rightarrow> page_range \<Rightarrow> page_allocator" where
  "free_pages S pa pages =
     pa\<lparr>vranges := ranges_insert (vranges pa)
          (range_new (virt_as_u64 (page_start (pr_start pages)))
                     (virt_as_u64 (page_start (pr_end pages)) + (SIZE S - 1)))\<rparr>"

section \<open>Translation in a physical mapping\<close>

record physical_mapping =
  start_frame :: frame
  start_page :: page
  pm_count :: u64

definition pmap_translate :: "mem_size \<Rightarrow> physical_mapping \<Rightarrow> phys_addr \<Rightarrow> virt_addr option" where
  "pmap_translate S pm addr =
     (if addr < frame_start (start_frame pm) then None
      else let offset = phys_diff addr (frame_start (start_frame pm))
           in if offset \<ge> pm_count pm * SIZE S then None
              else Some (virt_add (page_start (start_page pm)) offset))"

definition pmap_translate_range ::
  "mem_size \<Rightarrow> physical_mapping \<Rightarrow> phys_addr \<Rightarrow> u64 \<Rightarrow> virt_addr option" where
  "pmap_translate_range S pm addr len =
     (if addr < frame_start (start_frame pm) then None
      else let offset = phys_diff addr (frame_start (start_frame pm))
           in if offset + len > pm_count pm * SIZE S then None
              else Some (virt_add (page_start (start_page pm)) offset))"

section \<open>Frames\<close>

definition frame_bytes :: "mem_size \<Rightarrow> frame \<Rightarrow> nat set" where
  "frame_bytes S f =
     {unat (phys_as_u64 (frame_start f))..<unat (phys_as_u64 (frame_start f)) + 2 ^ size_bits S}"

definition fa_inv :: "frame_allocator \<Rightarrow> bool" where
  "fa_inv fa \<longleftrightarrow> ranges_inv (fa_ranges fa) \<and> covers (fa_ranges fa) \<subseteq> {..<2 ^ 52}"

lemma frame_of_block:
  assumes "is_aligned (ALIGNMENT S) a" "unat a < 2 ^ 52"
  shows "frame_valid S (Frame (PhysAddr a)) \<and> frame_containing S (phys_new_truncate a) = Frame (PhysAddr a)"
proof -
  have v: "frame_valid S (Frame (PhysAddr a))"
    using assms by (simp add: frame_valid_def phys_valid_iff phys_is_aligned_def)
  with phys_new_truncate_small [OF assms(2)] frame_containing_id show ?thesis by simp
qed

lemma SIZE_nonzero [simp]: "SIZE S \<noteq> 0" "0 < unat (SIZE S)"
  by (cases S; simp)+

lemma block_small: "{unat a..<unat a + 2 ^ k} \<subseteq> X \<Longrightarrow> X \<subseteq> {..<2 ^ 52} \<Longrightarrow> unat a < 2 ^ 52"
proof -
  assume "{unat a..<unat a + 2 ^ k} \<subseteq> X" "X \<subseteq> {..<2 ^ 52}"
  moreover have "unat a \<in> {unat a..<unat a + 2 ^ k}" by simp
  ultimately show ?thesis by blast
qed

lemma frame_alloc_props:
  assumes "fa_inv fa" "frame_alloc S fa = (Some f, fa')"
  shows "fa_inv fa' \<and> frame_valid S f \<and> frame_bytes S f \<subseteq> covers (fa_ranges fa)
    \<and> covers (fa_ranges fa') \<subseteq> covers (fa_ranges fa) - frame_bytes S f
    \<and> (used (fa_ranges fa) < length (ranges (fa_ranges fa)) \<longrightarrow>
        covers (fa_ranges fa') = covers (fa_ranges fa) - frame_bytes S f)"
proof -
  obtain a m where r: "ranges_allocate (fa_ranges fa) (SIZE S) (ALIGNMENT S) = (Some a, m)"
    and f: "f = frame_containing S (phys_new_truncate a)" and fa': "fa' = fa\<lparr>fa_ranges := m\<rparr>"
    using assms(2) by (auto simp: frame_alloc_def split: prod.splits option.splits)
  have inv: "ranges_inv (fa_ranges fa)" "covers (fa_ranges fa) \<subseteq> {..<2 ^ 52}"
    using assms(1) by (simp_all add: fa_inv_def)
  note A = allocate_sound [OF inv(1) r, unfolded unat_SIZE]
  have B: "frame_valid S (Frame (PhysAddr a)) \<and> frame_containing S (phys_new_truncate a) = Frame (PhysAddr a)"
    by (rule frame_of_block) (use A inv(2) block_small [of a "size_bits S"] in auto)
  then have "frame_bytes S f = {unat a..<unat a + 2 ^ size_bits S}" by (simp add: frame_bytes_def f)
  with A B f fa' inv(2) show ?thesis by (auto simp: fa_inv_def)
qed

lemma frame_alloc_request_props:
  assumes "fa_inv fa" "frame_alloc_request S fa reqs = (Some f, fa')"
  shows "fa_inv fa' \<and> frame_valid S f \<and> frame_bytes S f \<subseteq> covers (fa_ranges fa)
    \<and> (\<exists>q \<in> set (entries reqs). frame_bytes S f \<subseteq> cover q)
    \<and> covers (fa_ranges fa') \<subseteq> covers (fa_ranges fa) - frame_bytes S f"
proof -
  obtain a m where r: "ranges_allocate_req (fa_ranges fa) (SIZE S) (ALIGNMENT S) reqs = (Some a, m)"
    and f: "f = frame_containing S (phys_new_truncate a)" and fa': "fa' = fa\<lparr>fa_ranges := m\<rparr>"
    using assms(2) by (auto simp: frame_alloc_request_def split: prod.splits option.splits)
  have inv: "ranges_inv (fa_ranges fa)" "covers (fa_ranges fa) \<subseteq> {..<2 ^ 52}"
    using assms(1) by (simp_all add: fa_inv_def)
  note A = allocate_req_sound [OF inv(1) r, unfolded unat_SIZE]
  have B: "frame_valid S (Frame (PhysAddr a)) \<and> frame_containing S (phys_new_truncate a) = Frame (PhysAddr a)"
    by (rule frame_of_block) (use A inv(2) block_small [of a "size_bits S"] in auto)
  then have "frame_bytes S f = {unat a..<unat a + 2 ^ size_bits S}" by (simp add: frame_bytes_def f)
  with A B f fa' inv(2) show ?thesis by (auto simp: fa_inv_def)
qed

lemma frame_valid_end:
  assumes "frame_valid S f"
  shows "unat (phys_as_u64 (frame_start f)) + 2 ^ size_bits S \<le> 2 ^ 52"
proof -
  have "unat (phys_as_u64 (frame_start f)) + 2 ^ size_bits S = 2 ^ size_bits S * (frame_num S f + 1)"
    by (simp add: frame_start_num [OF assms])
  also have "\<dots> \<le> 2 ^ size_bits S * 2 ^ (52 - size_bits S)"
    using frame_num_less [OF assms] by (intro mult_le_mono2) simp
  also have "\<dots> = 2 ^ 52" using size_bits_small(2) [of S] by (simp flip: power_add)
  finally show ?thesis .
qed

lemma frame_free_props:
  assumes "fa_inv fa" "frame_valid S f"
  shows "fa_inv (frame_free S fa f)
    \<and> covers (fa_ranges (frame_free S fa f)) \<subseteq> covers (fa_ranges fa) \<union> frame_bytes S f
    \<and> (used (fa_ranges fa) < length (ranges (fa_ranges fa)) \<longrightarrow>
        covers (fa_ranges (frame_free S fa f)) = covers (fa_ranges fa) \<union> frame_bytes S f)"
proof -
  let ?a = "phys_as_u64 (frame_start f)"
  have inv: "ranges_inv (fa_ranges fa)" "covers (fa_ranges fa) \<subseteq> {..<2 ^ 52}"
    using assms(1) by (simp_all add: fa_inv_def)
  have e: "unat ?a + 2 ^ size_bits S \<le> 2 ^ 52" by (rule frame_valid_end [OF assms(2)])
  have B: "valid_range (range_new ?a (?a + (SIZE S - 1)))"
    "cover (range_new ?a (?a + (SIZE S - 1))) = frame_bytes S f"
    using cover_block [of "SIZE S" ?a] e by (simp_all add: unat_SIZE frame_bytes_def)
  have small: "frame_bytes S f \<subseteq> {..<2 ^ 52}" using e by (auto simp: frame_bytes_def)
  have C: "covers (ranges_insert (fa_ranges fa) (range_new ?a (?a + (SIZE S - 1)))) =
    (if used (fa_ranges fa) < length (ranges (fa_ranges fa)) \<or>
        (\<exists>e \<in> set (entries (fa_ranges fa)). touches (range_new ?a (?a + (SIZE S - 1))) e)
     then covers (fa_ranges fa) \<union> frame_bytes S f else covers (fa_ranges fa))"
    using covers_insert [of "fa_ranges fa", OF _ B(1)] inv(1) B(2) by (simp add: ranges_inv_def)
  have I: "ranges_inv (ranges_insert (fa_ranges fa) (range_new ?a (?a + (SIZE S - 1))))"
    by (rule insert_inv [OF inv(1)])
  show ?thesis
    unfolding frame_free_def fa_inv_def frame_size_def
    using C I small inv(2) by simp
qed

text \<open>
  The frame allocator meets the allocator contract: a request is the size of a frame, an
  allocation returns the address of its first byte.
\<close>

definition frame_alloc_at :: "frame_allocator \<Rightarrow> mem_size \<Rightarrow> (nat \<times> frame_allocator) option" where
  "frame_alloc_at fa S =
     (case frame_alloc S fa of
        (None, _) \<Rightarrow> None
      | (Some f, fa') \<Rightarrow> Some (unat (phys_as_u64 (frame_start f)), fa'))"

definition frame_free_at :: "frame_allocator \<Rightarrow> nat \<Rightarrow> mem_size \<Rightarrow> frame_allocator" where
  "frame_free_at fa a S = frame_free S fa (Frame (PhysAddr (of_nat a)))"

definition unit_bytes :: "mem_size \<Rightarrow> nat" where
  "unit_bytes S = 2 ^ size_bits S"

definition fa_ok :: "frame_allocator \<Rightarrow> (nat \<times> mem_size) set \<Rightarrow> bool" where
  "fa_ok fa L \<longleftrightarrow> fa_inv fa \<and> blocks_disjoint unit_bytes L \<and>
     (\<forall>(a, S) \<in> L. frame_valid S (Frame (PhysAddr (of_nat a))) \<and> a < 2 ^ 52 \<and>
        block unit_bytes (a, S) \<inter> covers (fa_ranges fa) = {})"

lemma frame_bytes_at: "a < 2 ^ 64 \<Longrightarrow> frame_bytes S (Frame (PhysAddr (of_nat a))) = block unit_bytes (a, S)"
  by (simp add: frame_bytes_def block_def unit_bytes_def unat_of_nat)

interpretation frame_allocator_ok: allocator frame_alloc_at frame_free_at unit_bytes unit_bytes fa_ok
proof unfold_locales
  fix fa L S a fa'
  assume ok: "fa_ok fa L" and al: "frame_alloc_at fa S = Some (a, fa')"
  obtain f where f: "frame_alloc S fa = (Some f, fa')" "a = unat (phys_as_u64 (frame_start f))"
    using al by (auto simp: frame_alloc_at_def split: prod.splits option.splits)
  have inv: "fa_inv fa" using ok by (simp add: fa_ok_def)
  note A = frame_alloc_props [OF inv f(1)]
  have ff: "Frame (PhysAddr (of_nat a)) = f" by (simp add: f(2))
  have small: "a < 2 ^ 52" using A by (simp add: f(2) frame_valid_def phys_valid_iff)
  have bytes: "frame_bytes S f = block unit_bytes (a, S)" by (simp add: frame_bytes_def f(2) block_def unit_bytes_def)
  have new: "block unit_bytes b \<inter> block unit_bytes (a, S) = {}" if "b \<in> L" for b
    using that ok A bytes by (fastforce simp: fa_ok_def)
  moreover have "a \<in> block unit_bytes (a, S)" by (simp add: block_def unit_bytes_def)
  ultimately have "(a, S) \<notin> L" by blast
  moreover have "blocks_disjoint unit_bytes (insert (a, S) L)"
    using ok new by (auto simp: fa_ok_def blocks_disjoint_def)
  moreover have "block unit_bytes (b, T) \<inter> covers (fa_ranges fa') = {}" if "(b, T) \<in> L" for b T
    using that ok A by (fastforce simp: fa_ok_def)
  moreover have "block unit_bytes (a, S) \<inter> covers (fa_ranges fa') = {}" using A bytes by blast
  ultimately show "fa_ok fa' (insert (a, S) L) \<and> (a, S) \<notin> L"
    using ok A small ff by (auto simp: fa_ok_def)
next
  fix fa L a S
  assume ok: "fa_ok fa L" and l: "(a, S) \<in> L"
  then have v: "fa_inv fa" "frame_valid S (Frame (PhysAddr (of_nat a)))" "a < 2 ^ 52"
    by (auto simp: fa_ok_def)
  have bytes: "frame_bytes S (Frame (PhysAddr (of_nat a))) = block unit_bytes (a, S)"
    using v(3) by (intro frame_bytes_at) simp
  note D = frame_free_props [OF v(1,2), unfolded bytes, folded frame_free_at_def]
  have "block unit_bytes b \<inter> covers (fa_ranges (frame_free_at fa a S)) = {}" if "b \<in> L - {(a, S)}" for b
  proof -
    have "block unit_bytes b \<inter> covers (fa_ranges fa) = {}" "block unit_bytes b \<inter> block unit_bytes (a, S) = {}"
      using that ok l by (auto simp: fa_ok_def blocks_disjoint_def)
    with D show ?thesis by blast
  qed
  with D ok show "fa_ok (frame_free_at fa a S) (L - {(a, S)})"
    by (auto simp: fa_ok_def blocks_disjoint_def)
next
  fix fa L a S
  assume ok: "fa_ok fa L" and l: "(a, S) \<in> L"
  then have "frame_valid S (Frame (PhysAddr (of_nat a)))" "a < 2 ^ 52" by (auto simp: fa_ok_def)
  then show "unit_bytes S dvd a"
    by (simp add: frame_valid_def phys_is_aligned_def is_aligned_iff_dvd unat_of_nat unit_bytes_def)
qed (auto simp: fa_ok_def)

lemma fa_ok_empty [simp]: "fa_ok fa {} = fa_inv fa"
  by (simp add: fa_ok_def blocks_disjoint_def)

lemma fold_insert_props:
  assumes "ranges_inv m"
  shows "ranges_inv (fold (\<lambda>r m. ranges_insert m r) rs m)
    \<and> covers (fold (\<lambda>r m. ranges_insert m r) rs m) \<subseteq> covers m \<union> (\<Union>r \<in> set rs. cover r)"
  using assms
proof (induction rs arbitrary: m)
  case (Cons r rs)
  have "covers (ranges_insert m r) \<subseteq> covers m \<union> cover r"
    using Cons.prems covers_insert_subset [of m r]
    by (cases "valid_range r") (auto simp: ranges_insert_def valid_range_def)
  with Cons.IH [OF insert_inv [OF Cons.prems, of r]] show ?case by auto
qed simp

section \<open>Pages\<close>

definition in_half :: "nat set \<Rightarrow> bool" where
  "in_half X \<longleftrightarrow> X \<subseteq> {..<2 ^ 47} \<or> X \<subseteq> {2 ^ 64 - 2 ^ 47..<2 ^ 64}"

definition pa_inv :: "page_allocator \<Rightarrow> bool" where
  "pa_inv pa \<longleftrightarrow> ranges_inv (vranges pa) \<and> in_half (covers (vranges pa))"

definition pages_bytes :: "mem_size \<Rightarrow> page_range \<Rightarrow> nat set" where
  "pages_bytes S r =
     {unat (virt_as_u64 (page_start (pr_start r)))
        ..<unat (virt_as_u64 (page_start (pr_end r))) + 2 ^ size_bits S}"

lemma in_half_mono: "in_half X \<Longrightarrow> Y \<subseteq> X \<Longrightarrow> in_half Y"
  unfolding in_half_def by (meson order_trans)

lemma in_half_canonical:
  assumes "in_half X" "unat a \<in> X" shows "canonical (VirtAddr a)"
proof -
  have "unat a < 2 ^ 47 \<or> 2 ^ 64 - 2 ^ 47 \<le> unat a" using assms by (auto simp: in_half_def)
  then show ?thesis by (auto simp: canonical_iff_range word_le_nat_alt)
qed

lemma page_of_addr:
  assumes "is_aligned (ALIGNMENT S) a" "canonical (VirtAddr a)"
  shows "page_valid S (Page (VirtAddr a)) \<and> page_containing S (virt_new_extend a) = Page (VirtAddr a)"
proof -
  have v: "page_valid S (Page (VirtAddr a))" using assms by (simp add: page_valid_def virt_is_aligned_def)
  moreover have "virt_new_extend a = VirtAddr a" using assms(2) by (simp add: virt_new_extend_def canonical_def)
  ultimately show ?thesis using page_containing_id [OF v] by simp
qed

text \<open>The \<open>n\<close>-th page of a block that lies in one half.\<close>

lemma page_in_block:
  assumes al: "is_aligned (ALIGNMENT S) a" and X: "in_half X" "{unat a..<unat a + N * 2 ^ size_bits S} \<subseteq> X"
    and n: "unat n < N"
  shows "unat (a + n * SIZE S) = unat a + unat n * 2 ^ size_bits S
    \<and> page_valid S (Page (VirtAddr (a + n * SIZE S)))
    \<and> page_containing S (virt_new_extend (a + n * SIZE S)) = Page (VirtAddr (a + n * SIZE S))"
proof -
  have "unat n * 2 ^ size_bits S < N * 2 ^ size_bits S" using n by simp
  then have mem: "unat a + unat n * 2 ^ size_bits S \<in> X" using X(2) by auto
  then have less: "unat a + unat n * 2 ^ size_bits S < 2 ^ 64" using X(1) by (auto simp: in_half_def)
  have mul: "unat (n * SIZE S) = unat n * 2 ^ size_bits S"
    using less by (simp add: unat_mult_lem [THEN iffD1] unat_SIZE)
  have u: "unat (a + n * SIZE S) = unat a + unat n * 2 ^ size_bits S"
    using less mul by (simp add: unat_add_lem [THEN iffD1])
  have "is_aligned (ALIGNMENT S) (a + n * SIZE S)"
    using al by (simp add: is_aligned_iff_dvd u)
  moreover have "canonical (VirtAddr (a + n * SIZE S))"
    by (rule in_half_canonical [OF X(1)]) (simp only: u mem)
  ultimately show ?thesis using page_of_addr u by blast
qed

lemma unat_SIZE_mult: "2 ^ size_bits S * unat cnt < 2 ^ 64 \<Longrightarrow> unat (SIZE S * cnt) = unat cnt * 2 ^ size_bits S"
  by (simp add: unat_mult_lem [THEN iffD1] unat_SIZE mult.commute)

lemma page_num_diff:
  assumes v: "page_valid S p" "page_valid S q" and h: "same_half p q"
    and d: "unat (virt_as_u64 (page_start q)) = unat (virt_as_u64 (page_start p)) + n * 2 ^ size_bits S"
  shows "page_num S q = page_num S p + n"
proof -
  have c: "canonical (page_start p)" "canonical (page_start q)" using v by (simp_all add: page_valid_def)
  have "unat (virt_as_u64 (page_start q)) mod 2 ^ 48 =
      unat (virt_as_u64 (page_start p)) mod 2 ^ 48 + n * 2 ^ size_bits S"
    using canonical_lin [OF c(1)] canonical_lin [OF c(2)] h d by (auto simp: same_half_def)
  then have "2 ^ size_bits S * page_num S q = 2 ^ size_bits S * (page_num S p + n)"
    unfolding page_lin_num [OF v(1)] page_lin_num [OF v(2)] by (simp add: algebra_simps)
  then show ?thesis by simp
qed

lemma allocate_pages_props:
  assumes inv: "pa_inv pa" and al: "allocate_pages S pa cnt = (Some r, pa')"
    and small: "2 ^ size_bits S * unat cnt < 2 ^ 64"
  shows "\<exists>a. ranges_allocate (vranges pa) (SIZE S * cnt) (ALIGNMENT S) = (Some a, vranges pa')
    \<and> 0 < unat cnt \<and> pages_bytes S r = {unat a..<unat a + unat (SIZE S * cnt)}
    \<and> page_valid S (pr_start r) \<and> page_valid S (pr_end r)
    \<and> pr_start r = Page (VirtAddr a) \<and> pr_end r = Page (VirtAddr (a + (cnt - 1) * SIZE S))
    \<and> page_num S (pr_end r) + 1 - page_num S (pr_start r) = unat cnt \<and> same_half (pr_start r) (pr_end r)"
proof -
  obtain a where r: "ranges_allocate (vranges pa) (SIZE S * cnt) (ALIGNMENT S) = (Some a, vranges pa')"
    and rr: "r = page_range_inclusive (page_containing S (virt_new_extend a))
      (page_add S (page_containing S (virt_new_extend a)) (cnt - 1))"
    using al by (auto simp: allocate_pages_def Let_def split: prod.splits option.splits)
  have inv': "ranges_inv (vranges pa)" "in_half (covers (vranges pa))" using inv by (simp_all add: pa_inv_def)
  note A = allocate_sound [OF inv'(1) r]
  have sz: "unat (SIZE S * cnt) = unat cnt * 2 ^ size_bits S" by (rule unat_SIZE_mult [OF small])
  have pos: "0 < unat cnt" using allocate_nonzero [OF r] sz by (simp add: unat_gt_0)
  then have n: "unat (cnt - 1) = unat cnt - 1" by (intro unat_minus_one) auto
  have sub: "{unat a..<unat a + unat cnt * 2 ^ size_bits S} \<subseteq> covers (vranges pa)" using A sz by simp
  have P: "unat (a + m * SIZE S) = unat a + unat m * 2 ^ size_bits S
      \<and> page_valid S (Page (VirtAddr (a + m * SIZE S)))
      \<and> page_containing S (virt_new_extend (a + m * SIZE S)) = Page (VirtAddr (a + m * SIZE S))"
    if "unat m < unat cnt" for m
    using A by (intro page_in_block [OF _ inv'(2) sub that]) simp
  let ?e = "a + (cnt - 1) * SIZE S"
  have P0: "page_valid S (Page (VirtAddr a))" "page_containing S (virt_new_extend a) = Page (VirtAddr a)"
    using P [of 0] pos by simp_all
  have P1: "unat ?e = unat a + (unat cnt - 1) * 2 ^ size_bits S" "page_valid S (Page (VirtAddr ?e))"
    "page_containing S (virt_new_extend ?e) = Page (VirtAddr ?e)"
    using P [of "cnt - 1"] pos n by simp_all
  have start: "pr_start r = Page (VirtAddr a)" and fin: "pr_end r = Page (VirtAddr ?e)"
    using P0 P1 by (simp_all add: rr page_range_inclusive_def page_add_def virt_add_def)
  have "(unat cnt - 1) * 2 ^ size_bits S + 2 ^ size_bits S = unat cnt * 2 ^ size_bits S"
    using pos by (simp add: diff_mult_distrib)
  then have bytes: "pages_bytes S r = {unat a..<unat a + unat (SIZE S * cnt)}"
    by (simp add: pages_bytes_def start fin P1(1) sz add.assoc)
  have "unat a \<in> covers (vranges pa)" "unat ?e \<in> covers (vranges pa)"
    using sub pos \<open>(unat cnt - 1) * 2 ^ size_bits S + 2 ^ size_bits S = unat cnt * 2 ^ size_bits S\<close>
    by (auto simp: P1(1) simp del: unat_eq_zero)
  then have half: "same_half (pr_start r) (pr_end r)"
    using inv'(2) by (auto simp: same_half_def start fin in_half_def)
  have "page_num S (pr_end r) = page_num S (pr_start r) + (unat cnt - 1)"
    using page_num_diff [of S "pr_start r" "pr_end r"] P0(1) P1(1,2) half by (simp add: start fin)
  then have "page_num S (pr_end r) + 1 - page_num S (pr_start r) = unat cnt" using pos by simp
  with r pos bytes half P0(1) P1(2) show ?thesis
    by (intro exI [of _ a] conjI) (simp_all only: start fin)
qed

lemma allocate_guarded_props:
  assumes inv: "pa_inv pa" and al: "allocate_guarded pa cnt = (Some (g, r, h), pa')"
    and small: "4096 * (unat cnt + 2) < 2 ^ 64" and pos: "0 < unat cnt"
  shows "\<exists>a. ranges_allocate (vranges pa) (SIZE M4KiB * (cnt + 2)) Align4K = (Some a, vranges pa')
    \<and> unat (SIZE M4KiB * (cnt + 2)) = 4096 * (unat cnt + 2)
    \<and> page_valid M4KiB g \<and> page_valid M4KiB h \<and> page_valid M4KiB (pr_start r) \<and> page_valid M4KiB (pr_end r)
    \<and> unat (virt_as_u64 (page_start g)) = unat a
    \<and> unat (virt_as_u64 (page_start (pr_start r))) = unat a + 4096
    \<and> unat (virt_as_u64 (page_start (pr_end r))) = unat a + 4096 * unat cnt
    \<and> unat (virt_as_u64 (page_start h)) = unat a + 4096 * (unat cnt + 1)"
proof -
  have inv': "ranges_inv (vranges pa)" "in_half (covers (vranges pa))" using inv by (simp_all add: pa_inv_def)
  obtain a where r: "ranges_allocate (vranges pa) (SIZE M4KiB * (cnt + 2)) Align4K = (Some a, vranges pa')"
    and g: "g = page_containing M4KiB (virt_new_extend a)"
    and rr: "r = page_range_inclusive
       (page_containing M4KiB (virt_add (virt_new_extend a) (SIZE M4KiB)))
       (page_containing M4KiB (virt_add (virt_new_extend a) (SIZE M4KiB * cnt)))"
    and h: "h = page_containing M4KiB (virt_add (virt_new_extend a) (SIZE M4KiB * (cnt + 1)))"
    using al by (auto simp: allocate_guarded_def Let_def split: prod.splits option.splits)
  note A = allocate_sound [OF inv'(1) r]
  have u: "unat (cnt + 2) = unat cnt + 2" "unat (cnt + 1) = unat cnt + 1"
    using small by (simp_all add: unat_add_lem [THEN iffD1])
  have sz: "unat (SIZE M4KiB * (cnt + 2)) = 4096 * (unat cnt + 2)"
    using unat_SIZE_mult [of M4KiB "cnt + 2"] small u by simp
  have sub: "{unat a..<unat a + (unat cnt + 2) * 2 ^ size_bits M4KiB} \<subseteq> covers (vranges pa)"
    using A sz by (simp add: mult.commute)
  have P: "unat (a + m * SIZE M4KiB) = unat a + unat m * 4096 \<and> page_valid M4KiB (Page (VirtAddr (a + m * SIZE M4KiB)))
      \<and> page_containing M4KiB (virt_new_extend (a + m * SIZE M4KiB)) = Page (VirtAddr (a + m * SIZE M4KiB))"
    if "unat m < unat cnt + 2" for m
    using page_in_block [OF _ inv'(2) sub that] A by simp
  have "unat a \<in> covers (vranges pa)" using sub by (rule subsetD) simp
  then have "canonicalize a = a"
    using in_half_canonical [OF inv'(2), of a] by (simp add: canonical_def)
  then have ext: "virt_add (virt_new_extend a) x = virt_new_extend (a + x)" for x
    by (simp add: virt_add_def virt_new_extend_def)
  show ?thesis
    using P [of 0] P [of 1] P [of cnt] P [of "cnt + 1"] r sz u
    by (intro exI [of _ a]) (simp add: g h rr ext page_range_inclusive_def mult.commute [of 4096] algebra_simps)
qed

section \<open>Properties\<close>

definition demo_frames :: frame_allocator where
  "demo_frames = \<lparr>fa_ranges = ranges_insert (ranges_insert (ranges_new 8) (range_new 0x7000 0xAFFF))
     (range_new 0x200000 0x7FFFFF)\<rparr>"

lemma demo_frames_eval:
  "ranges_inv (fa_ranges demo_frames)"
  "fa_ranges demo_frames = \<lparr>ranges = [range_new 0x7000 0xAFFF, range_new 0x200000 0x7FFFFF] @
     replicate 6 (range_new 0 0), used = 2\<rparr>"
  by code_simp+

lemma demo_frames_inv: "fa_inv demo_frames"
  using demo_frames_eval(1)
  by (auto simp: fa_inv_def demo_frames_eval(2) covers_def cover_def entries_def range_new_def)

text \<open>
  A frame handed out by the frame allocator is aligned to its size, lies below 2^52 and in
  memory that was free, is removed from the free memory, and returning it gives its memory back;
  the allocator's invariant is kept throughout.
\<close>

theorem frame_alloc_free:
  assumes "fa_inv fa" "frame_alloc S fa = (Some f, fa')"
    "used (fa_ranges fa) < length (ranges (fa_ranges fa))"
  shows "fa_inv fa' \<and> frame_valid S f \<and> frame_bytes S f \<subseteq> covers (fa_ranges fa)
    \<and> covers (fa_ranges fa') = covers (fa_ranges fa) - frame_bytes S f
    \<and> fa_inv (frame_free S fa' f) \<and> covers (fa_ranges (frame_free S fa' f)) = covers (fa_ranges fa)"
proof -
  note A = frame_alloc_props [OF assms(1,2)]
  obtain a m where r: "ranges_allocate (fa_ranges fa) (SIZE S) (ALIGNMENT S) = (Some a, m)"
    and f: "f = frame_containing S (phys_new_truncate a)" and fa': "fa' = fa\<lparr>fa_ranges := m\<rparr>"
    using assms(2) by (auto simp: frame_alloc_def split: prod.splits option.splits)
  have inv: "ranges_inv (fa_ranges fa)" "covers (fa_ranges fa) \<subseteq> {..<2 ^ 52}"
    using assms(1) by (simp_all add: fa_inv_def)
  note B = allocate_sound [OF inv(1) r, unfolded unat_SIZE]
  have "frame_containing S (phys_new_truncate a) = Frame (PhysAddr a)"
    using frame_of_block [of S a] B inv(2) block_small [of a "size_bits S"] by auto
  then have "covers (fa_ranges (frame_free S fa' f)) = covers (fa_ranges fa)"
    using free_restores [OF inv(1) r assms(3)] by (simp add: frame_free_def f fa' frame_size_def)
  with A assms(3) frame_free_props [of fa' S f] show ?thesis by blast
qed

theorem frame_alloc_free_witness:
  "\<exists>f. fst (frame_alloc M2MiB demo_frames) = Some f \<and> frame_valid M2MiB f
     \<and> covers (fa_ranges (frame_free M2MiB (snd (frame_alloc M2MiB demo_frames)) f)) = covers (fa_ranges demo_frames)"
proof -
  have "fst (frame_alloc M2MiB demo_frames) = Some (Frame (PhysAddr 0x200000))"
    "used (fa_ranges demo_frames) < length (ranges (fa_ranges demo_frames))" by code_simp+
  then show ?thesis
    using frame_alloc_free [OF demo_frames_inv, of M2MiB "Frame (PhysAddr 0x200000)"
        "snd (frame_alloc M2MiB demo_frames)"] by (simp add: prod_eq_iff)
qed

text \<open>
  C15. For every sequence of frame allocations of any of the three sizes and of releases of
  frames that are held, the frames held at the same time never share a byte.
\<close>

theorem frame_client_safe:
  assumes "fa_inv fa" "client_run frame_alloc_at frame_free_at ops (fa, []) = (fa', live)"
  shows "distinct live \<and> blocks_disjoint unit_bytes (set live) \<and> (\<forall>(a, S) \<in> set live. unit_bytes S dvd a)"
  using frame_allocator_ok.run_safe [of fa ops fa' live] assms by simp

theorem frame_client_safe_witness:
  "blocks_disjoint unit_bytes (set (snd (client_run frame_alloc_at frame_free_at
     [Allocate M4KiB, Allocate M2MiB, Deallocate 0, Allocate M4KiB] (demo_frames, []))))"
  using frame_client_safe [OF demo_frames_inv, of "[Allocate M4KiB, Allocate M2MiB, Deallocate 0, Allocate M4KiB]"]
  by (metis prod.collapse)

text \<open>
  Initialisation from the boot loader's ranges below 2^52 ends in a consistent allocator
  whose free memory is part of those ranges and excludes the 4 KiB trampoline frame at 0x8000; it
  panics when there are no ranges at all.
\<close>

theorem frame_init_reserves_trampoline:
  assumes "fa_inv fa" "covers (fa_ranges fa) = {}" "\<forall>r \<in> set rs. hi r < 2 ^ 52" "frame_init fa rs = Some fa'"
  shows "rs \<noteq> [] \<and> fa_inv fa'
    \<and> covers (fa_ranges fa') \<subseteq> (\<Union>r \<in> set rs. cover r) - {0x8000..<0x9000}"
proof -
  let ?m = "fold (\<lambda>r m. ranges_insert m r) (take MAX_MEMORY_REGIONS rs) (fa_ranges fa)"
  let ?req = "ranges_insert (ranges_new 1) (range_new AP_TRAMPOLINE_PADDR (AP_TRAMPOLINE_PADDR + SIZE M4KiB))"
  have rs: "rs \<noteq> []" using assms(4) by (auto simp: frame_init_def)
  obtain f where f: "frame_alloc_request M4KiB (fa\<lparr>fa_ranges := ?m\<rparr>) ?req = (Some f, fa')"
    using assms(4) by (auto simp: frame_init_def reserve_tramp_frame_def Let_def split: if_splits prod.splits option.splits)
  have "(\<Union>r \<in> set (take MAX_MEMORY_REGIONS rs). cover r) \<subseteq> (\<Union>r \<in> set rs. cover r)"
    using set_take_subset [of MAX_MEMORY_REGIONS rs] by blast
  then have m: "ranges_inv ?m" "covers ?m \<subseteq> (\<Union>r \<in> set rs. cover r)"
    using fold_insert_props [of "fa_ranges fa" "take MAX_MEMORY_REGIONS rs"] assms(1,2)
    unfolding fa_inv_def by (simp_all, meson order_trans)
  have "(\<Union>r \<in> set rs. cover r) \<subseteq> {..<2 ^ 52}" using assms(3) by (fastforce simp: cover_def)
  with m have inv: "fa_inv (fa\<lparr>fa_ranges := ?m\<rparr>)" by (simp add: fa_inv_def)
  note A = frame_alloc_request_props [OF inv f]
  have "entries ?req = [range_new 0x8000 0x9000]" by code_simp
  then have sub: "frame_bytes M4KiB f \<subseteq> {0x8000..0x9000}" using A by (auto simp: cover_def range_new_def)
  have "unat (phys_as_u64 (frame_start f)) \<in> frame_bytes M4KiB f"
    "unat (phys_as_u64 (frame_start f)) + 4095 \<in> frame_bytes M4KiB f" by (simp_all add: frame_bytes_def)
  then have "0x8000 \<le> unat (phys_as_u64 (frame_start f))"
    "unat (phys_as_u64 (frame_start f)) + 4095 \<le> 0x9000" using sub by fastforce+
  moreover have "4096 dvd unat (phys_as_u64 (frame_start f))"
    using A by (simp add: frame_valid_def phys_is_aligned_def is_aligned_iff_dvd)
  then obtain q where q: "unat (phys_as_u64 (frame_start f)) = 4096 * q" ..
  ultimately have "8 \<le> q" "q < 9" by simp_all
  then have "unat (phys_as_u64 (frame_start f)) = 0x8000" using q by simp
  then have "frame_bytes M4KiB f = {0x8000..<0x9000}" by (simp add: frame_bytes_def)
  with A m rs show ?thesis by auto
qed

theorem frame_init_reserves_trampoline_witness:
  "(\<exists>fa'. frame_init \<lparr>fa_ranges = ranges_new 8\<rparr> [range_new 0x7000 0xAFFF] = Some fa' \<and> fa_inv fa')"
proof -
  have "frame_init \<lparr>fa_ranges = ranges_new 8\<rparr> [range_new 0x7000 0xAFFF] =
      Some \<lparr>fa_ranges = \<lparr>ranges = [range_new 0x7000 0x7FFF, range_new 0x9000 0xAFFF] @ replicate 6 (range_new 0 0), used = 2\<rparr>\<rparr>"
    by code_simp
  moreover have "fa_inv \<lparr>fa_ranges = ranges_new 8\<rparr>" by (simp add: fa_inv_def)
  ultimately show ?thesis
    using frame_init_reserves_trampoline [of "\<lparr>fa_ranges = ranges_new 8\<rparr>" "[range_new 0x7000 0xAFFF]"]
    by (simp add: range_new_def)
qed

text \<open>
  A successful allocation of \<open>count\<close> pages, when their total size fits in 64 bits, returns a
  range of exactly \<open>count\<close> valid pages that lies in the free address space, removes it from there,
  and freeing the range restores the free address space.
\<close>

theorem allocate_pages_free:
  assumes "pa_inv pa" "allocate_pages S pa cnt = (Some r, pa')" "2 ^ size_bits S * unat cnt < 2 ^ 64"
    "used (vranges pa) < length (ranges (vranges pa))"
  shows "pa_inv pa' \<and> page_valid S (pr_start r) \<and> page_valid S (pr_end r)
    \<and> page_range_len S r = cnt \<and> pages_bytes S r \<subseteq> covers (vranges pa)
    \<and> covers (vranges pa') = covers (vranges pa) - pages_bytes S r
    \<and> covers (vranges (free_pages S pa' r)) = covers (vranges pa)"
proof -
  have inv: "ranges_inv (vranges pa)" "in_half (covers (vranges pa))" using assms(1) by (simp_all add: pa_inv_def)
  obtain a where a: "ranges_allocate (vranges pa) (SIZE S * cnt) (ALIGNMENT S) = (Some a, vranges pa')"
      "pages_bytes S r = {unat a..<unat a + unat (SIZE S * cnt)}"
      "page_valid S (pr_start r)" "page_valid S (pr_end r)"
      "pr_start r = Page (VirtAddr a)" "pr_end r = Page (VirtAddr (a + (cnt - 1) * SIZE S))"
      "page_num S (pr_end r) + 1 - page_num S (pr_start r) = unat cnt" "same_half (pr_start r) (pr_end r)"
    using allocate_pages_props [OF assms(1-3)] by blast
  note A = allocate_sound [OF inv(1) a(1)]
  have "page_range_len S r = cnt"
    using page_range_len_num [OF a(3,4,8)] a(7) by (simp add: word_unat_eq_iff)
  moreover have e: "a + (cnt - 1) * SIZE S + (SIZE S - 1) = a + (SIZE S * cnt - 1)"
    by (simp add: algebra_simps)
  have "covers (vranges (free_pages S pa' r)) = covers (vranges pa)"
    unfolding free_pages_def a(5,6) page.sel virt_addr.sel e
    using free_restores [OF inv(1) a(1) assms(4)] by simp
  moreover have "pa_inv pa'" using A in_half_mono [OF inv(2)] by (auto simp: pa_inv_def)
  ultimately show ?thesis using A a(2-4) assms(4) by simp
qed

theorem allocate_pages_free_witness:
  "\<exists>r. fst (allocate_pages M4KiB (pages_new_range 8 (VirtAddr 0x10000) (VirtAddr 0x1FFFF)) 3) = Some r
     \<and> page_range_len M4KiB r = 3"
proof -
  let ?pa = "pages_new_range 8 (VirtAddr 0x10000) (VirtAddr 0x1FFFF)"
  let ?r = "page_range_inclusive (Page (VirtAddr 0x10000)) (Page (VirtAddr 0x12000))"
  have e: "vranges ?pa = \<lparr>ranges = [range_new 0x10000 0x1FFFF] @ replicate 7 (range_new 0 0), used = 1\<rparr>"
    and i: "ranges_inv (vranges ?pa)" and f: "fst (allocate_pages M4KiB ?pa 3) = Some ?r" by code_simp+
  have "covers (vranges ?pa) \<subseteq> {..<2 ^ 47}"
    by (auto simp: e covers_def cover_def entries_def range_new_def)
  then have "pa_inv ?pa" using i by (simp add: pa_inv_def in_half_def)
  then have "page_range_len M4KiB ?r = 3"
    using allocate_pages_free [of ?pa M4KiB 3 ?r "snd (allocate_pages M4KiB ?pa 3)"] f
    by (simp add: e prod_eq_iff)
  with f show ?thesis by blast
qed

text \<open>
  A guarded allocation of \<open>count\<close> pages (\<open>count > 0\<close>, no overflow) carves one block out of the
  free address space and splits it without gaps into a guard page, exactly \<open>count\<close> usable pages,
  and another guard page.
\<close>

theorem allocate_guarded_layout:
  assumes "pa_inv pa" "allocate_guarded pa cnt = (Some (g, r, h), pa')"
    "4096 * (unat cnt + 2) < 2 ^ 64" "0 < unat cnt"
  shows "\<exists>a. let addr = (\<lambda>p. unat (virt_as_u64 (page_start p))) in
    page_valid M4KiB g \<and> page_valid M4KiB (pr_start r) \<and> page_valid M4KiB (pr_end r) \<and> page_valid M4KiB h
    \<and> addr g = a \<and> addr (pr_start r) = addr g + 4096 \<and> addr (pr_end r) = addr g + 4096 * unat cnt
    \<and> addr h = addr (pr_end r) + 4096
    \<and> {a..<addr h + 4096} \<subseteq> covers (vranges pa) \<and> covers (vranges pa') \<subseteq> covers (vranges pa) - {a..<addr h + 4096}"
proof -
  obtain a where a: "ranges_allocate (vranges pa) (SIZE M4KiB * (cnt + 2)) Align4K = (Some a, vranges pa')"
    "unat (SIZE M4KiB * (cnt + 2)) = 4096 * (unat cnt + 2)"
    "page_valid M4KiB g" "page_valid M4KiB h" "page_valid M4KiB (pr_start r)" "page_valid M4KiB (pr_end r)"
    "unat (virt_as_u64 (page_start g)) = unat a"
    "unat (virt_as_u64 (page_start (pr_start r))) = unat a + 4096"
    "unat (virt_as_u64 (page_start (pr_end r))) = unat a + 4096 * unat cnt"
    "unat (virt_as_u64 (page_start h)) = unat a + 4096 * (unat cnt + 1)"
    using allocate_guarded_props [OF assms] by blast
  have "ranges_inv (vranges pa)" using assms(1) by (simp add: pa_inv_def)
  note A = allocate_sound [OF this a(1), unfolded a(2)]
  have e: "unat a + 4096 * (unat cnt + 1) + 4096 = unat a + 4096 * (unat cnt + 2)" by simp
  show ?thesis
    unfolding Let_def a(7-10) by (intro exI [of _ "unat a"]) (use A a(3-6) in \<open>simp only: e\<close>, simp)
qed

theorem allocate_guarded_layout_witness:
  "\<exists>g r h. fst (allocate_guarded (pages_new_range 8 (VirtAddr 0x10000) (VirtAddr 0x1FFFF)) 2) = Some (g, r, h)
     \<and> unat (virt_as_u64 (page_start h)) = unat (virt_as_u64 (page_start (pr_end r))) + 4096"
proof -
  let ?pa = "pages_new_range 8 (VirtAddr 0x10000) (VirtAddr 0x1FFFF)"
  let ?r = "page_range_inclusive (Page (VirtAddr 0x11000)) (Page (VirtAddr 0x12000))"
  have e: "vranges ?pa = \<lparr>ranges = [range_new 0x10000 0x1FFFF] @ replicate 7 (range_new 0 0), used = 1\<rparr>"
    and i: "ranges_inv (vranges ?pa)"
    and f: "fst (allocate_guarded ?pa 2) = Some (Page (VirtAddr 0x10000), ?r, Page (VirtAddr 0x13000))" by code_simp+
  have "covers (vranges ?pa) \<subseteq> {..<2 ^ 47}"
    by (auto simp: e covers_def cover_def entries_def range_new_def)
  then have "pa_inv ?pa" using i by (simp add: pa_inv_def in_half_def)
  then show ?thesis
    using allocate_guarded_layout [of ?pa 2 "Page (VirtAddr 0x10000)" ?r "Page (VirtAddr 0x13000)"
        "snd (allocate_guarded ?pa 2)"] f
    by (auto simp: prod_eq_iff Let_def)
qed

text \<open>
  Translation in a mapping of \<open>count\<close> frames (whose size fits in 64 bits) succeeds exactly for
  the mapped physical addresses and preserves the offset from the start of the mapping. The
  range variant accepts only ranges that lie inside the mapping, provided the offset plus the
  length does not exceed 64 bits; beyond that it wraps and accepts.
\<close>

theorem pmap_translate_exact:
  assumes "2 ^ size_bits S * unat (pm_count pm) < 2 ^ 64"
  shows "((\<exists>v. pmap_translate S pm addr = Some v) \<longleftrightarrow>
      (let s = unat (phys_as_u64 (frame_start (start_frame pm))) in
       unat (phys_as_u64 addr) \<in> {s..<s + unat (pm_count pm) * 2 ^ size_bits S}))
    \<and> (pmap_translate S pm addr = Some v \<longrightarrow>
      v = virt_add (page_start (start_page pm)) (phys_diff addr (frame_start (start_frame pm))))
    \<and> (pmap_translate_range S pm addr len = Some v \<longrightarrow>
      unat (phys_diff addr (frame_start (start_frame pm))) + unat len < 2 ^ 64 \<longrightarrow>
      (let s = unat (phys_as_u64 (frame_start (start_frame pm))) in
       {unat (phys_as_u64 addr)..<unat (phys_as_u64 addr) + unat len}
         \<subseteq> {s..<s + unat (pm_count pm) * 2 ^ size_bits S}))
    \<and> pmap_translate_range M4KiB \<lparr>start_frame = Frame (PhysAddr 0), start_page = Page (VirtAddr 0), pm_count = 2\<rparr>
      (PhysAddr 0x1000) (- 0x1000) = Some (VirtAddr 0x1000)"
proof (intro conjI impI)
  let ?s = "phys_as_u64 (frame_start (start_frame pm))" and ?a = "phys_as_u64 addr"
  have sz: "unat (pm_count pm * SIZE S) = unat (pm_count pm) * 2 ^ size_bits S"
    using unat_SIZE_mult [OF assms] by (simp add: mult.commute)
  have sub: "unat (?a - ?s) = unat ?a - unat ?s" if "?s \<le> ?a" using that by (simp add: unat_sub)
  have not: "\<not> addr < frame_start (start_frame pm) \<longleftrightarrow> ?s \<le> ?a" by (simp add: less_phys_addr_def not_less)
  show "(\<exists>v. pmap_translate S pm addr = Some v) \<longleftrightarrow>
      (let s = unat ?s in unat ?a \<in> {s..<s + unat (pm_count pm) * 2 ^ size_bits S})"
    using sub sz not by (auto simp: pmap_translate_def Let_def phys_diff_def word_le_nat_alt not_le)
  show "v = virt_add (page_start (start_page pm)) (phys_diff addr (frame_start (start_frame pm)))"
    if "pmap_translate S pm addr = Some v"
    using that by (auto simp: pmap_translate_def Let_def split: if_splits)
  show "let s = unat ?s in
       {unat ?a..<unat ?a + unat len} \<subseteq> {s..<s + unat (pm_count pm) * 2 ^ size_bits S}"
    if t: "pmap_translate_range S pm addr len = Some v"
      and o: "unat (phys_diff addr (frame_start (start_frame pm))) + unat len < 2 ^ 64"
  proof -
    from t have le: "?s \<le> ?a" "?a - ?s + len \<le> pm_count pm * SIZE S"
      using not by (auto simp: pmap_translate_range_def Let_def phys_diff_def not_less split: if_splits)
    have "unat (?a - ?s + len) = unat ?a - unat ?s + unat len"
      using o sub [OF le(1)] by (simp add: phys_diff_def unat_add_lem [THEN iffD1])
    with le sz show ?thesis by (auto simp: Let_def word_le_nat_alt)
  qed
  show "pmap_translate_range M4KiB \<lparr>start_frame = Frame (PhysAddr 0), start_page = Page (VirtAddr 0), pm_count = 2\<rparr>
      (PhysAddr 0x1000) (- 0x1000) = Some (VirtAddr 0x1000)" by code_simp
qed

theorem pmap_translate_exact_witness:
  "\<exists>v. pmap_translate M4KiB \<lparr>start_frame = Frame (PhysAddr 0x5000), start_page = Page (VirtAddr 0x9000), pm_count = 2\<rparr>
     (PhysAddr 0x6123) = Some v"
  using pmap_translate_exact [of M4KiB
      "\<lparr>start_frame = Frame (PhysAddr 0x5000), start_page = Page (VirtAddr 0x9000), pm_count = 2\<rparr>"
      "PhysAddr 0x6123"] by simp

end
