(* ===== verification/Page_Table.thy ===== *)
theory Page_Table
  imports Mem_Alloc "HOL-Library.Sublist"
begin

text \<open>
  Page tables, beskar-hal/src/x86_64/paging/page_table.rs, with the errors of
  beskar-core/src/arch/paging.rs. A table is named by the physical address of its frame, and the
  memory of the tables gives the 512 raw entries of every frame. How an entry is followed is the
  parameter \<open>nx\<close>: \<open>entry_next\<close> for \<open>PageTable\<close>, which reaches the table through the recursive slot, and
  \<open>offset_next\<close> for \<open>OffsetPageTable\<close>, which reaches it through the mapping of physical memory. That both
  address the frame stored in the entry is the doing of the processor's own translation.
\<close>

section \<open>Flags\<close>

type_synonym pt_flags = u64

definition PRESENT :: pt_flags where "PRESENT = 1"
definition WRITABLE :: pt_flags where "WRITABLE = push_bit 1 1"
definition USER_ACCESSIBLE :: pt_flags where "USER_ACCESSIBLE = push_bit 2 1"
definition HUGE_PAGE :: pt_flags where "HUGE_PAGE = push_bit 7 1"
definition ALL_FLAGS :: pt_flags where "ALL_FLAGS = 0x8000000000000FFF"
definition PARENT :: pt_flags where "PARENT = 1 OR push_bit 1 1"

definition flags_is_empty :: "pt_flags \<Rightarrow> bool" where "flags_is_empty f \<longleftrightarrow> f = 0"
definition flags_union :: "pt_flags \<Rightarrow> pt_flags \<Rightarrow> pt_flags" where "flags_union f g = f OR g"
definition flags_intersection :: "pt_flags \<Rightarrow> pt_flags \<Rightarrow> pt_flags" where "flags_intersection f g = f AND g"
definition flags_without :: "pt_flags \<Rightarrow> pt_flags \<Rightarrow> pt_flags" where "flags_without f g = f AND NOT g"

definition flags_contains :: "pt_flags \<Rightarrow> pt_flags \<Rightarrow> bool" where
  "flags_contains f g \<longleftrightarrow> flags_is_empty (flags_without g f)"

section \<open>Entries\<close>

type_synonym pt_entry = u64

definition FRAME_MASK :: u64 where "FRAME_MASK = 0x000FFFFFFFFFF000"

definition entry_flags :: "pt_entry \<Rightarrow> pt_flags" where
  "entry_flags e = e AND ALL_FLAGS"

definition entry_addr :: "pt_entry \<Rightarrow> phys_addr" where
  "entry_addr e = PhysAddr (e AND FRAME_MASK)"

definition entry_is_null :: "pt_entry \<Rightarrow> bool" where
  "entry_is_null e \<longleftrightarrow> e = 0"

definition entry_is_present :: "pt_entry \<Rightarrow> bool" where
  "entry_is_present e \<longleftrightarrow> flags_contains (entry_flags e) PRESENT"

definition entry_is_large :: "pt_entry \<Rightarrow> bool" where
  "entry_is_large e \<longleftrightarrow> flags_contains (entry_flags e) HUGE_PAGE"

definition entry_is_user_accessible :: "pt_entry \<Rightarrow> bool" where
  "entry_is_user_accessible e \<longleftrightarrow> flags_contains (entry_flags e) USER_ACCESSIBLE"

definition entry_is_writable :: "pt_entry \<Rightarrow> bool" where
  "entry_is_writable e \<longleftrightarrow> flags_contains (entry_flags e) WRITABLE"

definition present_addr :: "pt_entry \<Rightarrow> phys_addr option" where
  "present_addr e = (if entry_is_present e then Some (entry_addr e) else None)"

definition entry_set :: "phys_addr \<Rightarrow> pt_flags \<Rightarrow> pt_entry" where
  "entry_set addr f = (phys_as_u64 addr AND FRAME_MASK) OR f"

definition entry_set_flags :: "pt_entry \<Rightarrow> pt_flags \<Rightarrow> pt_entry" where
  "entry_set_flags e f = (e AND FRAME_MASK) OR (f AND ALL_FLAGS)"

definition entry_add_flags :: "pt_entry \<Rightarrow> pt_flags \<Rightarrow> pt_entry" where
  "entry_add_flags e f = e OR f"

datatype mapping_error =
    AlreadyMapped frame | FrameAllocationFailed | NotMapped | UnexpectedLargePage | UnexpectedNotLargePage

text \<open>The address of the next table in the recursive mapping, from the address of its entry.\<close>

definition next_unchecked :: "virt_addr \<Rightarrow> virt_addr" where
  "next_unchecked raw = virt_new_extend (push_bit 9 (virt_as_u64 raw))"

definition entry_next :: "pt_entry \<Rightarrow> mapping_error + phys_addr" where
  "entry_next e =
     (if entry_is_present e \<and> \<not> entry_is_large e then Inr (entry_addr e)
      else if entry_is_present e \<and> entry_is_large e then Inl UnexpectedLargePage
      else Inl NotMapped)"

definition next_table :: "pt_entry \<Rightarrow> phys_addr option" where
  "next_table e = (if \<not> entry_is_present e \<or> entry_is_large e then None else Some (entry_addr e))"

definition offset_next :: "pt_entry \<Rightarrow> mapping_error + phys_addr" where
  "offset_next e = (case next_table e of None \<Rightarrow> Inl NotMapped | Some t \<Rightarrow> Inr t)"

section \<open>Tables\<close>

type_synonym pt_mem = "phys_addr \<Rightarrow> nat \<Rightarrow> pt_entry"

definition pt_write :: "pt_mem \<Rightarrow> phys_addr \<Rightarrow> nat \<Rightarrow> pt_entry \<Rightarrow> pt_mem" where
  "pt_write m t i e = m(t := (m t)(i := e))"

definition pt_clear :: "pt_mem \<Rightarrow> phys_addr \<Rightarrow> pt_mem" where
  "pt_clear m t = m(t := (\<lambda>_. 0))"

text \<open>The operator \<open>?\<close> on a result with the state.\<close>

definition and_then :: "('e + 'x) \<times> 's \<Rightarrow> ('x \<Rightarrow> 's \<Rightarrow> ('e + 'y) \<times> 's) \<Rightarrow> ('e + 'y) \<times> 's" where
  "and_then r k = (case r of (Inl e, s) \<Rightarrow> (Inl e, s) | (Inr x, s) \<Rightarrow> k x s)"

definition next_or_create ::
  "(pt_entry \<Rightarrow> mapping_error + phys_addr) \<Rightarrow> ('a \<Rightarrow> frame option \<times> 'a) \<Rightarrow> phys_addr \<Rightarrow> nat \<Rightarrow> pt_flags \<Rightarrow>
   pt_mem \<times> 'a \<Rightarrow> (mapping_error + phys_addr) \<times> pt_mem \<times> 'a" where
  "next_or_create nx alloc t i insert_flags s =
     (case s of (m, a) \<Rightarrow>
        if flags_contains insert_flags HUGE_PAGE then (Inl UnexpectedLargePage, (m, a))
        else if entry_is_present (m t i)
        then let e = entry_add_flags (m t i) insert_flags in (nx e, (pt_write m t i e, a))
        else (case alloc a of
                (None, a1) \<Rightarrow> (Inl FrameAllocationFailed, (m, a1))
              | (Some f, a1) \<Rightarrow>
                  let e = entry_set (frame_start f) (flags_union insert_flags PRESENT);
                      m1 = pt_write m t i e
                  in (case nx e of
                        Inl er \<Rightarrow> (Inl er, (m1, a1))
                      | Inr t1 \<Rightarrow> (Inr t1, (pt_clear m1 t1, a1)))))"

fun descend :: "(pt_entry \<Rightarrow> mapping_error + phys_addr) \<Rightarrow> pt_mem \<Rightarrow> phys_addr \<Rightarrow> nat list \<Rightarrow> mapping_error + phys_addr" where
  "descend nx m t [] = Inr t"
| "descend nx m t (i # is) = (case nx (m t i) of Inl e \<Rightarrow> Inl e | Inr t1 \<Rightarrow> descend nx m t1 is)"

definition parent_flags :: "pt_flags \<Rightarrow> pt_flags" where
  "parent_flags f =
     (if flags_contains f USER_ACCESSIBLE then flags_union PARENT USER_ACCESSIBLE else PARENT)"

text \<open>The indices of a page.\<close>

abbreviation i4 :: "page \<Rightarrow> nat" where "i4 p \<equiv> unat (page_p4_index p)"
abbreviation i3 :: "page \<Rightarrow> nat" where "i3 p \<equiv> unat (page_p3_index p)"
abbreviation i2 :: "page \<Rightarrow> nat" where "i2 p \<equiv> unat (page_p2_index p)"
abbreviation i1 :: "page \<Rightarrow> nat" where "i1 p \<equiv> unat (page_p1_index p)"

subsection \<open>Pages of 4 KiB\<close>

definition map_leaf :: "mem_size \<Rightarrow> phys_addr \<Rightarrow> nat \<Rightarrow> frame \<Rightarrow> pt_flags \<Rightarrow> pt_mem \<times> 'a \<Rightarrow> (mapping_error + unit) \<times> pt_mem \<times> 'a" where
  "map_leaf S t i f fl s =
     (case s of (m, a) \<Rightarrow>
        if \<not> entry_is_null (m t i)
        then (Inl (AlreadyMapped (frame_containing S (entry_addr (m t i)))), (m, a))
        else (Inr (), (pt_write m t i (entry_set (frame_start f) fl), a)))"

definition map_4k ::
  "(pt_entry \<Rightarrow> mapping_error + phys_addr) \<Rightarrow> ('a \<Rightarrow> frame option \<times> 'a) \<Rightarrow> phys_addr \<Rightarrow> page \<Rightarrow> frame \<Rightarrow> pt_flags \<Rightarrow>
   pt_mem \<times> 'a \<Rightarrow> (mapping_error + unit) \<times> pt_mem \<times> 'a" where
  "map_4k nx alloc root page frame flags s =
     (let pf = parent_flags flags
      in and_then (next_or_create nx alloc root (i4 page) pf s) (\<lambda>p3 s.
         and_then (next_or_create nx alloc p3 (i3 page) pf s) (\<lambda>p2 s.
         and_then (next_or_create nx alloc p2 (i2 page) pf s) (\<lambda>p1 s.
           map_leaf M4KiB p1 (i1 page) frame (flags_without (flags_union flags PRESENT) HUGE_PAGE) s))))"

definition unmap_4k :: "(pt_entry \<Rightarrow> mapping_error + phys_addr) \<Rightarrow> phys_addr \<Rightarrow> page \<Rightarrow> pt_mem \<Rightarrow> (mapping_error + frame) \<times> pt_mem" where
  "unmap_4k nx root page m =
     (case descend nx m root [i4 page, i3 page, i2 page] of
        Inl e \<Rightarrow> (Inl e, m)
      | Inr p1 \<Rightarrow>
          (case present_addr (m p1 (i1 page)) of
             None \<Rightarrow> (Inl NotMapped, m)
           | Some addr \<Rightarrow> (Inr (frame_containing M4KiB addr), pt_write m p1 (i1 page) (entry_set (PhysAddr 0) 0))))"

definition update_flags_4k ::
  "(pt_entry \<Rightarrow> mapping_error + phys_addr) \<Rightarrow> phys_addr \<Rightarrow> page \<Rightarrow> pt_flags \<Rightarrow> pt_mem \<Rightarrow> (mapping_error + unit) \<times> pt_mem" where
  "update_flags_4k nx root page flags m =
     (case descend nx m root [i4 page, i3 page, i2 page] of
        Inl e \<Rightarrow> (Inl e, m)
      | Inr p1 \<Rightarrow>
          if \<not> entry_is_present (m p1 (i1 page)) then (Inl NotMapped, m)
          else (Inr (), pt_write m p1 (i1 page) (entry_set_flags (m p1 (i1 page)) flags)))"

definition translate_4k ::
  "(pt_entry \<Rightarrow> mapping_error + phys_addr) \<Rightarrow> phys_addr \<Rightarrow> pt_mem \<Rightarrow> page \<Rightarrow> (frame \<times> pt_flags) option" where
  "translate_4k nx root m page =
     (case descend nx m root [i4 page, i3 page, i2 page] of
        Inl _ \<Rightarrow> None
      | Inr p1 \<Rightarrow>
          (let e = m p1 (i1 page)
           in if entry_is_present e then Some (frame_containing M4KiB (entry_addr e), entry_flags e) else None))"

text \<open>The operations of \<open>OffsetPageTable\<close>, which has pages of 4 KiB only.\<close>

definition offset_next_or_create where
  "offset_next_or_create alloc t i insert_flags s = next_or_create offset_next alloc t i insert_flags s"

definition offset_map where
  "offset_map alloc root page frame flags s = map_4k offset_next alloc root page frame flags s"

definition offset_unmap where
  "offset_unmap root page m = unmap_4k offset_next root page m"

definition offset_update_flags where
  "offset_update_flags root page flags m = update_flags_4k offset_next root page flags m"

definition offset_translate where
  "offset_translate root m page = translate_4k offset_next root m page"

subsection \<open>Pages of 2 MiB\<close>

definition map_2m ::
  "('a \<Rightarrow> frame option \<times> 'a) \<Rightarrow> phys_addr \<Rightarrow> page \<Rightarrow> frame \<Rightarrow> pt_flags \<Rightarrow> pt_mem \<times> 'a \<Rightarrow> (mapping_error + unit) \<times> pt_mem \<times> 'a" where
  "map_2m alloc root page frame flags s =
     (let pf = parent_flags flags
      in and_then (next_or_create entry_next alloc root (i4 page) pf s) (\<lambda>p3 s.
         and_then (next_or_create entry_next alloc p3 (i3 page) pf s) (\<lambda>p2 s.
           map_leaf M2MiB p2 (i2 page) frame (flags_union (flags_union flags PRESENT) HUGE_PAGE) s)))"

definition unmap_large :: "mem_size \<Rightarrow> phys_addr \<Rightarrow> nat \<Rightarrow> pt_mem \<Rightarrow> (mapping_error + frame) \<times> pt_mem" where
  "unmap_large S t i m =
     (case present_addr (m t i) of
        None \<Rightarrow> (Inl NotMapped, m)
      | Some addr \<Rightarrow>
          if \<not> flags_contains (entry_flags (m t i)) HUGE_PAGE then (Inl UnexpectedNotLargePage, m)
          else (Inr (frame_containing S addr), pt_write m t i (entry_set (PhysAddr 0) 0)))"

definition update_large :: "phys_addr \<Rightarrow> nat \<Rightarrow> pt_flags \<Rightarrow> pt_mem \<Rightarrow> (mapping_error + unit) \<times> pt_mem" where
  "update_large t i flags m =
     (if \<not> entry_is_present (m t i) then (Inl NotMapped, m)
      else if \<not> entry_is_large (m t i) then (Inl UnexpectedNotLargePage, m)
      else (Inr (), pt_write m t i (entry_set_flags (m t i) flags)))"

definition translate_large :: "mem_size \<Rightarrow> pt_entry \<Rightarrow> (frame \<times> pt_flags) option" where
  "translate_large S e = (if entry_is_present e then Some (frame_containing S (entry_addr e), entry_flags e) else None)"

definition unmap_2m :: "phys_addr \<Rightarrow> page \<Rightarrow> pt_mem \<Rightarrow> (mapping_error + frame) \<times> pt_mem" where
  "unmap_2m root page m =
     (case descend entry_next m root [i4 page, i3 page] of
        Inl e \<Rightarrow> (Inl e, m)
      | Inr p2 \<Rightarrow> unmap_large M2MiB p2 (i2 page) m)"

definition update_flags_2m :: "phys_addr \<Rightarrow> page \<Rightarrow> pt_flags \<Rightarrow> pt_mem \<Rightarrow> (mapping_error + unit) \<times> pt_mem" where
  "update_flags_2m root page flags m =
     (case descend entry_next m root [i4 page, i3 page] of
        Inl e \<Rightarrow> (Inl e, m)
      | Inr p2 \<Rightarrow> update_large p2 (i2 page) flags m)"

definition translate_2m :: "phys_addr \<Rightarrow> pt_mem \<Rightarrow> page \<Rightarrow> (frame \<times> pt_flags) option" where
  "translate_2m root m page =
     (case descend entry_next m root [i4 page, i3 page] of
        Inl _ \<Rightarrow> None
      | Inr p2 \<Rightarrow> translate_large M2MiB (m p2 (i2 page)))"

subsection \<open>Pages of 1 GiB\<close>

definition map_1g ::
  "('a \<Rightarrow> frame option \<times> 'a) \<Rightarrow> phys_addr \<Rightarrow> page \<Rightarrow> frame \<Rightarrow> pt_flags \<Rightarrow> pt_mem \<times> 'a \<Rightarrow> (mapping_error + unit) \<times> pt_mem \<times> 'a" where
  "map_1g alloc root page frame flags s =
     and_then (next_or_create entry_next alloc root (i4 page) (parent_flags flags) s) (\<lambda>p3 s.
       map_leaf M1GiB p3 (i3 page) frame (flags_union (flags_union flags PRESENT) HUGE_PAGE) s)"

definition unmap_1g :: "phys_addr \<Rightarrow> page \<Rightarrow> pt_mem \<Rightarrow> (mapping_error + frame) \<times> pt_mem" where
  "unmap_1g root page m =
     (case descend entry_next m root [i4 page] of
        Inl e \<Rightarrow> (Inl e, m)
      | Inr p3 \<Rightarrow> unmap_large M1GiB p3 (i3 page) m)"

definition update_flags_1g :: "phys_addr \<Rightarrow> page \<Rightarrow> pt_flags \<Rightarrow> pt_mem \<Rightarrow> (mapping_error + unit) \<times> pt_mem" where
  "update_flags_1g root page flags m =
     (case descend entry_next m root [i4 page] of
        Inl e \<Rightarrow> (Inl e, m)
      | Inr p3 \<Rightarrow> update_large p3 (i3 page) flags m)"

definition translate_1g :: "phys_addr \<Rightarrow> pt_mem \<Rightarrow> page \<Rightarrow> (frame \<times> pt_flags) option" where
  "translate_1g root m page =
     (case descend entry_next m root [i4 page] of
        Inl _ \<Rightarrow> None
      | Inr p3 \<Rightarrow> translate_large M1GiB (m p3 (i3 page)))"

subsection \<open>The sizes\<close>

text \<open>\<open>Mapper<S>::map\<close> of \<open>PageTable\<close>.\<close>

definition map_page ::
  "mem_size \<Rightarrow> ('a \<Rightarrow> frame option \<times> 'a) \<Rightarrow> phys_addr \<Rightarrow> page \<Rightarrow> frame \<Rightarrow> pt_flags \<Rightarrow>
   pt_mem \<times> 'a \<Rightarrow> (mapping_error + unit) \<times> pt_mem \<times> 'a" where
  "map_page S alloc root page frame flags s =
     (case S of
        M4KiB \<Rightarrow> map_4k entry_next alloc root page frame flags s
      | M2MiB \<Rightarrow> map_2m alloc root page frame flags s
      | M1GiB \<Rightarrow> map_1g alloc root page frame flags s)"

subsection \<open>Addresses\<close>

text \<open>The translation of an address, which may lie in a page of any size.\<close>

definition entry_target :: "pt_entry \<Rightarrow> virt_addr \<Rightarrow> mem_size \<Rightarrow> phys_addr \<times> pt_flags" where
  "entry_target e addr S =
     (phys_new_truncate (phys_as_u64 (entry_addr e) + virt_as_u64 addr mod SIZE S), entry_flags e)"

definition translate_addr :: "phys_addr \<Rightarrow> pt_mem \<Rightarrow> virt_addr \<Rightarrow> (phys_addr \<times> pt_flags) option" where
  "translate_addr root m addr =
     (case entry_next (m root (unat (p4_index addr))) of
        Inl _ \<Rightarrow> None
      | Inr p3 \<Rightarrow>
          (let e3 = m p3 (unat (p3_index addr))
           in if entry_is_present e3 \<and> entry_is_large e3 then Some (entry_target e3 addr M1GiB)
              else (case entry_next e3 of
                      Inl _ \<Rightarrow> None
                    | Inr p2 \<Rightarrow>
                        (let e2 = m p2 (unat (p2_index addr))
                         in if entry_is_present e2 \<and> entry_is_large e2 then Some (entry_target e2 addr M2MiB)
                            else (case entry_next e2 of
                                    Inl _ \<Rightarrow> None
                                  | Inr p1 \<Rightarrow>
                                      (let e1 = m p1 (unat (p1_index addr))
                                       in if \<not> entry_is_present e1 then None
                                          else Some (entry_target e1 addr M4KiB)))))))"

section \<open>Bits of an entry\<close>

lemma frame_mask_bits: "bit FRAME_MASK n \<longleftrightarrow> 12 \<le> n \<and> n < 52"
proof -
  have "FRAME_MASK = mask 52 AND NOT (mask 12)" by (simp add: FRAME_MASK_def mask_eq_exp_minus_1)
  then have "bit FRAME_MASK n \<longleftrightarrow> bit (mask 52 AND NOT (mask 12) :: u64) n" by (rule arg_cong)
  then show ?thesis by (auto simp: bit_simps)
qed

lemma all_flags_bits: "bit ALL_FLAGS n \<longleftrightarrow> n < 12 \<or> n = 63"
proof -
  have "ALL_FLAGS = mask 12 OR push_bit 63 1" by (simp add: ALL_FLAGS_def mask_eq_exp_minus_1)
  then have "bit ALL_FLAGS n \<longleftrightarrow> bit (mask 12 OR push_bit 63 1 :: u64) n" by (rule arg_cong)
  then show ?thesis by (simp only: bit_or_iff bit_mask_iff bit_push_bit_iff bit_1_iff) auto
qed

lemma flags_contains_bit: "n < 64 \<Longrightarrow> flags_contains f (push_bit n 1) \<longleftrightarrow> bit f n"
proof -
  assume n: "n < 64"
  have "(push_bit n 1 AND NOT f = 0) \<longleftrightarrow> (\<forall>k. \<not> bit (push_bit n 1 AND NOT f) k)" by (metis bit_0_eq bot_apply bit_word_eqI bot_bool_def)
  also have "\<dots> \<longleftrightarrow> bit f n" using n by (auto simp: bit_simps)
  finally show ?thesis by (simp only: flags_contains_def flags_is_empty_def flags_without_def)
qed

lemma entry_bits:
  "entry_is_present e \<longleftrightarrow> bit e 0" "entry_is_large e \<longleftrightarrow> bit e 7"
  "entry_is_user_accessible e \<longleftrightarrow> bit e 2" "entry_is_writable e \<longleftrightarrow> bit e 1"
  using flags_contains_bit [of 0 "entry_flags e"] flags_contains_bit [of 7 "entry_flags e"]
    flags_contains_bit [of 2 "entry_flags e"] flags_contains_bit [of 1 "entry_flags e"]
  by (auto simp: entry_is_present_def entry_is_large_def entry_is_user_accessible_def entry_is_writable_def
      PRESENT_def HUGE_PAGE_def USER_ACCESSIBLE_def WRITABLE_def entry_flags_def bit_and_iff all_flags_bits simp del: push_bit_of_1)

lemma flag_bits: "bit PRESENT n \<longleftrightarrow> n = 0" "bit HUGE_PAGE n \<longleftrightarrow> n = 7"
  by (auto simp: PRESENT_def HUGE_PAGE_def bit_simps simp del: push_bit_of_1)

lemma parent_flags_bits: "bit (parent_flags f) n \<longleftrightarrow> n = 0 \<or> n = 1 \<or> (n = 2 \<and> bit f 2)"
proof -
  have "flags_contains f USER_ACCESSIBLE \<longleftrightarrow> bit f 2" using flags_contains_bit [of 2 f] by (simp only: USER_ACCESSIBLE_def)
  moreover have "PARENT = mask 2" by (simp add: PARENT_def mask_eq_exp_minus_1)
  then have "bit PARENT n \<longleftrightarrow> n = 0 \<or> n = 1" for n unfolding \<open>PARENT = mask 2\<close> by (auto simp: bit_mask_iff)
  moreover have "bit USER_ACCESSIBLE n \<longleftrightarrow> n = 2" for n
    by (auto simp: USER_ACCESSIBLE_def bit_push_bit_iff bit_1_iff simp del: push_bit_of_1)
  ultimately show ?thesis by (auto simp: parent_flags_def flags_union_def bit_or_iff)
qed

lemma parent_flags_not_large: "\<not> flags_contains (parent_flags f) HUGE_PAGE"
  using flags_contains_bit [of 7 "parent_flags f"] by (simp add: HUGE_PAGE_def parent_flags_bits del: push_bit_of_1)

lemma next_table_Some: "next_table e = Some t \<longleftrightarrow> bit e 0 \<and> \<not> bit e 7 \<and> t = entry_addr e"
  by (auto simp: next_table_def entry_bits)

lemma next_table_add_flags: "bit e 0 \<Longrightarrow> next_table (entry_add_flags e (parent_flags f)) = next_table e"
proof -
  assume e: "bit e 0"
  have "(e OR parent_flags f) AND FRAME_MASK = e AND FRAME_MASK"
    by (rule bit_word_eqI) (auto simp: bit_simps frame_mask_bits parent_flags_bits)
  then show ?thesis using e
    by (simp add: next_table_def entry_bits entry_add_flags_def bit_or_iff parent_flags_bits entry_addr_def)
qed

lemma frame_masked: "frame_valid M4KiB f \<Longrightarrow> phys_as_u64 (frame_start f) AND FRAME_MASK = phys_as_u64 (frame_start f)"
proof -
  let ?a = "phys_as_u64 (frame_start f)"
  assume v: "frame_valid M4KiB f"
  have lt: "unat ?a < 2 ^ 52" using v by (simp add: frame_valid_def phys_valid_iff)
  have "2 ^ 12 dvd unat ?a" using v by (simp add: frame_valid_def phys_is_aligned_def is_aligned_iff_dvd)
  then have "unat (?a AND mask 12) = 0" by (simp only: unat_and_mask dvd_eq_mod_eq_0)
  then have "?a AND mask 12 = 0" by (simp only: unat_eq_zero)
  then have "\<not> bit (?a AND mask 12) n" for n by simp
  then have low: "bit ?a n \<Longrightarrow> 12 \<le> n" for n using bit_and_iff [of ?a "mask 12" n] by (auto simp: bit_mask_iff not_less)
  show ?thesis by (rule bit_word_eqI) (auto simp: bit_simps frame_mask_bits dest: bit_below [OF lt] low)
qed

lemma entry_set_addr:
  assumes "frame_valid M4KiB f" "\<And>n. bit fl n \<Longrightarrow> n < 12 \<or> n = 63"
  shows "entry_addr (entry_set (frame_start f) fl) = frame_start f" "entry_flags (entry_set (frame_start f) fl) = fl"
proof -
  let ?a = "phys_as_u64 (frame_start f)"
  have "((?a AND FRAME_MASK) OR fl) AND FRAME_MASK = ?a AND FRAME_MASK"
    by (rule bit_word_eqI) (auto simp: bit_simps frame_mask_bits dest: assms(2))
  then show "entry_addr (entry_set (frame_start f) fl) = frame_start f"
    using frame_masked [OF assms(1)] by (simp add: entry_addr_def entry_set_def)
  show "entry_flags (entry_set (frame_start f) fl) = fl"
    unfolding entry_flags_def entry_set_def
    by (rule bit_word_eqI) (auto simp: bit_simps frame_mask_bits all_flags_bits dest: assms(2))
qed

lemma bit_entry_set: "n < 12 \<or> n = 63 \<Longrightarrow> bit (entry_set a fl) n \<longleftrightarrow> bit fl n"
  by (auto simp: entry_set_def bit_simps frame_mask_bits)

section \<open>The tree of tables\<close>

fun walk :: "pt_mem \<Rightarrow> phys_addr \<Rightarrow> nat list \<Rightarrow> phys_addr option" where
  "walk m t [] = Some t"
| "walk m t (i # is) = (case next_table (m t i) of None \<Rightarrow> None | Some t1 \<Rightarrow> walk m t1 is)"

lemma walk_append: "walk m t (p @ q) = (case walk m t p of None \<Rightarrow> None | Some t1 \<Rightarrow> walk m t1 q)"
  by (induction p arbitrary: t) (auto split: option.splits)

lemma walk_snoc: "walk m t (p @ [i]) = (case walk m t p of None \<Rightarrow> None | Some t1 \<Rightarrow> next_table (m t1 i))"
  by (simp add: walk_append split: option.splits)

text \<open>
  The entries of the root that are considered: all of them, or all but the recursive one. Under them
  the tables form a tree, no frame being the table of two paths, and no table is a frame that the frame
  allocator may hand out.
\<close>

definition in_dom :: "nat set \<Rightarrow> nat list \<Rightarrow> bool" where
  "in_dom I p \<longleftrightarrow> p = [] \<or> hd p \<in> I"

definition tree :: "nat set \<Rightarrow> pt_mem \<Rightarrow> phys_addr \<Rightarrow> bool" where
  "tree I m root \<longleftrightarrow> (\<forall>p q t. in_dom I p \<and> in_dom I q \<and> length p \<le> 3 \<and> length q \<le> 3 \<and>
     walk m root p = Some t \<and> walk m root q = Some t \<longrightarrow> p = q)"

definition tables :: "nat set \<Rightarrow> pt_mem \<Rightarrow> phys_addr \<Rightarrow> phys_addr set" where
  "tables I m root = {t. \<exists>p. in_dom I p \<and> length p \<le> 3 \<and> walk m root p = Some t}"

text \<open>The present entry at the end of a path of four indices.\<close>

definition mapped :: "pt_mem \<Rightarrow> phys_addr \<Rightarrow> nat list \<Rightarrow> pt_entry option" where
  "mapped m root q =
     (case walk m root (butlast q) of
        None \<Rightarrow> None
      | Some t \<Rightarrow> if entry_is_present (m t (last q)) then Some (m t (last q)) else None)"

lemma in_dom_snoc: "in_dom I (p @ [i]) \<Longrightarrow> in_dom I p"
  by (auto simp: in_dom_def hd_append split: if_splits)

lemma treeD: "tree I m root \<Longrightarrow> in_dom I p \<Longrightarrow> in_dom I q \<Longrightarrow> length p \<le> 3 \<Longrightarrow> length q \<le> 3 \<Longrightarrow>
    walk m root p = Some t \<Longrightarrow> walk m root q = Some t \<Longrightarrow> p = q"
  unfolding tree_def by blast

lemma tablesI: "in_dom I p \<Longrightarrow> length p \<le> 3 \<Longrightarrow> walk m root p = Some t \<Longrightarrow> t \<in> tables I m root"
  unfolding tables_def by blast

lemma next_table_0 [simp]: "next_table 0 = None"
  by (simp add: next_table_def entry_bits)

text \<open>Changing the flags of an entry keeps the tree.\<close>

lemma walk_write_same: "next_table e = next_table (m t i) \<Longrightarrow> walk (pt_write m t i e) r q = walk m r q"
  by (induction q arbitrary: r) (auto simp: pt_write_def split: option.splits)

text \<open>
  A change of one entry, and of a frame that is no table, is seen only below that entry.
\<close>

lemma walk_write_other:
  assumes tree: "tree I m root" and p: "in_dom I p" "length p \<le> 3" "walk m root p = Some t"
    and m': "\<And>t1 j. t1 \<in> tables I m root \<Longrightarrow> (t1, j) \<noteq> (t, i) \<Longrightarrow> m' t1 j = m t1 j"
    and q: "in_dom I q" "length q \<le> 4" "\<not> prefix (p @ [i]) q"
  shows "walk m' root q = walk m root q"
  using q
proof (induction q rule: rev_induct)
  case (snoc j q)
  have d: "in_dom I q" "length q \<le> 3" using snoc.prems in_dom_snoc by auto
  have "\<not> prefix (p @ [i]) q" using snoc.prems(3) by (auto simp: prefix_snoc)
  then have ih: "walk m' root q = walk m root q" using snoc.IH d by simp
  show ?case
  proof (cases "walk m root q")
    case None
    then show ?thesis using ih by (simp add: walk_snoc)
  next
    case (Some t1)
    have "(t1, j) \<noteq> (t, i)"
      using treeD [OF tree d(1) p(1) d(2) p(2) Some] p(3) snoc.prems(3) by (auto simp: prefix_snoc)
    then have "m' t1 j = m t1 j" using m' tablesI [OF d Some] by blast
    then show ?thesis using ih Some by (simp add: walk_snoc)
  qed
qed simp

text \<open>Writing a last-level entry changes what is mapped there and nothing else.\<close>

lemma write_leaf:
  assumes tree: "tree I m root" and p: "in_dom I (p @ [i])" "length p = 3" "walk m root p = Some t"
    and m'_def: "m' = pt_write m t i e"
  shows "tree I m' root" "tables I m' root = tables I m root"
    and "in_dom I q \<Longrightarrow> length q = 4 \<Longrightarrow>
      mapped m' root q = (if q = p @ [i] then if entry_is_present e then Some e else None else mapped m root q)"
proof -
  note d = in_dom_snoc [OF p(1)]
  have same: "walk m' root q = walk m root q" if "in_dom I q" "length q \<le> 3" for q
  proof (rule walk_write_other [OF tree d _ p(3)])
    show "\<not> prefix (p @ [i]) q" using that(2) p(2) by (auto dest: prefix_length_le)
  qed (use p(2) that in \<open>auto simp: m'_def pt_write_def\<close>)
  show "tree I m' root" using tree unfolding tree_def by (metis same)
  show "tables I m' root = tables I m root" unfolding tables_def using same by auto
  show "mapped m' root q = (if q = p @ [i] then if entry_is_present e then Some e else None else mapped m root q)"
    if q: "in_dom I q" "length q = 4"
  proof -
    obtain q0 j where q0: "q = q0 @ [j]" using q(2) by (cases q rule: rev_cases) auto
    have dq: "in_dom I q0" "length q0 = 3" using q q0 in_dom_snoc by auto
    show ?thesis
    proof (cases "walk m root q0")
      case None
      then have "q0 \<noteq> p" using p(3) by auto
      then show ?thesis using None same [OF dq(1)] dq(2) by (simp add: mapped_def q0)
    next
      case (Some t1)
      have "t1 = t \<longleftrightarrow> q0 = p" using treeD [OF tree dq(1) d _ _ Some] p dq Some by auto
      then show ?thesis using Some same [OF dq(1)] dq(2) by (auto simp: mapped_def q0 m'_def pt_write_def)
    qed
  qed
qed

text \<open>A new empty table below an entry that was not present changes no mapping.\<close>

lemma create_table:
  assumes tree: "tree I m root" and p: "in_dom I (p @ [i])" "length p \<le> 2" "walk m root p = Some t"
    and absent: "next_table (m t i) = None" and fresh: "F \<notin> tables I m root" and e: "next_table e = Some F"
    and m'_def: "m' = pt_clear (pt_write m t i e) F"
  shows "tree I m' root" "tables I m' root \<subseteq> insert F (tables I m root)" "walk m' root (p @ [i]) = Some F"
    and "in_dom I q \<Longrightarrow> length q = 4 \<Longrightarrow> mapped m' root q = mapped m root q"
proof -
  note d = in_dom_snoc [OF p(1)]
  have tF: "t \<noteq> F" using tablesI [OF d _ p(3)] p(2) fresh by auto
  have other: "walk m' root q = walk m root q" if "in_dom I q" "length q \<le> 4" "\<not> prefix (p @ [i]) q" for q
  proof (rule walk_write_other [OF tree d _ p(3) _ that])
    show "m' t1 j = m t1 j" if "t1 \<in> tables I m root" "(t1, j) \<noteq> (t, i)" for t1 j
      using that fresh by (auto simp: m'_def pt_clear_def pt_write_def)
  qed (use p(2) in simp)
  have "walk m' root p = Some t" using other [OF d] p(2,3) by (auto simp: prefix_def)
  then show here: "walk m' root (p @ [i]) = Some F"
    using tF e by (simp add: walk_snoc m'_def pt_clear_def pt_write_def)
  have below: "walk m' root q = (if q = p @ [i] then Some F else None)" if "prefix (p @ [i]) q" for q
  proof -
    obtain r where r: "q = (p @ [i]) @ r" using \<open>prefix (p @ [i]) q\<close> by (auto simp: prefix_def)
    have "walk m' F r = (if r = [] then Some F else None)" by (cases r) (simp_all add: m'_def pt_clear_def)
    then show ?thesis using here by (simp only: r walk_append [of m' root "p @ [i]"]) simp
  qed
  have old: "walk m root q = Some x" if "in_dom I q" "length q \<le> 3" "walk m' root q = Some x" "x \<noteq> F" for q x
    using that other [of q] below [of q] by (cases "prefix (p @ [i]) q") (auto split: if_splits)
  have onlyF: "q = p @ [i]" if "in_dom I q" "length q \<le> 3" "walk m' root q = Some F" for q
    using that other [of q] below [of q] fresh tablesI [of I q m root F]
    by (cases "prefix (p @ [i]) q") (auto split: if_splits)
  show "tables I m' root \<subseteq> insert F (tables I m root)" unfolding tables_def using old by blast
  show "tree I m' root" unfolding tree_def using old onlyF treeD [OF tree] by metis
  show "mapped m' root q = mapped m root q" if q: "in_dom I q" "length q = 4"
  proof -
    obtain q0 j where q0: "q = q0 @ [j]" using q(2) by (cases q rule: rev_cases) auto
    have dq: "in_dom I q0" "length q0 = 3" using q q0 in_dom_snoc by auto
    show ?thesis
    proof (cases "prefix (p @ [i]) q0")
      case True
      then obtain r where "q0 = (p @ [i]) @ r" by (auto simp: prefix_def)
      then have "walk m root q0 = None" using p(3) absent by (simp add: walk_append)
      then show ?thesis using below [OF True] by (auto simp: mapped_def q0 m'_def pt_clear_def entry_bits)
    next
      case False
      have w: "walk m' root q0 = walk m root q0" using other [OF dq(1) _ False] dq(2) by simp
      show ?thesis
      proof (cases "walk m root q0")
        case (Some t1)
        have "t1 \<noteq> F" using tablesI [OF dq(1) _ Some] dq(2) fresh by auto
        moreover have "t1 \<noteq> t" using treeD [OF tree dq(1) d _ _ Some] p(2,3) dq(2) by auto
        ultimately show ?thesis using w Some by (simp add: mapped_def q0 m'_def pt_clear_def pt_write_def)
      qed (use w in \<open>simp add: mapped_def q0\<close>)
    qed
  qed
qed

section \<open>Mapping through the interfaces\<close>

definition path4 :: "page \<Rightarrow> nat list" where
  "path4 page = [i4 page, i3 page, i2 page, i1 page]"

text \<open>The tables are a tree apart from the allocator's frames.\<close>

definition pt_ok :: "nat set \<Rightarrow> phys_addr set \<Rightarrow> pt_mem \<Rightarrow> phys_addr \<Rightarrow> bool" where
  "pt_ok I owned m root \<longleftrightarrow> tree I m root \<and> tables I m root \<inter> owned = {}"

definition same_maps :: "nat set \<Rightarrow> pt_mem \<Rightarrow> pt_mem \<Rightarrow> phys_addr \<Rightarrow> bool" where
  "same_maps I m m' root \<longleftrightarrow> (\<forall>q. in_dom I q \<and> length q = 4 \<longrightarrow> mapped m' root q = mapped m root q)"

lemma same_maps_trans: "same_maps I m m1 root \<Longrightarrow> same_maps I m1 m2 root \<Longrightarrow> same_maps I m m2 root"
  by (simp add: same_maps_def)

text \<open>The contract of the frame allocator that is passed to \<open>map\<close>: the frames it may still hand out are \<open>owns\<close>.\<close>

locale frame_source =
  fixes alloc :: "'a \<Rightarrow> frame option \<times> 'a" and owns :: "'a \<Rightarrow> phys_addr set" and ainv :: "'a \<Rightarrow> bool"
  assumes alloc_frame: "ainv a \<Longrightarrow> alloc a = (Some f, a') \<Longrightarrow>
      ainv a' \<and> frame_valid M4KiB f \<and> frame_start f \<in> owns a \<and> owns a' \<subseteq> owns a - {frame_start f}"
    and alloc_none: "ainv a \<Longrightarrow> alloc a = (None, a') \<Longrightarrow> ainv a' \<and> owns a' \<subseteq> owns a"

text \<open>The contract of following an entry.\<close>

locale table_next =
  fixes nx :: "pt_entry \<Rightarrow> mapping_error + phys_addr"
  assumes nx_table: "nx e = Inr t \<longleftrightarrow> next_table e = Some t"
begin

lemma descend_walk: "descend nx m t p = Inr t1 \<longleftrightarrow> walk m t p = Some t1"
  by (induction p arbitrary: t) (auto simp: nx_table split: sum.splits option.splits, (metis nx_table option.distinct(1) option.inject sum.distinct(1))+)

text \<open>The last table of a page whose entry is present.\<close>

lemma leaf_cases:
  obtains (unmapped) "mapped m root (path4 page) = None"
      "(\<exists>e. descend nx m root [i4 page, i3 page, i2 page] = Inl e) \<or>
       (\<exists>t. descend nx m root [i4 page, i3 page, i2 page] = Inr t \<and> \<not> entry_is_present (m t (i1 page)))"
  | (leaf) t where "mapped m root (path4 page) = Some (m t (i1 page))" "entry_is_present (m t (i1 page))"
      "descend nx m root [i4 page, i3 page, i2 page] = Inr t" "walk m root [i4 page, i3 page, i2 page] = Some t"
proof (cases "descend nx m root [i4 page, i3 page, i2 page]")
  case (Inl e)
  then have "walk m root [i4 page, i3 page, i2 page] = None"
    using descend_walk [of m root "[i4 page, i3 page, i2 page]"] by (cases "walk m root [i4 page, i3 page, i2 page]") auto
  then show ?thesis using Inl by (intro that(1)) (simp_all add: mapped_def path4_def)
next
  case (Inr t)
  then have w: "walk m root [i4 page, i3 page, i2 page] = Some t" by (simp only: descend_walk)
  show ?thesis
  proof (cases "entry_is_present (m t (i1 page))")
    case True
    then show ?thesis using Inr w by (intro that(2)) (simp_all add: mapped_def path4_def)
  next
    case False
    then show ?thesis using Inr w by (intro that(1)) (simp_all add: mapped_def path4_def)
  qed
qed

lemma translate_mapped:
  "translate_4k nx root m page =
     map_option (\<lambda>e. (frame_containing M4KiB (entry_addr e), entry_flags e)) (mapped m root (path4 page))"
  by (cases rule: leaf_cases [of m root page]) (auto simp: translate_4k_def Let_def simp del: descend.simps)

lemma rewrite_leaf_ok:
  assumes ok: "pt_ok I owned m root" and page: "i4 page \<in> I" "walk m root [i4 page, i3 page, i2 page] = Some t"
  shows "pt_ok I owned (pt_write m t (i1 page) e) root"
    and "in_dom I q \<Longrightarrow> length q = 4 \<Longrightarrow> mapped (pt_write m t (i1 page) e) root q =
      (if q = path4 page then if entry_is_present e then Some e else None else mapped m root q)"
proof -
  have "in_dom I ([i4 page, i3 page, i2 page] @ [i1 page])" using page(1) by (simp add: in_dom_def)
  note wl = write_leaf [OF _ this _ page(2) refl [of "pt_write m t (i1 page) e"]]
  show "pt_ok I owned (pt_write m t (i1 page) e) root" using ok wl(1,2) by (simp add: pt_ok_def)
  show "mapped (pt_write m t (i1 page) e) root q =
      (if q = path4 page then if entry_is_present e then Some e else None else mapped m root q)"
    if "in_dom I q" "length q = 4" using ok wl(3) that by (simp add: pt_ok_def path4_def)
qed

lemma unmap_4k_ok:
  assumes ok: "pt_ok I owned m root" and page: "i4 page \<in> I" and call: "unmap_4k nx root page m = (r, m')"
  shows "pt_ok I owned m' root \<and>
    (case r of Inl _ \<Rightarrow> mapped m root (path4 page) = None \<and> m' = m
     | Inr f \<Rightarrow> (\<exists>e. mapped m root (path4 page) = Some e \<and> f = frame_containing M4KiB (entry_addr e)) \<and>
         (\<forall>q. in_dom I q \<and> length q = 4 \<longrightarrow> mapped m' root q = (if q = path4 page then None else mapped m root q)))"
proof (cases rule: leaf_cases [of m root page])
  case unmapped
  then show ?thesis using call ok by (auto simp: unmap_4k_def present_addr_def simp del: descend.simps)
next
  case (leaf t)
  have "\<not> entry_is_present (entry_set (PhysAddr 0) 0)" by (simp add: entry_bits bit_entry_set)
  then show ?thesis using call leaf rewrite_leaf_ok [OF ok page leaf(4), where e = "entry_set (PhysAddr 0) 0"]
    by (auto simp: unmap_4k_def present_addr_def simp del: descend.simps)
qed

lemma update_flags_4k_ok:
  assumes ok: "pt_ok I owned m root" and page: "i4 page \<in> I" and call: "update_flags_4k nx root page flags m = (r, m')"
  shows "pt_ok I owned m' root \<and>
    (case r of Inl _ \<Rightarrow> mapped m root (path4 page) = None \<and> m' = m
     | Inr _ \<Rightarrow> (\<exists>e. mapped m root (path4 page) = Some e \<and>
         (\<forall>q. in_dom I q \<and> length q = 4 \<longrightarrow> mapped m' root q =
            (if q = path4 page then if bit flags 0 then Some (entry_set_flags e flags) else None else mapped m root q))))"
proof (cases rule: leaf_cases [of m root page])
  case unmapped
  then show ?thesis using call ok by (auto simp: update_flags_4k_def simp del: descend.simps)
next
  case (leaf t)
  let ?e = "entry_set_flags (m t (i1 page)) flags"
  have "entry_is_present ?e \<longleftrightarrow> bit flags 0"
    by (simp add: entry_bits entry_set_flags_def bit_simps frame_mask_bits all_flags_bits)
  then show ?thesis using call leaf rewrite_leaf_ok [OF ok page leaf(4), where e = ?e]
    by (auto simp: update_flags_4k_def simp del: descend.simps)
qed

end

lemma and_then_cases:
  assumes "and_then r k = (x, s)"
  obtains (stop) e where "r = (Inl e, s)" "x = Inl e" | (go) y s1 where "r = (Inr y, s1)" "k y s1 = (x, s)"
  using assms by (auto simp: and_then_def split: prod.splits sum.splits)

locale page_mapper = table_next nx + frame_source alloc owns ainv
  for nx :: "pt_entry \<Rightarrow> mapping_error + phys_addr" and alloc :: "'a \<Rightarrow> frame option \<times> 'a" and owns ainv
begin

lemma next_or_create_ok:
  assumes ok: "pt_ok I (owns a) m root" and a: "ainv a"
    and p: "in_dom I (p @ [i])" "length p \<le> 2" "walk m root p = Some t"
    and call: "next_or_create nx alloc t i (parent_flags f) (m, a) = (r, (m', a'))"
  shows "pt_ok I (owns a') m' root" "ainv a'" "same_maps I m m' root" "r = Inr t' \<Longrightarrow> walk m' root (p @ [i]) = Some t'"
proof -
  have tree: "tree I m root" and apart: "tables I m root \<inter> owns a = {}" using ok by (auto simp: pt_ok_def)
  have "pt_ok I (owns a') m' root \<and> ainv a' \<and> same_maps I m m' root \<and> (r = Inr t' \<longrightarrow> walk m' root (p @ [i]) = Some t')"
  proof (cases "bit (m t i) 0")
    case True
    let ?e = "entry_add_flags (m t i) (parent_flags f)"
    have eq: "r = nx ?e" "m' = pt_write m t i ?e" "a' = a"
      using call True by (auto simp: next_or_create_def entry_bits parent_flags_not_large Let_def)
    have nt: "next_table ?e = next_table (m t i)" by (rule next_table_add_flags [OF True])
    then have w: "walk m' root q = walk m root q" for q unfolding eq by (rule walk_write_same)
    then have "tree I m' root" "tables I m' root = tables I m root" using tree by (simp_all add: tree_def tables_def)
    moreover have "mapped m' root q = mapped m root q" if q: "in_dom I q" "length q = 4" for q
    proof (cases "walk m root (butlast q)")
      case (Some t1)
      have "in_dom I (butlast q)" using q by (cases q) (auto simp: in_dom_def)
      then have "t1 \<noteq> t" using treeD [OF tree _ in_dom_snoc [OF p(1)] _ _ Some] p(2,3) q(2) by fastforce
      then show ?thesis using Some w by (simp add: mapped_def eq pt_write_def)
    qed (use w in \<open>simp add: mapped_def\<close>)
    moreover have "walk m' root (p @ [i]) = Some t'" if "r = Inr t'"
      using that w p(3) nt by (simp add: walk_snoc eq nx_table pt_write_def)
    ultimately show ?thesis using apart a eq(3) by (simp add: pt_ok_def same_maps_def)
  next
    case False
    show ?thesis
    proof (cases "alloc a")
      case (Pair fo a1)
      show ?thesis
      proof (cases fo)
        case None
        then have "r = Inl FrameAllocationFailed" "m' = m" "a' = a1"
          using call Pair False by (auto simp: next_or_create_def entry_bits parent_flags_not_large)
        then show ?thesis using alloc_none [OF a] Pair None tree apart by (auto simp: pt_ok_def same_maps_def)
      next
        case (Some fr)
        let ?fl = "flags_union (parent_flags f) PRESENT" and ?F = "frame_start fr"
        let ?e = "entry_set ?F ?fl"
        have al: "ainv a1" "frame_valid M4KiB fr" "?F \<in> owns a" "owns a1 \<subseteq> owns a - {?F}"
          using alloc_frame [OF a] Pair Some by auto
        have fl: "bit ?fl n \<longleftrightarrow> n = 0 \<or> n = 1 \<or> (n = 2 \<and> bit f 2)" for n
          by (auto simp: flags_union_def bit_or_iff parent_flags_bits flag_bits)
        then have "entry_addr ?e = ?F" by (intro entry_set_addr(1) [OF al(2)]) auto
        then have e: "next_table ?e = Some ?F" by (simp add: next_table_Some bit_entry_set fl)
        then have "nx ?e = Inr ?F" by (simp only: nx_table)
        then have eq: "r = Inr ?F" "m' = pt_clear (pt_write m t i ?e) ?F" "a' = a1"
          using call Pair False Some by (auto simp: next_or_create_def entry_bits parent_flags_not_large Let_def)
        have "next_table (m t i) = None" using False by (simp add: next_table_def entry_bits)
        moreover have fresh: "?F \<notin> tables I m root" using apart al(3) by auto
        ultimately have c: "tree I m' root" "tables I m' root \<subseteq> insert ?F (tables I m root)" "walk m' root (p @ [i]) = Some ?F"
          "\<And>q. in_dom I q \<Longrightarrow> length q = 4 \<Longrightarrow> mapped m' root q = mapped m root q"
          using create_table [OF tree p _ _ e eq(2)] by blast+
        then show ?thesis using al apart eq by (auto simp: pt_ok_def same_maps_def)
      qed
    qed
  qed
  then show "pt_ok I (owns a') m' root" "ainv a'" "same_maps I m m' root" "r = Inr t' \<Longrightarrow> walk m' root (p @ [i]) = Some t'"
    by blast+
qed

lemma create_then:
  assumes ok: "pt_ok I (owns a) m root" and a: "ainv a"
    and p: "in_dom I (p @ [i])" "length p \<le> 2" "walk m root p = Some t"
    and call: "and_then (next_or_create nx alloc t i (parent_flags f) (m, a)) k = (r, (m', a'))"
  obtains (stop) e where "r = Inl e" "pt_ok I (owns a') m' root" "ainv a'" "same_maps I m m' root"
  | (go) t1 m1 a1 where "pt_ok I (owns a1) m1 root" "ainv a1" "same_maps I m m1 root"
      "walk m1 root (p @ [i]) = Some t1" "k t1 (m1, a1) = (r, (m', a'))"
  using call
proof (cases rule: and_then_cases)
  case (stop e)
  show ?thesis using next_or_create_ok [OF ok a p stop(1)] stop(2) by (intro that(1))
next
  case (go t1 s1)
  obtain m1 a1 where s1: "s1 = (m1, a1)" by (cases s1)
  show ?thesis using next_or_create_ok [OF ok a p go(1) [unfolded s1]] go(2) s1 by (intro that(2)) auto
qed

lemma map_leaf_ok:
  assumes ok: "pt_ok I (owns a) m root" and p: "in_dom I (p @ [i])" "length p = 3" "walk m root p = Some t"
    and fl: "bit fl 0" and call: "map_leaf S t i fr fl (m, a) = (r, (m', a'))"
  shows "a' = a" "pt_ok I (owns a) m' root"
    and "in_dom I q \<Longrightarrow> length q = 4 \<Longrightarrow>
      mapped m' root q = (if r = Inr () \<and> q = p @ [i] then Some (entry_set (frame_start fr) fl) else mapped m root q)"
    and "r = Inr () \<Longrightarrow> mapped m root (p @ [i]) = None"
proof -
  let ?e = "entry_set (frame_start fr) fl"
  have tree: "tree I m root" and apart: "tables I m root \<inter> owns a = {}" using ok by (auto simp: pt_ok_def)
  have pe: "entry_is_present ?e" using fl by (simp add: entry_bits bit_entry_set)
  note wl = write_leaf [OF tree p refl [of "pt_write m t i ?e"]]
  consider e where "r = Inl e" "m' = m" "a' = a" | "r = Inr ()" "m' = pt_write m t i ?e" "a' = a" "m t i = 0"
    using call by (auto simp: map_leaf_def entry_is_null_def split: if_splits)
  note c = this
  show "a' = a" using c by cases
  show "pt_ok I (owns a) m' root" using c by cases (use ok wl apart in \<open>simp_all add: pt_ok_def\<close>)
  show "mapped m' root q = (if r = Inr () \<and> q = p @ [i] then Some ?e else mapped m root q)"
    if "in_dom I q" "length q = 4" using c by cases (use wl(3) [OF that] pe in simp_all)
  show "mapped m root (p @ [i]) = None" if "r = Inr ()"
    using c by cases (use that p(3) in \<open>simp_all add: mapped_def entry_bits\<close>)
qed

lemma map_4k_ok:
  assumes ok: "pt_ok I (owns a) m root" and a: "ainv a" and page: "i4 page \<in> I"
    and call: "map_4k nx alloc root page fr flags (m, a) = (r, (m', a'))"
  shows "pt_ok I (owns a') m' root \<and> ainv a' \<and> (r = Inr () \<longrightarrow> mapped m root (path4 page) = None) \<and>
    (\<forall>q. in_dom I q \<and> length q = 4 \<longrightarrow> mapped m' root q =
      (if r = Inr () \<and> q = path4 page
       then Some (entry_set (frame_start fr) (flags_without (flags_union flags PRESENT) HUGE_PAGE)) else mapped m root q))"
proof -
  let ?fl = "flags_without (flags_union flags PRESENT) HUGE_PAGE"
  have fl: "bit ?fl 0" by (simp add: flags_without_def flags_union_def bit_simps flag_bits)
  have stop: ?thesis if "r = Inl e" "pt_ok I (owns a') m' root" "ainv a'" "same_maps I m m' root" for e
    using that by (simp add: same_maps_def)
  have "in_dom I ([] @ [i4 page])" "length ([] :: nat list) \<le> 2" "walk m root [] = Some root"
    using page by (simp_all add: in_dom_def)
  then show ?thesis
  proof (cases rule: create_then [OF ok a _ _ _ call [unfolded map_4k_def Let_def], consumes 3])
    case 1: (2 t3 m1 a1)
    have "in_dom I ([i4 page] @ [i3 page])" "length [i4 page] \<le> 2" "walk m1 root [i4 page] = Some t3"
      using page 1(4) by (simp_all add: in_dom_def)
    then show ?thesis
    proof (cases rule: create_then [OF 1(1,2) _ _ _ 1(5), consumes 3])
      case 2: (2 t2 m2 a2)
      have "in_dom I ([i4 page, i3 page] @ [i2 page])" "length [i4 page, i3 page] \<le> 2" "walk m2 root [i4 page, i3 page] = Some t2"
        using page 2(4) by (simp_all add: in_dom_def)
      then show ?thesis
      proof (cases rule: create_then [OF 2(1,2) _ _ _ 2(5), consumes 3])
        case 3: (2 t1 m3 a3)
        have d: "in_dom I ([i4 page, i3 page, i2 page] @ [i1 page])" "walk m3 root [i4 page, i3 page, i2 page] = Some t1"
          using page 3(4) by (simp_all add: in_dom_def)
        have same: "same_maps I m m3 root" using 1(3) 2(3) 3(3) by (blast intro: same_maps_trans)
        have "in_dom I (path4 page)" "length (path4 page) = 4" using d by (simp_all add: path4_def)
        then show ?thesis
          using map_leaf_ok [OF 3(1) d(1) _ d(2) fl 3(5)] 3(2) same by (simp add: same_maps_def path4_def)
      qed (use stop same_maps_trans 1(3) 2(3) in blast)
    qed (use stop same_maps_trans 1(3) in blast)
  qed (use stop in blast)
qed

end

section \<open>The frame allocator under the page tables\<close>

text \<open>The frames all of whose bytes are free.\<close>

definition free_frames :: "frame_allocator \<Rightarrow> phys_addr set" where
  "free_frames fa = {a. frame_bytes M4KiB (Frame a) \<subseteq> covers (fa_ranges fa)}"

lemma page_mapper_frames:
  assumes "\<And>e t. nx e = Inr t \<longleftrightarrow> next_table e = Some t"
  shows "page_mapper nx (frame_alloc M4KiB) free_frames fa_inv"
proof
  fix a f a'
  assume a: "fa_inv a" "frame_alloc M4KiB a = (Some f, a')"
  have "frame_bytes M4KiB f \<noteq> {}" by (auto simp: frame_bytes_def)
  then show "fa_inv a' \<and> frame_valid M4KiB f \<and> frame_start f \<in> free_frames a \<and> free_frames a' \<subseteq> free_frames a - {frame_start f}"
    using frame_alloc_props [OF a] unfolding free_frames_def by (cases f) fastforce
next
  fix a a'
  assume "fa_inv a" "frame_alloc M4KiB a = (None, a')"
  then show "fa_inv a' \<and> free_frames a' \<subseteq> free_frames a"
    by (auto simp: frame_alloc_def ranges_allocate_def ranges_take_def split: prod.splits option.splits if_splits)
qed (rule assms)

interpretation recursive_table: page_mapper entry_next "frame_alloc M4KiB" free_frames fa_inv
  by (rule page_mapper_frames) (auto simp: entry_next_def next_table_def)

interpretation offset_table: page_mapper offset_next "frame_alloc M4KiB" free_frames fa_inv
  by (rule page_mapper_frames) (auto simp: offset_next_def split: option.splits)

lemma path4_inj:
  assumes "page_valid M4KiB p" "page_valid M4KiB q" "path4 p = path4 q"
  shows "p = q"
proof -
  have off: "page_offset (page_start p) = 0" if "page_valid M4KiB p" for p
  proof -
    let ?a = "virt_as_u64 (page_start p)"
    have "2 ^ 12 dvd unat ?a" using that by (simp add: page_valid_def virt_is_aligned_def is_aligned_iff_dvd)
    then have "unat (?a AND mask 12) = 0" by (simp only: unat_and_mask dvd_eq_mod_eq_0)
    then have "?a AND mask 12 = 0" by (simp only: unat_eq_zero)
    then show ?thesis by (simp add: page_offset_def mask_eq_exp_minus_1)
  qed
  have "page_start p = page_start q"
    using from_pt_indices_indices [of "page_start p"] from_pt_indices_indices [of "page_start q"] off assms
    by (simp add: page_valid_def path4_def page_p4_index_def page_p3_index_def page_p2_index_def page_p1_index_def
        flip: word_unat_eq_iff)
  then show ?thesis by (cases p; cases q) simp
qed

text \<open>What \<open>translate\<close> gives for an entry that \<open>map\<close> or \<open>update_flags\<close> wrote.\<close>

lemma flags_within: "flags_contains ALL_FLAGS flags \<Longrightarrow> bit flags n \<Longrightarrow> n < 12 \<or> n = 63"
proof -
  assume "flags_contains ALL_FLAGS flags" "bit flags n"
  then have "\<not> bit (flags AND NOT ALL_FLAGS) n" by (simp add: flags_contains_def flags_is_empty_def flags_without_def)
  then show ?thesis using \<open>bit flags n\<close> bit_imp_le_length [of flags n]
    by (auto simp: bit_and_iff bit_not_iff all_flags_bits possible_bit_word)
qed

lemma leaf_entry:
  assumes "frame_valid M4KiB fr" "flags_contains ALL_FLAGS flags"
  defines "fl \<equiv> flags_without (flags_union flags PRESENT) HUGE_PAGE"
  shows "frame_containing M4KiB (entry_addr (entry_set (frame_start fr) fl)) = fr"
    and "entry_flags (entry_set (frame_start fr) fl) = fl"
proof -
  have "bit fl n \<Longrightarrow> n < 12 \<or> n = 63" for n
    using flags_within [OF assms(2), of n] by (auto simp: fl_def flags_without_def flags_union_def bit_simps flag_bits)
  note e = entry_set_addr [OF assms(1) this]
  show "frame_containing M4KiB (entry_addr (entry_set (frame_start fr) fl)) = fr"
    using frame_containing_id [of M4KiB "frame_start fr"] assms(1) e(1) by (cases fr) simp
  show "entry_flags (entry_set (frame_start fr) fl) = fl" by (rule e(2))
qed

lemma set_flags_entry:
  "entry_addr (entry_set_flags e flags) = entry_addr e" "entry_flags (entry_set_flags e flags) = flags AND ALL_FLAGS"
proof -
  have "((e AND FRAME_MASK) OR (flags AND ALL_FLAGS)) AND FRAME_MASK = e AND FRAME_MASK"
    by (rule bit_word_eqI) (auto simp: bit_simps frame_mask_bits all_flags_bits)
  then show "entry_addr (entry_set_flags e flags) = entry_addr e" by (simp add: entry_addr_def entry_set_flags_def)
  show "entry_flags (entry_set_flags e flags) = flags AND ALL_FLAGS"
    unfolding entry_flags_def entry_set_flags_def
    by (rule bit_word_eqI) (auto simp: bit_simps frame_mask_bits all_flags_bits)
qed

lemma path4_dom: "i4 page \<in> I \<Longrightarrow> in_dom I (path4 page)" and path4_length: "length (path4 page) = 4"
  by (simp_all add: path4_def in_dom_def)

lemma table_next_cases: "nx = entry_next \<or> nx = offset_next \<Longrightarrow> page_mapper nx (frame_alloc M4KiB) free_frames fa_inv"
  using recursive_table.page_mapper_axioms offset_table.page_mapper_axioms by auto

text \<open>Empty tables with the root in a frame that the allocator does not have.\<close>

definition demo_root :: phys_addr where "demo_root = PhysAddr 0x1000"
definition demo_tables :: pt_mem where "demo_tables = (\<lambda>_ _. 0)"
definition demo_page :: page where "demo_page = Page (VirtAddr 0xFFFF800012345000)"

lemma demo_ok: "pt_ok UNIV (free_frames demo_frames) demo_tables demo_root"
proof -
  have w: "walk demo_tables demo_root p = Some t \<longleftrightarrow> p = [] \<and> t = demo_root" for p t
    by (cases p) (auto simp: demo_tables_def)
  have "0x1000 \<in> frame_bytes M4KiB (Frame demo_root)" by (simp add: frame_bytes_def demo_root_def)
  moreover have "0x1000 \<notin> covers (fa_ranges demo_frames)"
    by (auto simp: demo_frames_eval(2) covers_def cover_def entries_def range_new_def)
  ultimately show ?thesis by (auto simp: pt_ok_def tree_def tables_def w free_frames_def)
qed

lemma demo_page_valid: "page_valid M4KiB demo_page"
  by (simp add: page_valid_def demo_page_def canonical_iff_range virt_is_aligned_def is_aligned_def align_mask_eq mask_eq_exp_minus_1)

lemma demo_frame_valid: "frame_valid M4KiB (Frame (PhysAddr 0x5000))" "frame_valid M2MiB (Frame (PhysAddr 0x40000000))"
  by (simp_all add: frame_valid_def phys_valid_iff phys_is_aligned_def is_aligned_def align_mask_eq mask_eq_exp_minus_1)

lemma demo_flags: "flags_contains ALL_FLAGS 3" by code_simp

text \<open>
  C5. \<open>map\<close> of a 4 KiB page, through the recursive table or the offset table and with frames from the
  frame allocator, where the tables below a set of entries of the root are a tree that shares no frame with the
  allocator, the page lies below one of these entries, and the flags are ones that the code names, implements an update of the translation of the 4 KiB
  pages below these entries: when it succeeds the page did not translate, it translates now to the given frame with the given
  flags and \<open>PRESENT\<close>, without \<open>HUGE_PAGE\<close>, and every other page translates as before; when it fails, every page translates as before.
  (The entries on the way, a large page among them, may have been given more flags by then.) The tables remain such a tree.
\<close>

theorem map_4k_refines:
  assumes "nx = entry_next \<or> nx = offset_next" "fa_inv fa" "pt_ok I (free_frames fa) m root"
    and "page_valid M4KiB page" "i4 page \<in> I" "frame_valid M4KiB fr" "flags_contains ALL_FLAGS flags"
    and "map_4k nx (frame_alloc M4KiB) root page fr flags (m, fa) = (r, (m', fa'))"
  shows "fa_inv fa' \<and> pt_ok I (free_frames fa') m' root \<and>
    (r = Inr () \<longrightarrow> translate_4k nx root m page = None) \<and>
    (\<forall>page'. page_valid M4KiB page' \<and> i4 page' \<in> I \<longrightarrow> translate_4k nx root m' page' =
      (if r = Inr () \<and> page' = page then Some (fr, flags_without (flags_union flags PRESENT) HUGE_PAGE)
       else translate_4k nx root m page'))"
proof -
  note mapper = table_next_cases [OF assms(1)]
  note tr = table_next.translate_mapped [OF page_mapper.axioms(1) [OF mapper]]
  note M = page_mapper.map_4k_ok [OF mapper assms(3,2,5,8)]
  have "translate_4k nx root m' page' =
      (if r = Inr () \<and> page' = page then Some (fr, flags_without (flags_union flags PRESENT) HUGE_PAGE)
       else translate_4k nx root m page')" if p: "page_valid M4KiB page'" "i4 page' \<in> I" for page'
  proof -
    have "path4 page' = path4 page \<longleftrightarrow> page' = page" using path4_inj [OF p(1) assms(4)] by auto
    then show ?thesis using M path4_dom [OF p(2)] path4_length leaf_entry [OF assms(6,7)] by (simp add: tr)
  qed
  then show ?thesis using M by (simp add: tr)
qed

theorem map_4k_refines_witness:
  "(let m' = fst (snd (offset_map (frame_alloc M4KiB) demo_root demo_page (Frame (PhysAddr 0x5000)) 3 (demo_tables, demo_frames)))
    in offset_translate demo_root m' demo_page = Some (Frame (PhysAddr 0x5000), flags_without (flags_union 3 PRESENT) HUGE_PAGE))"
proof -
  let ?c = "offset_map (frame_alloc M4KiB) demo_root demo_page (Frame (PhysAddr 0x5000)) 3 (demo_tables, demo_frames)"
  have "fst ?c = Inr ()" by code_simp
  then have c: "?c = (Inr (), (fst (snd ?c), snd (snd ?c)))" by (simp add: prod_eq_iff)
  show ?thesis
    using map_4k_refines [OF _ demo_frames_inv demo_ok demo_page_valid _ demo_frame_valid(1) demo_flags c [unfolded offset_map_def]] demo_page_valid
    by (simp add: Let_def offset_map_def offset_translate_def)
qed

text \<open>
  C17. \<open>unmap\<close> of a 4 KiB page succeeds exactly when the page is translated, returns the frame of that translation,
  removes it and touches no other page, in both kinds of tables; when it fails, the memory of the tables is unchanged.
  \<open>update_flags\<close> keeps the frame and replaces the flags; without \<open>PRESENT\<close> among the new flags the page is unmapped.
\<close>

theorem unmap_update_4k:
  assumes "nx = entry_next \<or> nx = offset_next" "pt_ok I owned m root" "page_valid M4KiB page" "i4 page \<in> I"
    and "unmap_4k nx root page m = (r, m1)" "update_flags_4k nx root page flags m = (u, m2)"
  shows "pt_ok I owned m1 root \<and> pt_ok I owned m2 root \<and>
    (case translate_4k nx root m page of
       None \<Rightarrow> (\<exists>e. r = Inl e) \<and> (\<exists>e. u = Inl e) \<and> m1 = m \<and> m2 = m
     | Some (f, fl) \<Rightarrow> r = Inr f \<and> u = Inr () \<and>
         (\<forall>page'. page_valid M4KiB page' \<and> i4 page' \<in> I \<longrightarrow>
            translate_4k nx root m1 page' = (if page' = page then None else translate_4k nx root m page') \<and>
            translate_4k nx root m2 page' =
              (if page' = page then if bit flags 0 then Some (f, flags AND ALL_FLAGS) else None
               else translate_4k nx root m page')))"
proof -
  note nx = page_mapper.axioms(1) [OF table_next_cases [OF assms(1)]]
  note tr = table_next.translate_mapped [OF nx]
  note U = table_next.unmap_4k_ok [OF nx assms(2,4,5)]
  note F = table_next.update_flags_4k_ok [OF nx assms(2,4,6)]
  have eq: "path4 page' = path4 page \<longleftrightarrow> page' = page" if "page_valid M4KiB page'" for page'
    using path4_inj [OF that assms(3)] by auto
  show ?thesis
  proof (cases "mapped m root (path4 page)")
    case None
    then show ?thesis using U F by (auto simp: tr split: sum.splits)
  next
    case (Some e)
    then show ?thesis using U F by (auto simp: tr eq path4_dom path4_length set_flags_entry split: sum.splits)
  qed
qed

theorem unmap_update_4k_witness:
  "(let m = fst (snd (map_4k entry_next (frame_alloc M4KiB) demo_root demo_page (Frame (PhysAddr 0x5000)) 3 (demo_tables, demo_frames)))
    in fst (unmap_4k entry_next demo_root demo_page m) = Inr (Frame (PhysAddr 0x5000)) \<and>
       translate_4k entry_next demo_root (snd (unmap_4k entry_next demo_root demo_page m)) demo_page = None)"
proof -
  let ?c = "map_4k entry_next (frame_alloc M4KiB) demo_root demo_page (Frame (PhysAddr 0x5000)) 3 (demo_tables, demo_frames)"
  let ?m = "fst (snd ?c)"
  have t: "translate_4k entry_next demo_root ?m demo_page = Some (Frame (PhysAddr 0x5000), 3)" by code_simp
  have c: "?c = (fst ?c, (?m, snd (snd ?c)))" by simp
  have "pt_ok UNIV (free_frames (snd (snd ?c))) ?m demo_root"
    using recursive_table.map_4k_ok [OF demo_ok demo_frames_inv UNIV_I c] by blast
  then show ?thesis
    using unmap_update_4k [OF disjI1 [OF refl] _ demo_page_valid UNIV_I prod.collapse [symmetric] prod.collapse [symmetric]]
      demo_page_valid t unfolding Let_def by fastforce
qed

text \<open>
  The recursive mapping: the processor maps the table whose virtual page has the indices \<open>r, a, b, c\<close>; the entry number \<open>d\<close> of that
  table lies 8 d bytes into that page, and from the address of that entry \<open>next_unchecked\<close> computes the start of the page with the indices
  \<open>a, b, c, d\<close>, one level further down.
\<close>

theorem next_unchecked_shift:
  "next_unchecked (virt_from_pt_indices r a b c (push_bit 3 d)) = virt_from_pt_indices a b c d 0"
proof -
  let ?x = "virt_as_u64 (virt_from_pt_indices r a b c (push_bit 3 d))"
    and ?y = "virt_as_u64 (virt_from_pt_indices a b c d 0)"
  have "bit (push_bit 9 ?x) n \<longleftrightarrow> bit ?y n" if n: "n < 48" for n
  proof -
    consider "n < 9" | "9 \<le> n" "n < 12" | "12 \<le> n" "n < 21" | "21 \<le> n" "n < 30" | "30 \<le> n" "n < 39" | "39 \<le> n"
      by linarith
    then show ?thesis
      by cases (use n in \<open>auto simp: bit_push_bit_iff bit_from_pt_indices\<close>)
  qed
  then have "canonicalize (push_bit 9 ?x) = canonicalize ?y" by (rule canonicalize_cong)
  also have "\<dots> = ?y" by (simp add: virt_from_pt_indices_def virt_new_extend_def)
  finally show ?thesis by (simp add: next_unchecked_def virt_new_extend_def)
qed

section \<open>Addresses in pages of any size\<close>

text \<open>The flags of the entry of a page of size \<open>S\<close>.\<close>

definition leaf_flags :: "mem_size \<Rightarrow> pt_flags \<Rightarrow> pt_flags" where
  "leaf_flags S flags =
     (case S of M4KiB \<Rightarrow> flags_without (flags_union flags PRESENT) HUGE_PAGE
      | _ \<Rightarrow> flags_union (flags_union flags PRESENT) HUGE_PAGE)"

definition upper_path :: "mem_size \<Rightarrow> page \<Rightarrow> nat list" where
  "upper_path S page =
     (case S of M4KiB \<Rightarrow> [i4 page, i3 page, i2 page] | M2MiB \<Rightarrow> [i4 page, i3 page] | M1GiB \<Rightarrow> [i4 page])"

definition last_index :: "mem_size \<Rightarrow> page \<Rightarrow> nat" where
  "last_index S page = (case S of M4KiB \<Rightarrow> i1 page | M2MiB \<Rightarrow> i2 page | M1GiB \<Rightarrow> i3 page)"

lemma bit_leaf_flags: "bit (leaf_flags S flags) n \<longleftrightarrow>
    (n = 0 \<or> bit flags n \<and> n \<noteq> 7 \<or> n = 7 \<and> S \<noteq> M4KiB)"
  using bit_imp_le_length [of flags n]
  by (cases S) (auto simp: leaf_flags_def flags_union_def flags_without_def bit_simps flag_bits)

lemma walk_keep:
  assumes "pt_ok I owned m root" "in_dom I (p @ [i])" "length p \<le> 3" "walk m root p = Some t"
  shows "walk (pt_write m t i e) root p = Some t"
proof -
  have "walk (pt_write m t i e) root p = walk m root p"
  proof (rule walk_write_other [where I = I and i = i])
    show "tree I m root" using assms(1) by (simp add: pt_ok_def)
  qed (use assms in_dom_snoc in \<open>auto simp: pt_write_def prefix_def\<close>)
  then show ?thesis using assms(4) by simp
qed

lemma map_leaf_entry:
  assumes "pt_ok I owned m root" "in_dom I (p @ [i])" "length p \<le> 3" "walk m root p = Some t"
    and "map_leaf S t i fr fl (m, a) = (Inr (), (m', a'))"
  shows "\<exists>t. walk m' root p = Some t \<and> m' t i = entry_set (frame_start fr) fl"
proof -
  have "m' = pt_write m t i (entry_set (frame_start fr) fl)" using assms(5) by (auto simp: map_leaf_def split: if_splits)
  then show ?thesis using walk_keep [OF assms(1-4)] by (simp add: pt_write_def)
qed

lemma create_go:
  assumes "pt_ok I (free_frames fa) m root" "fa_inv fa"
    and "and_then (next_or_create entry_next (frame_alloc M4KiB) t i (parent_flags f) (m, fa)) k = (Inr x, (m', fa'))"
    and "walk m root p = Some t" "in_dom I (p @ [i])" "length p \<le> 2"
  obtains t1 m1 fa1 where "pt_ok I (free_frames fa1) m1 root" "fa_inv fa1" "k t1 (m1, fa1) = (Inr x, (m', fa'))"
    "walk m1 root (p @ [i]) = Some t1"
  by (rule recursive_table.create_then [OF assms(1,2,5,6,4,3)]) (use that in auto)

lemma map_page_entry:
  assumes ok: "pt_ok I (free_frames fa) m root" "fa_inv fa" and page: "i4 page \<in> I"
    and call: "map_page S (frame_alloc M4KiB) root page fr flags (m, fa) = (Inr (), (m', fa'))"
  shows "\<exists>t. walk m' root (upper_path S page) = Some t \<and>
    m' t (last_index S page) = entry_set (frame_start fr) (leaf_flags S flags)"
proof -
  have d: "in_dom I ([] @ [i4 page])" "in_dom I ([i4 page] @ [i3 page])" "in_dom I ([i4 page, i3 page] @ [i2 page])"
    "in_dom I ([i4 page, i3 page, i2 page] @ [i1 page])" using page by (simp_all add: in_dom_def)
  have w: "walk m root [] = Some root" by simp
  show ?thesis
  proof (cases S)
    case M1GiB
    note c = call [unfolded M1GiB map_page_def mem_size.case map_1g_def]
    show ?thesis
    proof (rule create_go [OF ok c w d(1)], simp)
      fix t3 m1 a1
      assume 1: "pt_ok I (free_frames a1) m1 root" "walk m1 root ([] @ [i4 page]) = Some t3"
        "map_leaf M1GiB t3 (i3 page) fr (flags_union (flags_union flags PRESENT) HUGE_PAGE) (m1, a1) = (Inr (), (m', fa'))"
      show ?thesis using map_leaf_entry [OF 1(1) _ _ 1(2,3)] d(2) M1GiB
        by (simp add: upper_path_def last_index_def leaf_flags_def del: walk.simps)
    qed
  next
    case M2MiB
    note c = call [unfolded M2MiB map_page_def mem_size.case map_2m_def Let_def]
    show ?thesis
    proof (rule create_go [OF ok c w d(1)], simp)
      fix t3 m1 a1
      assume 1: "pt_ok I (free_frames a1) m1 root" "fa_inv a1"
        "and_then (next_or_create entry_next (frame_alloc M4KiB) t3 (i3 page) (parent_flags flags) (m1, a1))
          (\<lambda>p2. map_leaf M2MiB p2 (i2 page) fr (flags_union (flags_union flags PRESENT) HUGE_PAGE)) = (Inr (), (m', fa'))"
        "walk m1 root ([] @ [i4 page]) = Some t3"
      show ?thesis
      proof (rule create_go [OF 1(1,2,3) 1(4) [unfolded append_Nil] d(2)], simp)
        fix t2 m2 a2
        assume 2: "pt_ok I (free_frames a2) m2 root" "walk m2 root ([i4 page] @ [i3 page]) = Some t2"
          "map_leaf M2MiB t2 (i2 page) fr (flags_union (flags_union flags PRESENT) HUGE_PAGE) (m2, a2) = (Inr (), (m', fa'))"
        show ?thesis using map_leaf_entry [OF 2(1) _ _ 2(2,3)] d(3) M2MiB
          by (simp add: upper_path_def last_index_def leaf_flags_def del: walk.simps)
      qed
    qed
  next
    case M4KiB
    note mk = recursive_table.map_4k_ok [OF ok page call [unfolded M4KiB map_page_def mem_size.case]]
    have "mapped m' root (path4 page) = Some (entry_set (frame_start fr) (leaf_flags S flags))"
      using mk path4_dom [OF page] path4_length M4KiB by (simp add: leaf_flags_def)
    then show ?thesis using M4KiB
      by (auto simp: mapped_def path4_def upper_path_def last_index_def simp del: walk.simps split: option.splits if_splits)
  qed
qed

text \<open>What the address translation finds at the end of the walk.\<close>

lemma page_indices:
  "size_bits S \<le> 39 \<Longrightarrow> page_p4_index (page_containing S addr) = p4_index addr"
  "size_bits S \<le> 30 \<Longrightarrow> page_p3_index (page_containing S addr) = p3_index addr"
  "size_bits S \<le> 21 \<Longrightarrow> page_p2_index (page_containing S addr) = p2_index addr"
  "size_bits S \<le> 12 \<Longrightarrow> page_p1_index (page_containing S addr) = p1_index addr"
proof -
  have ix: "drop_bit k (align_down (ALIGNMENT S) x) = drop_bit k x" if "size_bits S \<le> k" for k x
    by (rule bit_word_eqI, use that in \<open>auto simp: align_down_def align_mask_eq bit_simps\<close>)
      (drule bit_imp_le_length, simp)
  note defs = page_containing_def virt_aligned_down_def page_p4_index_def page_p3_index_def page_p2_index_def
    page_p1_index_def p4_index_def p3_index_def p2_index_def p1_index_def
  show "size_bits S \<le> 39 \<Longrightarrow> page_p4_index (page_containing S addr) = p4_index addr"
    "size_bits S \<le> 30 \<Longrightarrow> page_p3_index (page_containing S addr) = p3_index addr"
    "size_bits S \<le> 21 \<Longrightarrow> page_p2_index (page_containing S addr) = p2_index addr"
    "size_bits S \<le> 12 \<Longrightarrow> page_p1_index (page_containing S addr) = p1_index addr"
    by (simp_all add: defs ix)
qed

lemma translate_addr_leaf:
  assumes w: "walk m root (upper_path S (page_containing S addr)) = Some t"
    and e: "m t (last_index S (page_containing S addr)) = e" "bit e 0" "bit e 7 \<longleftrightarrow> S \<noteq> M4KiB"
  shows "translate_addr root m addr = Some (entry_target e addr S)"
proof -
  have nx: "entry_next e = Inr t" "\<not> bit e 7" if "next_table e = Some t" for e t
    using recursive_table.nx_table that by (auto simp: next_table_def entry_bits split: if_splits)
  show ?thesis
  proof (cases S)
    case M4KiB
    then show ?thesis using w e
      by (auto simp: translate_addr_def upper_path_def last_index_def page_indices Let_def nx entry_bits(1,2)
          split: option.splits)
  next
    case M2MiB
    then show ?thesis using w e
      by (auto simp: translate_addr_def upper_path_def last_index_def page_indices Let_def nx entry_bits(1,2)
          split: option.splits)
  next
    case M1GiB
    then show ?thesis using w e
      by (auto simp: translate_addr_def upper_path_def last_index_def page_indices Let_def nx entry_bits(1,2)
          split: option.splits)
  qed
qed

lemma aligned_room: "2 ^ k dvd x \<Longrightarrow> x < 2 ^ n \<Longrightarrow> k \<le> n \<Longrightarrow> x + 2 ^ k \<le> 2 ^ n" for x :: nat
proof -
  assume "2 ^ k dvd x" "x < 2 ^ n" "k \<le> n"
  then obtain q where q: "x = 2 ^ k * q" by (auto elim: dvdE)
  have n: "(2 :: nat) ^ n = 2 ^ k * 2 ^ (n - k)" using \<open>k \<le> n\<close> by (simp flip: power_add)
  then have "q + 1 \<le> 2 ^ (n - k)" using \<open>x < 2 ^ n\<close> q by simp
  then have "2 ^ k * (q + 1) \<le> (2 :: nat) ^ k * 2 ^ (n - k)" by (rule mult_le_mono2)
  then show ?thesis unfolding n q by simp
qed

lemma entry_target_frame:
  assumes f: "frame_valid S fr" and fl: "\<And>n. bit fl n \<Longrightarrow> n < 12 \<or> n = 63"
  shows "entry_target (entry_set (frame_start fr) fl) addr S =
    (PhysAddr (phys_as_u64 (frame_start fr) + virt_as_u64 addr mod SIZE S), fl)"
proof -
  let ?a = "phys_as_u64 (frame_start fr)" and ?o = "virt_as_u64 addr mod SIZE S"
  have al: "2 ^ size_bits S dvd unat ?a" and lt: "unat ?a < 2 ^ 52"
    using f by (simp_all add: frame_valid_def phys_is_aligned_def is_aligned_iff_dvd phys_valid_iff)
  have "(2 :: nat) ^ 12 dvd 2 ^ size_bits S" by (rule le_imp_power_dvd) (cases S; simp)
  then have "frame_valid M4KiB fr"
    using f dvd_trans [OF _ al] by (simp add: frame_valid_def phys_is_aligned_def is_aligned_iff_dvd)
  note e = entry_set_addr [OF this fl]
  have o: "unat ?o < 2 ^ size_bits S" by (simp add: unat_mod unat_SIZE)
  have "unat ?a + 2 ^ size_bits S \<le> 2 ^ 52" by (rule aligned_room [OF al lt size_bits_small(2)])
  with o have "unat ?a + unat ?o < 2 ^ 52" by simp
  moreover from this have "unat (?a + ?o) = unat ?a + unat ?o" by (intro unat_add_lem [THEN iffD1]) simp
  ultimately have "unat (?a + ?o) < 2 ^ 52" by simp
  then show ?thesis using e by (simp add: entry_target_def phys_new_truncate_small)
qed

text \<open>
  C18. After a successful \<open>map\<close> of a page of any of the three sizes, \<open>translate_addr\<close> sends every address of that page to the
  byte at the same offset of the frame, with the flags of the mapping.
\<close>

theorem map_page_translate_addr:
  assumes "fa_inv fa" "pt_ok I (free_frames fa) m root" "i4 (page_containing S addr) \<in> I"
    and "frame_valid S fr" "flags_contains ALL_FLAGS flags"
    and "map_page S (frame_alloc M4KiB) root (page_containing S addr) fr flags (m, fa) = (Inr (), (m', fa'))"
  shows "translate_addr root m' addr =
    Some (PhysAddr (phys_as_u64 (frame_start fr) + virt_as_u64 addr mod SIZE S), leaf_flags S flags)"
proof -
  obtain t where t: "walk m' root (upper_path S (page_containing S addr)) = Some t"
    "m' t (last_index S (page_containing S addr)) = entry_set (frame_start fr) (leaf_flags S flags)"
    using map_page_entry [OF assms(2,1,3,6)] by blast
  have fl: "bit (leaf_flags S flags) n \<Longrightarrow> n < 12 \<or> n = 63" for n
    using flags_within [OF assms(5), of n] by (auto simp: bit_leaf_flags)
  have "entry_target (entry_set (frame_start fr) (leaf_flags S flags)) addr S =
    (PhysAddr (phys_as_u64 (frame_start fr) + virt_as_u64 addr mod SIZE S), leaf_flags S flags)"
    by (rule entry_target_frame [OF assms(4)]) (erule fl)
  then show ?thesis using translate_addr_leaf [OF t] by (simp add: bit_entry_set bit_leaf_flags)
qed

theorem map_page_translate_addr_witness:
  "(let m' = fst (snd (map_page M2MiB (frame_alloc M4KiB) demo_root (page_containing M2MiB (VirtAddr 0x12345678))
       (Frame (PhysAddr 0x40000000)) 3 (demo_tables, demo_frames)))
    in translate_addr demo_root m' (VirtAddr 0x12345678) = Some (PhysAddr 0x40145678, leaf_flags M2MiB 3))"
proof -
  let ?c = "map_page M2MiB (frame_alloc M4KiB) demo_root (page_containing M2MiB (VirtAddr 0x12345678))
       (Frame (PhysAddr 0x40000000)) 3 (demo_tables, demo_frames)"
  have "fst ?c = Inr ()" by code_simp
  then have c: "?c = (Inr (), (fst (snd ?c), snd (snd ?c)))" by (simp add: prod_eq_iff)
  have "(0x40000000 :: u64) + 0x12345678 mod SIZE M2MiB = 0x40145678" by code_simp
  then show ?thesis
    using map_page_translate_addr [OF demo_frames_inv demo_ok _ demo_frame_valid(2) demo_flags c] by (simp add: Let_def)
qed

text \<open>
  C35. Mapping below an entry that already holds a large page fails, with \<open>UnexpectedLargePage\<close> in the recursive tables and with
  \<open>NotMapped\<close> in the offset tables, but the entry has been changed: the large page keeps its frame and has become
  writable, and accessible to user code when the failed request was for a user page.
\<close>

theorem next_or_create_large:
  assumes "entry_is_present (m t i)" "entry_is_large (m t i)"
  shows "\<exists>e. next_or_create entry_next alloc t i (parent_flags flags) (m, a) = (Inl UnexpectedLargePage, (pt_write m t i e, a)) \<and>
    offset_next_or_create alloc t i (parent_flags flags) (m, a) = (Inl NotMapped, (pt_write m t i e, a)) \<and>
    entry_addr e = entry_addr (m t i) \<and> entry_is_large e \<and> entry_is_writable e \<and>
    (entry_is_user_accessible e \<longleftrightarrow> entry_is_user_accessible (m t i) \<or> flags_contains flags USER_ACCESSIBLE)"
proof -
  let ?e = "entry_add_flags (m t i) (parent_flags flags)"
  have "((m t i) OR parent_flags flags) AND FRAME_MASK = m t i AND FRAME_MASK"
    by (rule bit_word_eqI) (auto simp: bit_simps frame_mask_bits parent_flags_bits)
  then have "entry_addr ?e = entry_addr (m t i)" by (simp add: entry_addr_def entry_add_flags_def)
  moreover have "flags_contains flags USER_ACCESSIBLE \<longleftrightarrow> bit flags 2"
    using flags_contains_bit [of 2 flags] by (simp only: USER_ACCESSIBLE_def)
  moreover have "bit ?e n \<longleftrightarrow> bit (m t i) n \<or> n = 0 \<or> n = 1 \<or> (n = 2 \<and> bit flags 2)" for n
    by (simp add: entry_add_flags_def bit_or_iff parent_flags_bits)
  ultimately show ?thesis using assms
    by (intro exI [of _ ?e]) (simp add: offset_next_or_create_def next_or_create_def Let_def entry_next_def offset_next_def next_table_def
        entry_bits parent_flags_not_large)
qed

theorem next_or_create_large_witness:
  "\<exists>m'. next_or_create entry_next (frame_alloc M4KiB) demo_root 0 (parent_flags 4) ((\<lambda>_ _. 0x81), demo_frames) =
      (Inl UnexpectedLargePage, (m', demo_frames)) \<and> entry_is_user_accessible (m' demo_root 0)"
proof -
  have "entry_is_present 0x81" "entry_is_large 0x81" "flags_contains 4 USER_ACCESSIBLE" by code_simp+
  then show ?thesis
    using next_or_create_large [of "\<lambda>_ _. 0x81" demo_root 0 "frame_alloc M4KiB" 4 demo_frames]
    by (fastforce simp: pt_write_def)
qed

end
