(* ===== verification/Heap_List.thy ===== *)
theory Heap_List
  imports Prelude Allocator "HOL-Library.Code_Target_Nat"
begin

text \<open>
  What the heap allocators of heaperion share: the memory that holds their intrusive free lists,
  the list such a chain of \<open>next\<close> pointers represents, and heaperion/src/utils.rs and
  heaperion/src/error.rs. Pointers and \<open>usize\<close> values are natural numbers below 2^64; the memory
  maps an address to the \<open>next\<close> field stored there (\<open>None\<close> is the null pointer). A walk along a
  chain that never ends has no result, which is \<open>None\<close>.
\<close>

unbundle bit_operations_syntax

datatype heap_error =
    OutOfMemory | InvalidAlignment | InvalidSize | InvalidLayout | InvalidPointer | DoubleFree

section \<open>Sizes and orders\<close>

text \<open>
  \<open>bit_length x\<close> is \<open>usize::BITS - x.leading_zeros()\<close>. \<open>next_power_of_two\<close> wraps to 0 in a release
  build when the result does not fit.
\<close>

fun bit_length :: "nat \<Rightarrow> nat" where
  "bit_length n = (if n = 0 then 0 else Suc (bit_length (n div 2)))"

declare bit_length.simps [simp del]

definition leading_zeros :: "nat \<Rightarrow> nat" where
  "leading_zeros n = 64 - bit_length n"

definition next_power_of_two :: "nat \<Rightarrow> nat" where
  "next_power_of_two n = (if n \<le> 1 then 1 else 2 ^ bit_length (n - 1) mod 2 ^ 64)"

definition usize_align_up :: "nat \<Rightarrow> nat \<Rightarrow> nat" where
  "usize_align_up addr al =
     unat ((of_nat addr + of_nat al - 1) AND NOT (of_nat al - 1) :: u64)"

text \<open>Subtraction of \<open>usize\<close> values, which wraps around in a release build.\<close>

definition usize_sub :: "nat \<Rightarrow> nat \<Rightarrow> nat" where
  "usize_sub a b = (a + (2 ^ 64 - b)) mod 2 ^ 64"

definition size_to_order :: "nat \<Rightarrow> nat" where
  "size_to_order sz =
     (if sz \<le> 1 then 0
      else unat ((64 :: u32) - of_nat (leading_zeros (next_power_of_two sz)) - 1))"

definition order_to_size :: "nat \<Rightarrow> nat" where
  "order_to_size order = 2 ^ order"

text \<open>
  \<open>core::alloc::Layout\<close>: a size and a power-of-two alignment, with the bounds its constructor
  enforces.
\<close>

record layout =
  lsize :: nat
  lalign :: nat

definition layout_ok :: "layout \<Rightarrow> bool" where
  "layout_ok l \<longleftrightarrow> lalign l = 2 ^ (bit_length (lalign l) - 1) \<and> lsize l + lalign l \<le> 2 ^ 63"

text \<open>
  What the language guarantees of a region of memory that exists: at most \<open>isize::MAX\<close> bytes, and
  its end does not wrap around.
\<close>

definition valid_region :: "nat \<Rightarrow> nat \<Rightarrow> bool" where
  "valid_region ptr sz \<longleftrightarrow> sz < 2 ^ 63 \<and> ptr + sz \<le> 2 ^ 64"

lemma bit_length_bounds: "0 < n \<Longrightarrow> 2 ^ (bit_length n - 1) \<le> n \<and> n < 2 ^ bit_length n \<and> 0 < bit_length n"
proof (induction n rule: bit_length.induct)
  case (1 n)
  show ?case
  proof (cases "n div 2 = 0")
    case True
    with 1 show ?thesis by (simp add: bit_length.simps [of n] bit_length.simps [of 0])
  next
    case False
    let ?b = "bit_length (n div 2)"
    have IH: "2 ^ (?b - 1) \<le> n div 2 \<and> n div 2 < 2 ^ ?b \<and> 0 < ?b" using 1 False by simp
    have "bit_length n = Suc ?b" using 1(2) by (simp add: bit_length.simps [of n])
    moreover have "2 ^ ?b = 2 * (2 :: nat) ^ (?b - 1)" using IH by (simp flip: power_Suc)
    ultimately show ?thesis using IH by simp linarith
  qed
qed

lemma bit_length_pow2 [simp]: "bit_length (2 ^ k) = Suc k"
proof -
  have B: "2 ^ (bit_length (2 ^ k) - 1) \<le> (2 :: nat) ^ k" "(2 :: nat) ^ k < 2 ^ bit_length (2 ^ k)"
    "0 < bit_length (2 ^ k)"
    using bit_length_bounds [of "2 ^ k"] by simp_all
  from B(1) have "bit_length (2 ^ k) - 1 \<le> k" by (simp add: power_increasing_iff)
  moreover from B(2) have "k < bit_length (2 ^ k)" by (simp add: power_strict_increasing_iff)
  ultimately show ?thesis by simp
qed

lemma bit_length_mono_pow: "0 < n \<Longrightarrow> n \<le> 2 ^ k \<Longrightarrow> bit_length (n - 1) \<le> k"
proof (cases "n = 1")
  case False
  assume n: "0 < n" "n \<le> 2 ^ k"
  then have "2 ^ (bit_length (n - 1) - 1) \<le> n - 1" "0 < bit_length (n - 1)"
    using bit_length_bounds [of "n - 1"] False by simp_all
  then have "(2 :: nat) ^ (bit_length (n - 1) - 1) < 2 ^ k" using n by linarith
  then show ?thesis by (simp add: power_strict_increasing_iff)
qed (simp add: bit_length.simps [of 0])

text \<open>The next power of two is the least one that is large enough.\<close>

lemma next_power_of_two_props:
  assumes "n \<le> 2 ^ 63"
  obtains k where "k \<le> 63" "next_power_of_two n = 2 ^ k" "n \<le> 2 ^ k" "\<And>j. n \<le> 2 ^ j \<Longrightarrow> k \<le> j"
proof (cases "n \<le> 1")
  case True
  show ?thesis by (rule that [of 0]) (use True in \<open>auto simp: next_power_of_two_def\<close>)
next
  case False
  let ?k = "bit_length (n - 1)"
  have k: "?k \<le> 63" using bit_length_mono_pow [of n 63] assms False by simp
  then have "(2 :: nat) ^ ?k < 2 ^ 64" by (intro power_strict_increasing) auto
  then have "next_power_of_two n = 2 ^ ?k" using False by (simp add: next_power_of_two_def)
  moreover have "n \<le> 2 ^ ?k" using bit_length_bounds [of "n - 1"] False by linarith
  moreover have "?k \<le> j" if "n \<le> 2 ^ j" for j using bit_length_mono_pow [OF _ that] False by simp
  ultimately show ?thesis using that k by blast
qed

lemma next_power_of_two_pow2 [simp]: "k \<le> 63 \<Longrightarrow> next_power_of_two (2 ^ k) = 2 ^ k"
proof -
  assume k: "k \<le> 63"
  then have "(2 :: nat) ^ k \<le> 2 ^ 63" by (intro power_increasing) auto
  then obtain j where j: "next_power_of_two (2 ^ k) = 2 ^ j" "(2 :: nat) ^ k \<le> 2 ^ j"
    "\<And>i. (2 :: nat) ^ k \<le> 2 ^ i \<Longrightarrow> j \<le> i"
    using next_power_of_two_props by metis
  from j(2) have "k \<le> j" by (simp add: power_increasing_iff)
  moreover have "j \<le> k" by (rule j(3)) simp
  ultimately show ?thesis using j(1) by simp
qed

lemma size_to_order_pow2 [simp]: "k \<le> 63 \<Longrightarrow> size_to_order (2 ^ k) = k"
proof (cases k)
  case (Suc j)
  assume k: "k \<le> 63"
  have "of_nat (leading_zeros (2 ^ k)) = (of_nat (63 - k) :: u32)" by (simp add: leading_zeros_def)
  then have "(64 :: u32) - of_nat (leading_zeros (2 ^ k)) - 1 = of_nat k"
    using k by (simp add: of_nat_diff)
  moreover have "unat (of_nat k :: u32) = k" using k by (simp add: unat_of_nat)
  moreover have "(2 :: nat) ^ k > 1" using Suc by (intro one_less_power) auto
  ultimately show ?thesis using k by (simp add: size_to_order_def not_le)
qed (simp add: size_to_order_def)

lemma usize_sub_eq: "b \<le> a \<Longrightarrow> a < 2 ^ 64 \<Longrightarrow> usize_sub a b = a - b"
proof -
  assume "b \<le> a" "a < 2 ^ 64"
  then have "a + (2 ^ 64 - b) = a - b + 2 ^ 64" by simp
  then show ?thesis using \<open>a < 2 ^ 64\<close> by (simp only: usize_sub_def mod_add_self2) simp
qed

lemma usize_align_up_pow2:
  assumes "addr + 2 ^ k \<le> 2 ^ 64" "k < 64"
  shows "usize_align_up addr (2 ^ k) = 2 ^ k * ((addr + (2 ^ k - 1)) div 2 ^ k)"
proof -
  have m: "of_nat (2 ^ k) - 1 = (mask k :: u64)" by (simp add: mask_eq_exp_minus_1)
  have "(1 :: nat) \<le> 2 ^ k" by simp
  then have "unat (of_nat (addr + (2 ^ k - 1)) :: u64) = addr + (2 ^ k - 1)"
    using assms by (subst unat_of_nat) (simp del: of_nat_add)
  moreover have "of_nat addr + of_nat (2 ^ k) - 1 = (of_nat (addr + (2 ^ k - 1)) :: u64)"
    by (simp only: of_nat_add of_nat_diff [OF \<open>1 \<le> 2 ^ k\<close>]) simp
  ultimately show ?thesis
    unfolding usize_align_up_def m by (simp only: unat_and_not_mask_mult)
qed

lemma usize_align_up_props:
  assumes "addr + 2 ^ k \<le> 2 ^ 64" "k < 64"
  shows "2 ^ k dvd usize_align_up addr (2 ^ k)" "addr \<le> usize_align_up addr (2 ^ k)"
    "usize_align_up addr (2 ^ k) < addr + 2 ^ k"
proof -
  define n :: nat where "n = 2 ^ k"
  define d where "d = (addr + (n - 1)) div n"
  have n: "0 < n" by (simp add: n_def)
  have u: "usize_align_up addr (2 ^ k) = n * d"
    using usize_align_up_pow2 [OF assms] by (simp add: n_def d_def)
  have "addr + (n - 1) = n * d + (addr + (n - 1)) mod n" "(addr + (n - 1)) mod n < n"
    using n by (simp_all add: d_def)
  then have "addr \<le> n * d" "n * d < addr + n" using n by linarith+
  then show "2 ^ k dvd usize_align_up addr (2 ^ k)" "addr \<le> usize_align_up addr (2 ^ k)"
    "usize_align_up addr (2 ^ k) < addr + 2 ^ k"
    unfolding u unfolding n_def [symmetric] by simp_all
qed

section \<open>Chains\<close>

type_synonym memory = "nat \<Rightarrow> nat option"

fun chain :: "memory \<Rightarrow> nat option \<Rightarrow> nat list \<Rightarrow> bool" where
  "chain m cur [] \<longleftrightarrow> cur = None"
| "chain m cur (x # xs) \<longleftrightarrow> cur = Some x \<and> chain m (m x) xs"

text \<open>The loop of \<open>is_block_free\<close>: does the chain from \<open>cur\<close> contain \<open>p\<close>?\<close>

partial_function (option) chain_search :: "memory \<Rightarrow> nat option \<Rightarrow> nat \<Rightarrow> bool option" where
  "chain_search m cur p =
     (case cur of
        None \<Rightarrow> Some False
      | Some b \<Rightarrow> if b = p then Some True else chain_search m (m b) p)"

text \<open>
  The loop of \<open>remove_block_from_free_list\<close>: the memory and the head of the chain after unlinking
  \<open>p\<close>.
\<close>

partial_function (option) chain_remove ::
  "memory \<Rightarrow> nat option \<Rightarrow> nat option \<Rightarrow> nat option \<Rightarrow> nat \<Rightarrow> (memory \<times> nat option) option" where
  "chain_remove m head prev cur p =
     (case cur of
        None \<Rightarrow> Some (m, head)
      | Some b \<Rightarrow>
          if b = p
          then (case prev of
                  Some q \<Rightarrow> Some (m(q := m b), head)
                | None \<Rightarrow> Some (m, m b))
          else chain_remove m head (Some b) (m b) p)"

declare chain_search.simps [code] chain_remove.simps [code]

lemma chain_cong: "chain m cur xs \<Longrightarrow> (\<And>x. x \<in> set xs \<Longrightarrow> m' x = m x) \<Longrightarrow> chain m' cur xs"
  by (induction xs arbitrary: cur) auto

lemma chain_upd: "x \<notin> set xs \<Longrightarrow> chain (m(x := v)) cur xs = chain m cur xs"
  by (induction xs arbitrary: cur) auto

lemma chain_unique: "chain m cur xs \<Longrightarrow> chain m cur ys \<Longrightarrow> xs = ys"
proof (induction xs arbitrary: cur ys)
  case Nil
  then show ?case by (cases ys) auto
next
  case (Cons x xs)
  then show ?case by (cases ys) auto
qed

lemma chain_search: "chain m cur xs \<Longrightarrow> chain_search m cur p = Some (p \<in> set xs)"
proof (induction xs arbitrary: cur)
  case Nil
  then show ?case by (subst chain_search.simps) simp
next
  case (Cons x xs)
  then show ?case by (subst chain_search.simps) auto
qed

lemma chain_remove_tail:
  assumes "chain m (Some q) (q # xs)" "distinct (q # xs)" "p \<noteq> q"
  shows "\<exists>m'. chain_remove m head (Some q) (m q) p = Some (m', head) \<and> chain m' (Some q) (q # remove1 p xs)
    \<and> (\<forall>y. y \<notin> set (q # xs) \<longrightarrow> m' y = m y)"
  using assms
proof (induction xs arbitrary: q)
  case Nil
  then show ?case by (subst chain_remove.simps) auto
next
  case (Cons x xs)
  show ?case
  proof (cases "x = p")
    case True
    have "chain m (m x) xs" using Cons.prems(1) by simp
    then have "chain (m(q := m x)) (m x) xs" using Cons.prems(2) by (simp add: chain_upd)
    then show ?thesis
      using Cons.prems True by (subst chain_remove.simps) auto
  next
    case False
    have c: "chain m (Some x) (x # xs)" "distinct (x # xs)" "m q = Some x" using Cons.prems by auto
    obtain m' where m': "chain_remove m head (Some x) (m x) p = Some (m', head)"
      "chain m' (Some x) (x # remove1 p xs)" "\<forall>y. y \<notin> set (x # xs) \<longrightarrow> m' y = m y"
      using Cons.IH [OF c(1,2)] False by blast
    have "chain_remove m head (Some q) (m q) p = Some (m', head)"
      using m'(1) c(3) False by (subst chain_remove.simps) simp
    moreover have "m' q = Some x" using m'(3) c(3) Cons.prems(2) by auto
    ultimately show ?thesis using m' False by auto
  qed
qed

lemma chain_remove:
  assumes "chain m cur xs" "distinct xs"
  shows "\<exists>m' head. chain_remove m cur None cur p = Some (m', head) \<and> chain m' head (remove1 p xs)
    \<and> (\<forall>y. y \<notin> set xs \<longrightarrow> m' y = m y)"
proof (cases xs)
  case Nil
  with assms show ?thesis by (subst chain_remove.simps) auto
next
  case (Cons x xs')
  show ?thesis
  proof (cases "x = p")
    case True
    with assms Cons show ?thesis by (subst chain_remove.simps) auto
  next
    case False
    have x: "chain m (Some x) (x # xs')" "distinct (x # xs')" "cur = Some x" using assms Cons by auto
    obtain m' where "chain_remove m (Some x) (Some x) (m x) p = Some (m', Some x)"
      "chain m' (Some x) (x # remove1 p xs')" "\<forall>y. y \<notin> set (x # xs') \<longrightarrow> m' y = m y"
      using chain_remove_tail [OF x(1,2), of p "Some x"] False by blast
    moreover from this(1) have "chain_remove m cur None cur p = Some (m', Some x)"
      using x(3) False by (subst chain_remove.simps) simp
    ultimately show ?thesis using False Cons by auto
  qed
qed

end
