(* ===== verification/Tiling.thy ===== *)
theory Tiling
  imports Heap_List
begin

text \<open>
  The arithmetic of a binary buddy system. A block \<open>(p, k)\<close> is the address interval of length
  \<open>2 ^ k\<close> at \<open>p\<close>; a set of blocks tiles an arena of \<open>2 ^ mx\<close> bytes when the blocks are aligned
  relative to its start, disjoint, and cover it.
\<close>

unbundle bit_operations_syntax

definition span :: "nat \<times> nat \<Rightarrow> nat set" where
  "span b = {fst b..<fst b + 2 ^ snd b}"

definition fits :: "nat \<Rightarrow> nat \<Rightarrow> nat \<times> nat \<Rightarrow> bool" where
  "fits st mx b \<longleftrightarrow> snd b \<le> mx \<and> st \<le> fst b \<and> 2 ^ snd b dvd fst b - st"

definition tiles :: "nat \<Rightarrow> nat \<Rightarrow> (nat \<times> nat) set \<Rightarrow> bool" where
  "tiles st mx B \<longleftrightarrow> (\<forall>b \<in> B. fits st mx b) \<and>
     (\<forall>b \<in> B. \<forall>c \<in> B. b \<noteq> c \<longrightarrow> span b \<inter> span c = {}) \<and>
     (\<Union>b \<in> B. span b) = {st..<st + 2 ^ mx}"

text \<open>The buddy of a block, as \<open>buddy_of\<close> computes it.\<close>

definition mate :: "nat \<Rightarrow> nat \<times> nat \<Rightarrow> nat \<times> nat" where
  "mate st b = (st + ((fst b - st) XOR 2 ^ snd b), snd b)"

lemma span_nonempty [simp]: "span b \<noteq> {}" "fst b \<in> span b"
  by (simp_all add: span_def)

lemma xor_pow2:
  "2 ^ k dvd x \<Longrightarrow> x XOR 2 ^ k = (if even (x div 2 ^ k) then x + 2 ^ k else x - 2 ^ k)" for x :: nat
proof -
  assume "2 ^ k dvd x"
  then obtain y where x: "x = push_bit k y" by (auto simp: push_bit_eq_mult mult.commute elim: dvdE)
  have "x XOR 2 ^ k = push_bit k (y XOR 1)" by (simp add: x push_bit_xor)
  also have "\<dots> = (if even y then x + 2 ^ k else x - 2 ^ k)"
    unfolding xor_one_eq x push_bit_eq_mult by (simp add: distrib_right diff_mult_distrib)
  also have "y = x div 2 ^ k" by (simp add: x push_bit_eq_mult)
  finally show ?thesis .
qed

lemma mate_cases:
  assumes "fits st mx (p, k)"
  obtains (left) "mate st (p, k) = (p + 2 ^ k, k)" "2 ^ Suc k dvd p - st" "st \<le> p"
    | (right) "mate st (p, k) = (p - 2 ^ k, k)" "2 ^ Suc k dvd p - 2 ^ k - st" "st \<le> p - 2 ^ k" "2 ^ k \<le> p"
proof -
  have f: "st \<le> p" "2 ^ k dvd p - st" using assms by (simp_all add: fits_def)
  from f(2) obtain y where y: "p - st = 2 ^ k * y" ..
  have m: "mate st (p, k) = (st + (if even y then p - st + 2 ^ k else p - st - 2 ^ k), k)"
    using xor_pow2 [OF f(2)] by (simp add: mate_def y)
  show ?thesis
  proof (cases "even y")
    case True
    then have "2 ^ Suc k dvd p - st" by (auto simp: y elim!: evenE)
    with True m f(1) show ?thesis by (intro left) simp_all
  next
    case False
    then obtain z where z: "y = 2 * z + 1" by (rule oddE)
    have le: "2 ^ k \<le> p - st" by (simp add: y z)
    have "p - 2 ^ k - st = 2 ^ Suc k * z"
      using y z le by (simp add: algebra_simps)
    with False m f(1) le show ?thesis by (intro right) auto
  qed
qed

lemma snd_mate [simp]: "snd (mate st b) = snd b"
  by (simp add: mate_def)

lemma fits_lower: "2 ^ Suc k dvd p - st \<Longrightarrow> 2 ^ k dvd p - st" for p st :: nat
  by (metis dvd_trans le_imp_power_dvd le_SucI order_refl)

lemma mate_mate: "fits st mx b \<Longrightarrow> mate st (mate st b) = b"
proof -
  assume f: "fits st mx b"
  obtain p k where b: "b = (p, k)" by (cases b)
  have "((p - st) XOR 2 ^ k) XOR 2 ^ k = p - st" by (simp add: xor.assoc)
  with f show ?thesis by (simp add: mate_def b fits_def)
qed

lemma mate_neq:
  assumes "fits st mx (p, k)" shows "mate st (p, k) \<noteq> (p, k)"
  using assms
proof (cases rule: mate_cases)
  case right
  have "p - 2 ^ k < p" using right(4) by (intro diff_less) (auto intro: less_le_trans [of _ "2 ^ k"])
  with right(1) show ?thesis by simp
qed simp

lemma tiles_fits: "tiles st mx B \<Longrightarrow> b \<in> B \<Longrightarrow> fits st mx b"
  by (simp add: tiles_def)

lemma tiles_disjoint: "tiles st mx B \<Longrightarrow> b \<in> B \<Longrightarrow> c \<in> B \<Longrightarrow> b \<noteq> c \<Longrightarrow> span b \<inter> span c = {}"
  unfolding tiles_def by blast

lemma tiles_inside: "tiles st mx B \<Longrightarrow> b \<in> B \<Longrightarrow> span b \<subseteq> {st..<st + 2 ^ mx}"
  unfolding tiles_def by blast

text \<open>Replacing some blocks by others that cover the same addresses.\<close>

lemma tiles_replace:
  assumes B: "tiles st mx B" and CB: "C \<subseteq> B" and D: "\<forall>b \<in> D. fits st mx b"
    "\<forall>b \<in> D. \<forall>c \<in> D. b \<noteq> c \<longrightarrow> span b \<inter> span c = {}" "(\<Union>b \<in> D. span b) = (\<Union>b \<in> C. span b)"
  shows "tiles st mx (B - C \<union> D)"
proof -
  have "span b \<inter> span c = {}" if "b \<in> B - C" "c \<in> D" for b c
  proof -
    have "span b \<inter> (\<Union>c \<in> C. span c) = {}" using that(1) CB tiles_disjoint [OF B] by blast
    with that(2) D(3) show ?thesis by blast
  qed
  then have "\<forall>b \<in> B - C \<union> D. \<forall>c \<in> B - C \<union> D. b \<noteq> c \<longrightarrow> span b \<inter> span c = {}"
    using tiles_disjoint [OF B] D(2) by blast
  moreover have "(\<Union>b \<in> B - C \<union> D. span b) = (\<Union>b \<in> B. span b)" using CB D(3) by blast
  then have "(\<Union>b \<in> B - C \<union> D. span b) = {st..<st + 2 ^ mx}" using B by (simp add: tiles_def)
  moreover have "\<forall>b \<in> B - C \<union> D. fits st mx b" using tiles_fits [OF B] D(1) by blast
  ultimately show ?thesis unfolding tiles_def by (intro conjI)
qed

lemma tiles_split:
  assumes "tiles st mx B" "(p, Suc k) \<in> B"
  shows "tiles st mx (B - {(p, Suc k)} \<union> {(p, k), (p + 2 ^ k, k)})"
proof (rule tiles_replace [OF assms(1)])
  have f: "fits st mx (p, Suc k)" by (rule tiles_fits [OF assms])
  have "p + 2 ^ k - st = (p - st) + 2 ^ k" using f by (simp add: fits_def)
  moreover have "2 ^ k dvd p - st" using f fits_lower [of k p st] by (simp add: fits_def)
  ultimately have "2 ^ k dvd p + 2 ^ k - st" by (simp only: dvd_add_triv_right_iff)
  with \<open>2 ^ k dvd p - st\<close> f show "\<forall>b \<in> {(p, k), (p + 2 ^ k, k)}. fits st mx b"
    by (auto simp: fits_def)
qed (use assms(2) in \<open>auto simp: span_def\<close>)

lemma merge_spans:
  assumes "fits st mx (p, k)" "k < mx"
  shows "span (p, k) \<union> span (mate st (p, k)) = span (min p (fst (mate st (p, k))), Suc k)
    \<and> fits st mx (min p (fst (mate st (p, k))), Suc k)"
  using assms(1)
proof (cases rule: mate_cases)
  case left
  then show ?thesis using assms(2) by (auto simp: span_def fits_def)
next
  case right
  then have "min p (p - 2 ^ k) = p - 2 ^ k" by simp
  with right assms(2) show ?thesis by (auto simp: span_def fits_def)
qed

lemma tiles_merge:
  assumes "tiles st mx B" "(p, k) \<in> B" "mate st (p, k) \<in> B" "k < mx"
  shows "tiles st mx (B - {(p, k), mate st (p, k)} \<union> {(min p (fst (mate st (p, k))), Suc k)})"
  using merge_spans [OF tiles_fits [OF assms(1,2)] assms(4)] assms
  by (intro tiles_replace) auto

text \<open>Aligned blocks are nested or disjoint.\<close>

lemma nested:
  assumes "fits st mx (p, j)" "fits st mx (q, k)" "j \<le> k" "span (p, j) \<inter> span (q, k) \<noteq> {}"
  shows "span (p, j) \<subseteq> span (q, k)"
proof -
  have f: "st \<le> p" "st \<le> q" "2 ^ j dvd p - st" "2 ^ j dvd q - st" "2 ^ j dvd (2 :: nat) ^ k"
    using assms by (auto simp: fits_def le_imp_power_dvd intro: dvd_trans [OF le_imp_power_dvd])
  from f(3) obtain a where a: "p - st = 2 ^ j * a" ..
  from f(4) obtain b where b: "q - st = 2 ^ j * b" ..
  from f(5) obtain c where c: "(2 :: nat) ^ k = 2 ^ j * c" ..
  have p: "p = st + 2 ^ j * a" "q = st + 2 ^ j * b" using a b f by simp_all
  have "q < p + 2 ^ j" "p < q + 2 ^ k" using assms(4) by (auto simp: span_def)
  then have "2 ^ j * a < 2 ^ j * (b + c)" "2 ^ j * b < 2 ^ j * (a + 1)"
    unfolding p c by (simp_all add: distrib_left)
  then have "a < b + c" "b < a + 1" using mult_less_cancel1 [of "2 ^ j"] by blast+
  then have "b \<le> a" "a + 1 \<le> b + c" by simp_all
  then have "2 ^ j * b \<le> 2 ^ j * a" "2 ^ j * (a + 1) \<le> 2 ^ j * (b + c)" by (simp_all only: mult_le_mono2)
  then show ?thesis by (simp add: span_def p c algebra_simps)
qed

text \<open>
  A tiling without two buddies is the single block that is the whole arena: the block of least
  order would otherwise have its buddy's interval covered by blocks of the same order.
\<close>

lemma span_subset_iff: "span (p, j) \<subseteq> span (q, k) \<longleftrightarrow> q \<le> p \<and> p + 2 ^ j \<le> q + 2 ^ k"
  by (simp add: span_def)

lemma mate_span: "fits st mx (p, k) \<Longrightarrow> span (p, k) \<inter> span (mate st (p, k)) = {}"
  by (erule mate_cases) (auto simp: span_def)

lemma mate_fits:
  assumes "fits st mx (p, k)" shows "fits st mx (mate st (p, k))"
  using assms
proof (cases rule: mate_cases)
  case left
  then have "p + 2 ^ k - st = (p - st) + 2 ^ k" by simp
  then have "2 ^ k dvd p + 2 ^ k - st"
    using fits_lower [OF left(2)] by (simp only: dvd_add_triv_right_iff)
  with left assms show ?thesis by (simp add: fits_def)
next
  case right
  with fits_lower [of k "p - 2 ^ k" st] assms show ?thesis by (simp add: fits_def)
qed

text \<open>Every block of least order in a tiling has its buddy there too, unless it is the arena.\<close>

lemma least_has_mate:
  assumes T: "tiles st mx B" and p: "(p, k) \<in> B" and k: "k < mx" and least: "\<And>b. b \<in> B \<Longrightarrow> k \<le> snd b"
  shows "mate st (p, k) \<in> B"
proof -
  have f: "fits st mx (p, k)" by (rule tiles_fits [OF T p])
  obtain q where mate: "mate st (p, k) = (q, k)" by (metis prod.collapse snd_mate snd_conv)
  have fq: "fits st mx (q, k)" using mate_fits [OF f] mate by simp
  have M: "span (p, k) \<union> span (q, k) = span (min p q, Suc k)" "fits st mx (min p q, Suc k)"
    using merge_spans [OF f k] mate by simp_all
  have pq: "p \<in> span (min p q, Suc k)" "q \<in> span (min p q, Suc k)" 
    unfolding M(1) [symmetric] by (simp_all add: span_def)
  have "p \<in> span (st, mx)" using subsetD [OF tiles_inside [OF T p], of p] by (simp add: span_def)
  then have "span (min p q, Suc k) \<subseteq> span (st, mx)"
    using nested [OF M(2), of st mx] k pq(1) by (auto simp: fits_def)
  then have "q \<in> {st..<st + 2 ^ mx}" using pq(2) by (auto simp: span_def)
  then obtain c where c: "c \<in> B" "q \<in> span c" using T unfolding tiles_def by blast
  have fc: "fits st mx (fst c, snd c)" using tiles_fits [OF T c(1)] by simp
  have sub: "span (q, k) \<subseteq> span (fst c, snd c)"
    using nested [OF fq fc least [OF c(1)]] span_nonempty(2) [of "(q, k)"] c(2) by auto
  have "c \<noteq> (p, k)" using mate_span [OF f] mate c(2) span_nonempty(2) [of "(q, k)"] by auto
  then have disj: "span c \<inter> span (p, k) = {}" using tiles_disjoint [OF T c(1) p] by simp
  have "\<not> Suc k \<le> snd c"
  proof
    assume "Suc k \<le> snd c"
    from nested [OF M(2) fc this] pq c(2) have "p \<in> span c" by auto
    with disj span_nonempty(2) [of "(p, k)"] show False by auto
  qed
  then have "snd c = k" using least [OF c(1)] by simp
  moreover from this have "fst c = q" using sub by (simp add: span_subset_iff)
  ultimately show ?thesis using c(1) mate by (metis prod.collapse)
qed

lemma tiles_no_mates:
  assumes T: "tiles st mx B" and nm: "\<forall>b \<in> B. snd b < mx \<longrightarrow> mate st b \<notin> B"
  shows "B = {(st, mx)}"
proof -
  have "st \<in> (\<Union>b \<in> B. span b)" using T by (simp add: tiles_def)
  then have ex: "\<exists>k p. (p, k) \<in> B" by auto
  define k where "k = (LEAST k. \<exists>p. (p, k) \<in> B)"
  have "\<exists>p. (p, k) \<in> B" unfolding k_def using ex by (rule LeastI_ex)
  then obtain p where p: "(p, k) \<in> B" ..
  have least: "k \<le> snd b" if "b \<in> B" for b
    unfolding k_def by (rule Least_le, rule exI [of _ "fst b"]) (use that in simp)
  have f: "fits st mx (p, k)" by (rule tiles_fits [OF T p])
  have "\<not> k < mx" using least_has_mate [OF T p _ least] nm p by auto
  then have k: "k = mx" using f by (simp add: fits_def)
  have "span (p, mx) \<subseteq> span (st, mx)" using tiles_inside [OF T p] k by (simp add: span_def)
  then have st: "p = st" using f by (simp add: span_subset_iff fits_def)
  have "c = (st, mx)" if "c \<in> B" for c
  proof (rule ccontr)
    assume "c \<noteq> (st, mx)"
    then have "span c \<inter> span (st, mx) = {}" using tiles_disjoint [OF T that p] k st by simp
    moreover have "span c \<subseteq> span (st, mx)" using tiles_inside [OF T that] by (simp add: span_def)
    ultimately show False using span_nonempty(1) [of c] by blast
  qed
  then show ?thesis using p k st by blast
qed

end
