(* ===== verification/Buddy.thy ===== *)
theory Buddy
  imports Tiling
begin

text \<open>
  The buddy allocator of heaperion/src/buddy.rs. The record has the fields of \<open>BuddyAllocator\<close>;
  the memory that holds the \<open>next\<close> pointers of free blocks is passed along. \<open>None\<close> is a panic (an
  index out of bounds, an unwrap of nothing) or a walk along a free list that does not end; an
  error of the code is \<open>Inl\<close>. Pointers into a region that exists do not wrap around, so pointer
  arithmetic is on natural numbers.
\<close>

unbundle bit_operations_syntax

definition MAX_ORDER :: nat where
  "MAX_ORDER = 28"

definition MIN_BLOCK_SIZE :: nat where
  "MIN_BLOCK_SIZE = 16"

record buddy =
  heap_start :: nat
  heap_size :: nat
  free_lists :: "nat option list"
  max_order :: nat

definition add_block_to_free_list :: "memory \<Rightarrow> buddy \<Rightarrow> nat \<Rightarrow> nat \<Rightarrow> (memory \<times> buddy) option" where
  "add_block_to_free_list m b p k =
     (if k < length (free_lists b)
      then Some (m(p := free_lists b ! k), b\<lparr>free_lists := (free_lists b)[k := Some p]\<rparr>)
      else None)"

definition pop_block_from_free_list :: "memory \<Rightarrow> buddy \<Rightarrow> nat \<Rightarrow> (nat \<times> buddy) option" where
  "pop_block_from_free_list m b k =
     (if k < length (free_lists b)
      then (case free_lists b ! k of
              None \<Rightarrow> None
            | Some p \<Rightarrow> Some (p, b\<lparr>free_lists := (free_lists b)[k := m p]\<rparr>))
      else None)"

definition remove_block_from_free_list :: "memory \<Rightarrow> buddy \<Rightarrow> nat \<Rightarrow> nat \<Rightarrow> (memory \<times> buddy) option" where
  "remove_block_from_free_list m b p k =
     (if k < length (free_lists b)
      then (case chain_remove m (free_lists b ! k) None (free_lists b ! k) p of
              None \<Rightarrow> None
            | Some (m', head) \<Rightarrow> Some (m', b\<lparr>free_lists := (free_lists b)[k := head]\<rparr>))
      else None)"

definition is_block_free :: "memory \<Rightarrow> buddy \<Rightarrow> nat \<Rightarrow> nat \<Rightarrow> bool option" where
  "is_block_free m b p k =
     (if k < length (free_lists b) then chain_search m (free_lists b ! k) p else None)"

definition buddy_of :: "buddy \<Rightarrow> nat \<Rightarrow> nat \<Rightarrow> nat" where
  "buddy_of b p k =
     (let block_size = order_to_size k;
          offset = p - heap_start b
      in heap_start b + (offset XOR block_size))"

definition buddy_new :: "memory \<Rightarrow> nat \<Rightarrow> nat \<Rightarrow> ((heap_error + buddy) \<times> memory) option" where
  "buddy_new m ptr sz =
     (if sz < MIN_BLOCK_SIZE then Some (Inl InvalidSize, m)
      else let aligned_addr = usize_align_up ptr MIN_BLOCK_SIZE;
               adjustment = usize_sub aligned_addr ptr
           in if adjustment \<ge> sz then Some (Inl InvalidSize, m)
              else let adjusted_size = sz - adjustment;
                       mx = min (size_to_order (next_power_of_two adjusted_size div 2)) (MAX_ORDER - 1);
                       b = \<lparr>heap_start = aligned_addr, heap_size = adjusted_size,
                            free_lists = replicate MAX_ORDER None, max_order = mx\<rparr>;
                       initial_order = size_to_order (next_power_of_two adjusted_size div 2);
                       initial_block_size = order_to_size initial_order
                   in if initial_block_size \<le> adjusted_size
                      then (case add_block_to_free_list m b aligned_addr initial_order of
                              None \<Rightarrow> None
                            | Some (m', b') \<Rightarrow> Some (Inr b', m'))
                      else Some (Inr b, m))"

definition split_block :: "memory \<Rightarrow> buddy \<Rightarrow> nat \<Rightarrow> (memory \<times> buddy) option" where
  "split_block m b k =
     (case pop_block_from_free_list m b k of
        None \<Rightarrow> None
      | Some (p, b1) \<Rightarrow>
          (let half_size = order_to_size k div 2
           in case add_block_to_free_list m b1 p (k - 1) of
                None \<Rightarrow> None
              | Some (m2, b2) \<Rightarrow> add_block_to_free_list m2 b2 (p + half_size) (k - 1)))"

text \<open>The loop over \<open>(order..higher_order).rev()\<close>, given as the list of its values.\<close>

fun split_down :: "memory \<Rightarrow> buddy \<Rightarrow> nat list \<Rightarrow> (memory \<times> buddy) option" where
  "split_down m b [] = Some (m, b)"
| "split_down m b (k # ks) =
     (case split_block m b (k + 1) of
        None \<Rightarrow> None
      | Some (m', b') \<Rightarrow> split_down m' b' ks)"

text \<open>The loop over \<open>(order + 1)..=max_order\<close>, given as the list of its values.\<close>

fun find_higher ::
  "memory \<Rightarrow> buddy \<Rightarrow> nat \<Rightarrow> nat list \<Rightarrow> ((heap_error + nat) \<times> memory \<times> buddy) option" where
  "find_higher m b k [] = Some (Inl OutOfMemory, m, b)"
| "find_higher m b k (h # hs) =
     (if \<not> h < length (free_lists b) then None
      else if free_lists b ! h \<noteq> None
      then (case split_down m b (rev [k..<h]) of
              None \<Rightarrow> None
            | Some (m', b') \<Rightarrow>
                (case pop_block_from_free_list m' b' k of
                   None \<Rightarrow> None
                 | Some (p, b'') \<Rightarrow> Some (Inr p, m', b'')))
      else find_higher m b k hs)"

definition find_block :: "memory \<Rightarrow> buddy \<Rightarrow> nat \<Rightarrow> ((heap_error + nat) \<times> memory \<times> buddy) option" where
  "find_block m b k =
     (if \<not> k < length (free_lists b) then None
      else if free_lists b ! k \<noteq> None
      then (case pop_block_from_free_list m b k of
              None \<Rightarrow> None
            | Some (p, b') \<Rightarrow> Some (Inr p, m, b'))
      else find_higher m b k [k + 1..<max_order b + 1])"

text \<open>The order of the block for a layout, computed alike in \<open>allocate\<close> and \<open>deallocate\<close>.\<close>

definition layout_order :: "layout \<Rightarrow> nat" where
  "layout_order l =
     (let sz = max (lsize l) MIN_BLOCK_SIZE;
          al = max (lalign l) MIN_BLOCK_SIZE;
          required_size = next_power_of_two (max sz al)
      in size_to_order required_size)"

definition buddy_allocate ::
  "memory \<Rightarrow> buddy \<Rightarrow> layout \<Rightarrow> ((heap_error + nat) \<times> memory \<times> buddy) option" where
  "buddy_allocate m b l =
     (if lsize l = 0 then Some (Inl InvalidSize, m, b)
      else let k = layout_order l
           in if k > max_order b then Some (Inl OutOfMemory, m, b) else find_block m b k)"

lemma chain_ops_max_order:
  "remove_block_from_free_list m b p k = Some (m', b') \<Longrightarrow> max_order b' = max_order b"
  by (auto simp: remove_block_from_free_list_def split: if_splits option.splits)

text \<open>\<open>free_block\<close> with the loop variables as arguments.\<close>

function free_block :: "memory \<Rightarrow> buddy \<Rightarrow> nat \<Rightarrow> nat \<Rightarrow> (memory \<times> buddy) option" where
  "free_block m b p k =
     (if k < max_order b
      then let q = buddy_of b p k
           in case is_block_free m b q k of
                None \<Rightarrow> None
              | Some False \<Rightarrow> add_block_to_free_list m b p k
              | Some True \<Rightarrow>
                  (case remove_block_from_free_list m b q k of
                     None \<Rightarrow> None
                   | Some (m', b') \<Rightarrow> free_block m' b' (if p < q then p else q) (k + 1))
      else add_block_to_free_list m b p k)"
  by pat_completeness auto
termination
  by (relation "measure (\<lambda>(m, b, p, k). max_order b - k)") (auto dest: chain_ops_max_order)

declare free_block.simps [simp del]

definition buddy_deallocate ::
  "memory \<Rightarrow> buddy \<Rightarrow> nat \<Rightarrow> layout \<Rightarrow> ((heap_error + unit) \<times> memory \<times> buddy) option" where
  "buddy_deallocate m b p l =
     (if p < heap_start b \<or> p \<ge> heap_start b + heap_size b then Some (Inl InvalidPointer, m, b)
      else case free_block m b p (layout_order l) of
             None \<Rightarrow> None
           | Some (m', b') \<Rightarrow> Some (Inr (), m', b'))"

section \<open>Free lists as lists\<close>

text \<open>\<open>repr m b ls\<close>: the chain of order \<open>k\<close> holds exactly the blocks \<open>ls k\<close>, in that order.\<close>

definition repr :: "memory \<Rightarrow> buddy \<Rightarrow> (nat \<Rightarrow> nat list) \<Rightarrow> bool" where
  "repr m b ls \<longleftrightarrow> length (free_lists b) = MAX_ORDER \<and>
     (\<forall>k < MAX_ORDER. chain m (free_lists b ! k) (ls k) \<and> distinct (ls k)) \<and>
     (\<forall>j < MAX_ORDER. \<forall>k < MAX_ORDER. j \<noteq> k \<longrightarrow> set (ls j) \<inter> set (ls k) = {})"

definition free_set :: "(nat \<Rightarrow> nat list) \<Rightarrow> (nat \<times> nat) set" where
  "free_set ls = {(p, k). k < MAX_ORDER \<and> p \<in> set (ls k)}"

text \<open>What an operation does not touch.\<close>

definition same_shape :: "buddy \<Rightarrow> buddy \<Rightarrow> bool" where
  "same_shape b b' \<longleftrightarrow> heap_start b' = heap_start b \<and> heap_size b' = heap_size b \<and> max_order b' = max_order b"

lemma same_shape_refl [simp]: "same_shape b b"
  by (simp add: same_shape_def)

lemma same_shape_trans: "same_shape a b \<Longrightarrow> same_shape b c \<Longrightarrow> same_shape a c"
  by (simp add: same_shape_def)

lemma repr_cong:
  assumes r: "repr m b ls" and "\<And>k x. k < MAX_ORDER \<Longrightarrow> x \<in> set (ls k) \<Longrightarrow> m' x = m x"
  shows "repr m' b ls"
proof -
  have "chain m' (free_lists b ! k) (ls k)" if "k < MAX_ORDER" for k
    by (rule chain_cong [of m]) (use r that assms(2) in \<open>simp_all add: repr_def\<close>)
  with r show ?thesis by (simp add: repr_def)
qed

lemma repr_pop:
  assumes r: "repr m b ls" and k: "k < MAX_ORDER" and l: "ls k = p # ps"
  shows "\<exists>b'. pop_block_from_free_list m b k = Some (p, b') \<and> repr m b' (ls(k := ps)) \<and> same_shape b b'"
proof -
  have c: "free_lists b ! k = Some p" "chain m (m p) ps" "distinct (p # ps)" "length (free_lists b) = MAX_ORDER"
    using r k l by (auto simp: repr_def dest!: spec [of _ k])
  have sub: "set ((ls(k := ps)) j) \<subseteq> set (ls j)" for j using l by auto
  have "repr m (b\<lparr>free_lists := (free_lists b)[k := m p]\<rparr>) (ls(k := ps))"
    unfolding repr_def
  proof (intro conjI allI impI)
    fix i j assume "i < MAX_ORDER" "j < MAX_ORDER" "i \<noteq> j"
    then have "set (ls i) \<inter> set (ls j) = {}" using r by (simp add: repr_def)
    then show "set ((ls(k := ps)) i) \<inter> set ((ls(k := ps)) j) = {}" using sub [of i] sub [of j] by blast
  qed (use r k c in \<open>auto simp: repr_def nth_list_update\<close>)
  then show ?thesis using c k by (simp add: pop_block_from_free_list_def same_shape_def)
qed

lemma repr_push:
  assumes r: "repr m b ls" and k: "k < MAX_ORDER" and p: "\<forall>j < MAX_ORDER. p \<notin> set (ls j)"
  shows "\<exists>m' b'. add_block_to_free_list m b p k = Some (m', b') \<and> repr m' b' (ls(k := p # ls k))
    \<and> same_shape b b' \<and> (\<forall>x. x \<noteq> p \<longrightarrow> m' x = m x)"
proof -
  let ?m = "m(p := free_lists b ! k)" and ?b = "b\<lparr>free_lists := (free_lists b)[k := Some p]\<rparr>"
  have len: "length (free_lists b) = MAX_ORDER" using r by (simp add: repr_def)
  have "repr ?m ?b (ls(k := p # ls k))"
    unfolding repr_def
  proof (intro conjI allI impI)
    fix j assume j: "j < MAX_ORDER"
    then have "chain ?m (free_lists b ! j) (ls j)" using r p by (simp add: repr_def chain_upd)
    then show "chain ?m (free_lists ?b ! j) ((ls(k := p # ls k)) j)" using k len j by (cases "j = k") auto
  next
    fix i j assume "i < MAX_ORDER" "j < MAX_ORDER" "i \<noteq> j"
    then show "set ((ls(k := p # ls k)) i) \<inter> set ((ls(k := p # ls k)) j) = {}"
      using r p by (auto simp: repr_def)
  qed (use r p k len in \<open>auto simp: repr_def\<close>)
  then show ?thesis using len k by (simp add: add_block_to_free_list_def same_shape_def)
qed

lemma repr_search: "repr m b ls \<Longrightarrow> k < MAX_ORDER \<Longrightarrow> is_block_free m b p k = Some (p \<in> set (ls k))"
  by (simp add: repr_def is_block_free_def chain_search)

lemma repr_remove:
  assumes r: "repr m b ls" and k: "k < MAX_ORDER"
  shows "\<exists>m' b'. remove_block_from_free_list m b p k = Some (m', b') \<and> repr m' b' (ls(k := remove1 p (ls k)))
    \<and> same_shape b b' \<and> (\<forall>x. x \<notin> set (ls k) \<longrightarrow> m' x = m x)"
proof -
  have c: "chain m (free_lists b ! k) (ls k)" "distinct (ls k)" "length (free_lists b) = MAX_ORDER"
    using r k by (auto simp: repr_def)
  obtain m' head where R: "chain_remove m (free_lists b ! k) None (free_lists b ! k) p = Some (m', head)"
    "chain m' head (remove1 p (ls k))" "\<forall>y. y \<notin> set (ls k) \<longrightarrow> m' y = m y"
    using chain_remove [OF c(1,2)] by blast
  let ?b = "b\<lparr>free_lists := (free_lists b)[k := head]\<rparr>" and ?ls = "ls(k := remove1 p (ls k))"
  have sub: "set (?ls j) \<subseteq> set (ls j)" for j using set_remove1_subset [of p "ls k"] by auto
  have "repr m' ?b ?ls"
    unfolding repr_def
  proof (intro conjI allI impI)
    fix j assume j: "j < MAX_ORDER"
    show "chain m' (free_lists ?b ! j) (?ls j)"
    proof (cases "j = k")
      case False
      then have "set (ls j) \<inter> set (ls k) = {}" using r j k by (simp add: repr_def)
      then have "m' x = m x" if "x \<in> set (ls j)" for x using that R(3) by blast
      moreover have "chain m (free_lists b ! j) (ls j)" using r j by (simp add: repr_def)
      ultimately have "chain m' (free_lists b ! j) (ls j)" using chain_cong by blast
      with False show ?thesis by simp
    qed (use R c k in simp)
  next
    fix i j assume "i < MAX_ORDER" "j < MAX_ORDER" "i \<noteq> j"
    then have "set (ls i) \<inter> set (ls j) = {}" using r by (simp add: repr_def)
    then show "set (?ls i) \<inter> set (?ls j) = {}" using sub [of i] sub [of j] by blast
  qed (use r c in \<open>auto simp: repr_def\<close>)
  then show ?thesis using R c k by (simp add: remove_block_from_free_list_def same_shape_def)
qed

text \<open>The same on sets of free blocks.\<close>

lemma free_set_upd: "k < MAX_ORDER \<Longrightarrow> free_set (ls(k := xs)) = (free_set ls - {(p, k) | p. True}) \<union> {(p, k) | p. p \<in> set xs}"
  by (auto simp: free_set_def split: if_splits)

lemma free_set_pop: "repr m b ls \<Longrightarrow> k < MAX_ORDER \<Longrightarrow> ls k = p # ps \<Longrightarrow> free_set (ls(k := ps)) = free_set ls - {(p, k)}"
  by (auto simp: free_set_def repr_def split: if_splits)

lemma free_set_push: "k < MAX_ORDER \<Longrightarrow> free_set (ls(k := p # ls k)) = insert (p, k) (free_set ls)"
  by (auto simp: free_set_def split: if_splits)

lemma free_set_remove: "repr m b ls \<Longrightarrow> k < MAX_ORDER \<Longrightarrow> free_set (ls(k := remove1 p (ls k))) = free_set ls - {(p, k)}"
  by (auto simp: free_set_def repr_def split: if_splits)

section \<open>The invariant\<close>

definition arena :: "buddy \<Rightarrow> nat set" where
  "arena b = {heap_start b..<heap_start b + 2 ^ max_order b}"

text \<open>An operation keeps the shape of the allocator and writes inside the arena only.\<close>

definition moves :: "memory \<Rightarrow> buddy \<Rightarrow> memory \<Rightarrow> buddy \<Rightarrow> bool" where
  "moves m b m' b' \<longleftrightarrow> same_shape b b' \<and> (\<forall>x. x \<notin> arena b \<longrightarrow> m' x = m x)"

text \<open>
  \<open>tiled m b ls A\<close>: the free blocks \<open>ls\<close> and the allocated blocks \<open>A\<close> together tile the arena.
  \<open>buddy_inv\<close> adds that no two free blocks are buddies, so that everything that can be merged has
  been merged.
\<close>

definition tiled :: "memory \<Rightarrow> buddy \<Rightarrow> (nat \<Rightarrow> nat list) \<Rightarrow> (nat \<times> nat) set \<Rightarrow> bool" where
  "tiled m b ls A \<longleftrightarrow> repr m b ls \<and> max_order b < MAX_ORDER \<and> 2 ^ max_order b \<le> heap_size b \<and>
     free_set ls \<inter> A = {} \<and> tiles (heap_start b) (max_order b) (free_set ls \<union> A)"

definition no_mates :: "buddy \<Rightarrow> (nat \<times> nat) set \<Rightarrow> bool" where
  "no_mates b F \<longleftrightarrow> (\<forall>x \<in> F. snd x < max_order b \<longrightarrow> mate (heap_start b) x \<notin> F)"

definition buddy_inv :: "memory \<Rightarrow> buddy \<Rightarrow> (nat \<Rightarrow> nat list) \<Rightarrow> (nat \<times> nat) set \<Rightarrow> bool" where
  "buddy_inv m b ls A \<longleftrightarrow> tiled m b ls A \<and> no_mates b (free_set ls)"

lemma moves_refl [simp]: "moves m b m b"
  by (simp add: moves_def)

lemma moves_trans: "moves m b m' b' \<Longrightarrow> moves m' b' m'' b'' \<Longrightarrow> moves m b m'' b''"
  by (auto simp: moves_def same_shape_def arena_def)

lemma no_mates_subset: "no_mates b F \<Longrightarrow> G \<subseteq> F \<Longrightarrow> no_mates b G"
  by (auto simp: no_mates_def)

lemma no_mates_shape: "same_shape b b' \<Longrightarrow> no_mates b' F = no_mates b F"
  by (simp add: no_mates_def same_shape_def)

text \<open>In a tiling, an address that starts a block lies in no other block.\<close>

lemma tiles_start:
  assumes "tiles st mx B" "(p, j) \<in> B" "c \<in> B" "p \<in> span c"
  shows "(p, j) = c"
proof (rule ccontr)
  assume "(p, j) \<noteq> c"
  with tiles_disjoint [OF assms(1-3)] assms(4) span_nonempty(2) [of "(p, j)"] show False by auto
qed

lemma tiled_arena: "tiled m b ls A \<Longrightarrow> x \<in> free_set ls \<union> A \<Longrightarrow> span x \<subseteq> arena b"
  unfolding tiled_def arena_def using tiles_inside by blast

lemma split_block_tiled:
  assumes t: "tiled m b ls A" and k: "Suc k < MAX_ORDER" and l: "ls (Suc k) = p # ps"
  shows "\<exists>m' b' ls'. split_block m b (Suc k) = Some (m', b') \<and> tiled m' b' ls' A \<and> moves m b m' b'
    \<and> free_set ls' = free_set ls - {(p, Suc k)} \<union> {(p, k), (p + 2 ^ k, k)} \<and> (\<exists>qs. ls' k = (p + 2 ^ k) # qs)"
proof -
  have r: "repr m b ls" and T: "tiles (heap_start b) (max_order b) (free_set ls \<union> A)"
    and d: "free_set ls \<inter> A = {}" using t by (auto simp: tiled_def)
  have kk: "k < MAX_ORDER" using k by simp
  have mem: "(p, Suc k) \<in> free_set ls" using l k by (simp add: free_set_def)
  let ?q = "p + 2 ^ k"
  define ls1 where "ls1 = ls(Suc k := ps)"
  obtain b1 where b1: "pop_block_from_free_list m b (Suc k) = Some (p, b1)" "repr m b1 ls1" "same_shape b b1"
    using repr_pop [OF r k l] unfolding ls1_def by blast
  have F1: "free_set ls1 = free_set ls - {(p, Suc k)}" unfolding ls1_def by (rule free_set_pop [OF r k l])
  have out: "(x, j) \<notin> free_set ls1 \<union> A" if "x \<in> span (p, Suc k)" for x j
  proof
    assume x: "(x, j) \<in> free_set ls1 \<union> A"
    then have "(x, j) \<in> free_set ls \<union> A" using F1 by blast
    then have "(x, j) = (p, Suc k)" using tiles_start [OF T _ _ that] mem by blast
    with x F1 d mem show False by blast
  qed
  have in_span: "p \<in> span (p, Suc k)" "?q \<in> span (p, Suc k)" by (simp_all add: span_def)
  have fresh: "p \<notin> set (ls1 j)" "?q \<notin> set (ls1 j)" if "j < MAX_ORDER" for j
    using out [OF in_span(1), of j] out [OF in_span(2), of j] that by (simp_all add: free_set_def)
  then have "\<forall>j < MAX_ORDER. p \<notin> set (ls1 j)" by blast
  then obtain m2 b2 where b2: "add_block_to_free_list m b1 p k = Some (m2, b2)"
    "repr m2 b2 (ls1(k := p # ls1 k))" "same_shape b1 b2" "\<forall>x. x \<noteq> p \<longrightarrow> m2 x = m x"
    using repr_push [OF b1(2) kk] by blast
  let ?ls2 = "ls1(k := p # ls1 k)"
  have "\<forall>j < MAX_ORDER. ?q \<notin> set (?ls2 j)" using fresh(2) by simp
  then obtain m3 b3 where b3: "add_block_to_free_list m2 b2 ?q k = Some (m3, b3)"
    "repr m3 b3 (?ls2(k := ?q # ?ls2 k))" "same_shape b2 b3" "\<forall>x. x \<noteq> ?q \<longrightarrow> m3 x = m2 x"
    using repr_push [OF b2(2) kk] by blast
  let ?ls3 = "?ls2(k := ?q # ?ls2 k)"
  have F3: "free_set ?ls3 = free_set ls - {(p, Suc k)} \<union> {(p, k), (?q, k)}"
    unfolding free_set_push [OF kk] F1 by blast
  have shape: "same_shape b b3" using b1(3) b2(3) b3(3) same_shape_trans by blast
  have "(p, k) \<notin> A" "(?q, k) \<notin> A" using out [OF in_span(1)] out [OF in_span(2)] by blast+
  then have dis: "free_set ?ls3 \<inter> A = {}" unfolding F3 using d by blast
  have "free_set ?ls3 \<union> A = free_set ls \<union> A - {(p, Suc k)} \<union> {(p, k), (?q, k)}"
    unfolding F3 using d mem by blast
  then have "tiles (heap_start b) (max_order b) (free_set ?ls3 \<union> A)"
    using tiles_split [OF T, of p k] mem by simp
  then have "tiled m3 b3 ?ls3 A"
    using t b3(2) shape dis by (simp add: tiled_def same_shape_def)
  moreover have "span (p, Suc k) \<subseteq> arena b" using tiled_arena [OF t] mem by blast
  then have "p \<in> arena b" "?q \<in> arena b" using in_span by blast+
  then have "moves m b m3 b3" unfolding moves_def using shape b2(4) b3(4) by metis
  moreover have "split_block m b (Suc k) = Some (m3, b3)"
    using b1(1) b2(1) b3(1) by (simp add: split_block_def order_to_size_def)
  ultimately show ?thesis using F3 by (intro exI [of _ m3] exI [of _ b3] exI [of _ ?ls3]) simp
qed

text \<open>
  Splitting down keeps one block active, the head of its list; without it no two free blocks are
  buddies.
\<close>

lemma split_down_tiled:
  assumes "tiled m b ls A" "h < MAX_ORDER" "ls h = p # ps" "no_mates b (free_set ls - {(p, h)})" "k \<le> h"
  shows "\<exists>m' b' ls' q. split_down m b (rev [k..<h]) = Some (m', b') \<and> tiled m' b' ls' A \<and> moves m b m' b'
    \<and> (\<exists>qs. ls' k = q # qs) \<and> no_mates b' (free_set ls' - {(q, k)})"
  using assms
proof (induction "h - k" arbitrary: m b ls h p ps)
  case 0
  then show ?case by auto
next
  case (Suc d)
  then obtain j where j: "h = Suc j" "k \<le> j" by (metis Suc_le_D Suc_leD diff_is_0_eq nat.distinct(1) not_less_eq_eq)
  have j28: "j < MAX_ORDER" using Suc.prems(2) j by simp
  have T: "tiles (heap_start b) (max_order b) (free_set ls \<union> A)" using Suc.prems(1) by (simp add: tiled_def)
  have mem: "(p, Suc j) \<in> free_set ls" using Suc.prems(2,3) j(1) by (simp add: free_set_def)
  obtain m1 b1 ls1 qs where S: "split_block m b (Suc j) = Some (m1, b1)" "tiled m1 b1 ls1 A" "moves m b m1 b1"
    "free_set ls1 = free_set ls - {(p, Suc j)} \<union> {(p, j), (p + 2 ^ j, j)}" "ls1 j = (p + 2 ^ j) # qs"
    using split_block_tiled [OF Suc.prems(1), of j p ps] Suc.prems(2,3) j(1) by blast
  have T1: "tiles (heap_start b) (max_order b) (free_set ls1 \<union> A)"
    using S(2,3) by (simp add: tiled_def moves_def same_shape_def)
  have f: "fits (heap_start b) (max_order b) (p, j)" using tiles_fits [OF T1] S(4) by blast
  have fS: "fits (heap_start b) (max_order b) (p, Suc j)" using tiles_fits [OF T] mem by blast
  have m1: "mate (heap_start b) (p, j) = (p + 2 ^ j, j)"
    using xor_pow2 [of j "p - heap_start b"] fS f
    by (auto simp: mate_def fits_def elim!: dvdE)
  have "no_mates b (free_set ls1 - {(p + 2 ^ j, j)})"
    unfolding no_mates_def
  proof (intro ballI impI)
    fix x assume x: "x \<in> free_set ls1 - {(p + 2 ^ j, j)}" and sx: "snd x < max_order b"
    have fx: "fits (heap_start b) (max_order b) x" using tiles_fits [OF T1] x by blast
    show "mate (heap_start b) x \<notin> free_set ls1 - {(p + 2 ^ j, j)}"
    proof
      assume y: "mate (heap_start b) x \<in> free_set ls1 - {(p + 2 ^ j, j)}"
      have "x \<noteq> (p, j)" using y m1 by auto
      moreover have "mate (heap_start b) x \<noteq> (p, j)"
        using mate_mate [OF fx] m1 x by auto
      ultimately have "x \<in> free_set ls - {(p, Suc j)}" "mate (heap_start b) x \<in> free_set ls - {(p, Suc j)}"
        using x y S(4) by auto
      with Suc.prems(4) sx j(1) show False by (auto simp: no_mates_def)
    qed
  qed
  then have nm: "no_mates b1 (free_set ls1 - {(p + 2 ^ j, j)})"
    using S(3) no_mates_shape by (auto simp: moves_def)
  have "d = j - k" using Suc.hyps(2) j by simp
  from Suc.hyps(1) [OF this S(2) j28 S(5) nm j(2)]
  obtain m' b' ls' q where R: "split_down m1 b1 (rev [k..<j]) = Some (m', b')" "tiled m' b' ls' A"
    "moves m1 b1 m' b'" "\<exists>qs. ls' k = q # qs" "no_mates b' (free_set ls' - {(q, k)})" by blast
  have "split_down m b (rev [k..<h]) = Some (m', b')" using R(1) S(1) j by simp
  with R moves_trans [OF S(3) R(3)] show ?case by blast
qed

lemma pop_inv:
  assumes t: "tiled m b ls A" and k: "k < MAX_ORDER" and l: "ls k = p # ps"
    and nm: "no_mates b (free_set ls - {(p, k)})"
  shows "\<exists>b'. pop_block_from_free_list m b k = Some (p, b') \<and> buddy_inv m b' (ls(k := ps)) (insert (p, k) A)
    \<and> moves m b m b' \<and> (p, k) \<notin> A"
proof -
  have r: "repr m b ls" using t by (simp add: tiled_def)
  obtain b' where b': "pop_block_from_free_list m b k = Some (p, b')" "repr m b' (ls(k := ps))" "same_shape b b'"
    using repr_pop [OF r k l] by blast
  have F: "free_set (ls(k := ps)) = free_set ls - {(p, k)}" by (rule free_set_pop [OF r k l])
  have mem: "(p, k) \<in> free_set ls" using l k by (simp add: free_set_def)
  have A: "(p, k) \<notin> A" using t mem by (auto simp: tiled_def)
  have "free_set (ls(k := ps)) \<union> insert (p, k) A = free_set ls \<union> A" using F mem by blast
  moreover have "free_set (ls(k := ps)) \<inter> insert (p, k) A = {}" using F t by (auto simp: tiled_def)
  ultimately have "tiled m b' (ls(k := ps)) (insert (p, k) A)"
    using t b'(2,3) by (simp add: tiled_def same_shape_def)
  moreover have "no_mates b' (free_set (ls(k := ps)))" using nm F no_mates_shape [OF b'(3)] by simp
  ultimately show ?thesis using b' A by (auto simp: buddy_inv_def moves_def)
qed

lemma repr_empty_iff: "repr m b ls \<Longrightarrow> k < MAX_ORDER \<Longrightarrow> free_lists b ! k = None \<longleftrightarrow> ls k = []"
  by (cases "ls k") (auto simp: repr_def dest!: spec [of _ k])

definition find_result ::
  "memory \<Rightarrow> buddy \<Rightarrow> (nat \<times> nat) set \<Rightarrow> nat \<Rightarrow> ((heap_error + nat) \<times> memory \<times> buddy) option \<Rightarrow> bool" where
  "find_result m b A k res \<longleftrightarrow>
     (\<exists>p m' b' ls'. res = Some (Inr p, m', b') \<and> buddy_inv m' b' ls' (insert (p, k) A)
        \<and> moves m b m' b' \<and> (p, k) \<notin> A)"

lemma find_higher_inv:
  assumes inv: "buddy_inv m b ls A" and hs: "\<forall>h \<in> set hs. k < h \<and> h \<le> max_order b"
  shows "(if \<exists>h \<in> set hs. ls h \<noteq> [] then find_result m b A k (find_higher m b k hs)
          else find_higher m b k hs = Some (Inl OutOfMemory, m, b))"
  using hs
proof (induction hs)
  case (Cons h hs)
  have t: "tiled m b ls A" and nm: "no_mates b (free_set ls)" using inv by (simp_all add: buddy_inv_def)
  have r: "repr m b ls" and h: "h < MAX_ORDER" "k < h" "k \<le> h"
    using t Cons.prems by (auto simp: tiled_def)
  have len: "h < length (free_lists b)" using r h by (simp add: repr_def)
  show ?case
  proof (cases "ls h")
    case Nil
    then have "free_lists b ! h = None" using repr_empty_iff [OF r h(1)] by simp
    with Cons Nil len show ?thesis by auto
  next
    case (Cons p ps)
    then have some: "free_lists b ! h \<noteq> None" using repr_empty_iff [OF r h(1)] by simp
    have "no_mates b (free_set ls - {(p, h)})" by (rule no_mates_subset [OF nm]) blast
    from split_down_tiled [OF t h(1) Cons this h(3)] obtain m1 b1 ls1 q qs where
      S: "split_down m b (rev [k..<h]) = Some (m1, b1)" "tiled m1 b1 ls1 A" "moves m b m1 b1"
        "ls1 k = q # qs" "no_mates b1 (free_set ls1 - {(q, k)})" by blast
    have "k < MAX_ORDER" using h by simp
    from pop_inv [OF S(2) this S(4,5)] obtain b2 where
      P: "pop_block_from_free_list m1 b1 k = Some (q, b2)" "buddy_inv m1 b2 (ls1(k := qs)) (insert (q, k) A)"
        "moves m1 b1 m1 b2" "(q, k) \<notin> A" by blast
    have "find_higher m b k (h # hs) = Some (Inr q, m1, b2)" using len some S(1) P(1) by simp
    then have "find_result m b A k (find_higher m b k (h # hs))"
      unfolding find_result_def using P moves_trans [OF S(3) P(3)] by blast
    with Cons show ?thesis by auto
  qed
qed simp

lemma tiled_order: "tiled m b ls A \<Longrightarrow> j < MAX_ORDER \<Longrightarrow> ls j \<noteq> [] \<Longrightarrow> j \<le> max_order b"
proof -
  assume t: "tiled m b ls A" and j: "j < MAX_ORDER" "ls j \<noteq> []"
  then have "(hd (ls j), j) \<in> free_set ls" by (simp add: free_set_def)
  then have "fits (heap_start b) (max_order b) (hd (ls j), j)" using t tiles_fits by (auto simp: tiled_def)
  then show ?thesis by (simp add: fits_def)
qed

lemma find_block_inv:
  assumes inv: "buddy_inv m b ls A" and k: "k \<le> max_order b"
  shows "(if \<exists>j. k \<le> j \<and> j < MAX_ORDER \<and> ls j \<noteq> [] then find_result m b A k (find_block m b k)
          else find_block m b k = Some (Inl OutOfMemory, m, b))"
proof -
  have t: "tiled m b ls A" and nm: "no_mates b (free_set ls)" using inv by (simp_all add: buddy_inv_def)
  have r: "repr m b ls" and k28: "k < MAX_ORDER" using t k by (auto simp: tiled_def)
  have len: "k < length (free_lists b)" using r k28 by (simp add: repr_def)
  show ?thesis
  proof (cases "ls k")
    case Nil
    then have none: "free_lists b ! k = None" using repr_empty_iff [OF r k28] by simp
    have iff: "(\<exists>h \<in> set [k + 1..<max_order b + 1]. ls h \<noteq> []) \<longleftrightarrow> (\<exists>j. k \<le> j \<and> j < MAX_ORDER \<and> ls j \<noteq> [])"
    proof
      assume "\<exists>j. k \<le> j \<and> j < MAX_ORDER \<and> ls j \<noteq> []"
      then obtain j where j: "k \<le> j" "j < MAX_ORDER" "ls j \<noteq> []" by blast
      then have "j \<noteq> k" "j \<le> max_order b" using Nil tiled_order [OF t j(2,3)] by auto
      with j show "\<exists>h \<in> set [k + 1..<max_order b + 1]. ls h \<noteq> []" by (intro bexI [of _ j]) auto
    next
      assume "\<exists>h \<in> set [k + 1..<max_order b + 1]. ls h \<noteq> []"
      then obtain h where "k < h" "h \<le> max_order b" "ls h \<noteq> []" by (auto simp: Suc_le_eq less_Suc_eq_le)
      then show "\<exists>j. k \<le> j \<and> j < MAX_ORDER \<and> ls j \<noteq> []" using t by (intro exI [of _ h]) (auto simp: tiled_def)
    qed
    have fb: "find_block m b k = find_higher m b k [k + 1..<max_order b + 1]"
      using len none by (simp add: find_block_def)
    have "\<forall>h \<in> set [k + 1..<max_order b + 1]. k < h \<and> h \<le> max_order b" by auto
    from find_higher_inv [OF inv this] show ?thesis unfolding fb iff .
  next
    case (Cons p ps)
    then have some: "free_lists b ! k \<noteq> None" using repr_empty_iff [OF r k28] by simp
    have "no_mates b (free_set ls - {(p, k)})" by (rule no_mates_subset [OF nm]) blast
    from pop_inv [OF t k28 Cons this] have "find_result m b A k (find_block m b k)"
      using len some by (auto simp: find_block_def find_result_def)
    with Cons k28 show ?thesis by auto
  qed
qed

section \<open>Freeing\<close>

lemma mate_buddy_of: "mate (heap_start b) (p, k) = (buddy_of b p k, k)"
  by (simp add: mate_def buddy_of_def order_to_size_def Let_def)

text \<open>
  The state of the loop of \<open>free_block\<close>: the block \<open>(p, k)\<close> is neither free nor allocated, and
  completes the tiling.
\<close>

definition freeing :: "memory \<Rightarrow> buddy \<Rightarrow> (nat \<Rightarrow> nat list) \<Rightarrow> (nat \<times> nat) set \<Rightarrow> nat \<times> nat \<Rightarrow> bool" where
  "freeing m b ls A x \<longleftrightarrow> repr m b ls \<and> max_order b < MAX_ORDER \<and> 2 ^ max_order b \<le> heap_size b \<and>
     tiles (heap_start b) (max_order b) (insert x (free_set ls \<union> A)) \<and>
     x \<notin> free_set ls \<union> A \<and> free_set ls \<inter> A = {} \<and> no_mates b (free_set ls)"

lemma freeing_props:
  assumes "freeing m b ls A (p, k)"
  shows "repr m b ls" "k < MAX_ORDER" "fits (heap_start b) (max_order b) (p, k)"
    "tiles (heap_start b) (max_order b) (insert (p, k) (free_set ls \<union> A))"
    "\<And>x. x \<in> insert (p, k) (free_set ls \<union> A) \<Longrightarrow> span x \<subseteq> arena b"
proof -
  show T: "tiles (heap_start b) (max_order b) (insert (p, k) (free_set ls \<union> A))" and "repr m b ls"
    using assms by (simp_all add: freeing_def)
  show f: "fits (heap_start b) (max_order b) (p, k)" using tiles_fits [OF T] by blast
  then show "k < MAX_ORDER" using assms by (simp add: fits_def freeing_def)
  show "span x \<subseteq> arena b" if "x \<in> insert (p, k) (free_set ls \<union> A)" for x
    using tiles_inside [OF T that] by (simp add: arena_def)
qed

lemma freeing_merge:
  assumes fr: "freeing m b ls A (p, k)" and k: "k < max_order b" and q: "buddy_of b p k \<in> set (ls k)"
  defines "p1 \<equiv> min p (buddy_of b p k)"
  shows "\<exists>m' b' ls'. remove_block_from_free_list m b (buddy_of b p k) k = Some (m', b')
    \<and> freeing m' b' ls' A (p1, Suc k) \<and> moves m b m' b'"
proof -
  let ?q = "buddy_of b p k"
  note P = freeing_props [OF fr]
  have new: "(p, k) \<notin> free_set ls \<union> A" and d: "free_set ls \<inter> A = {}" and nm: "no_mates b (free_set ls)"
    using fr by (simp_all add: freeing_def)
  have qF: "(?q, k) \<in> free_set ls" using q P(2) by (simp add: free_set_def)
  obtain m1 b1 where R: "remove_block_from_free_list m b ?q k = Some (m1, b1)"
    "repr m1 b1 (ls(k := remove1 ?q (ls k)))" "same_shape b b1" "\<forall>x. x \<notin> set (ls k) \<longrightarrow> m1 x = m x"
    using repr_remove [OF P(1,2)] by blast
  define ls1 where "ls1 = ls(k := remove1 ?q (ls k))"
  have F: "free_set ls1 = free_set ls - {(?q, k)}" unfolding ls1_def by (rule free_set_remove [OF P(1,2)])
  have "tiles (heap_start b) (max_order b)
      (insert (p, k) (free_set ls \<union> A) - {(p, k), (?q, k)} \<union> {(p1, Suc k)})"
    using tiles_merge [OF P(4), of p k] qF k by (simp add: mate_buddy_of p1_def)
  moreover have "insert (p, k) (free_set ls \<union> A) - {(p, k), (?q, k)} \<union> {(p1, Suc k)}
      = insert (p1, Suc k) (free_set ls1 \<union> A)"
    using F new d qF by auto
  ultimately have T1: "tiles (heap_start b) (max_order b) (insert (p1, Suc k) (free_set ls1 \<union> A))" by simp
  have M: "span (p, k) \<union> span (?q, k) = span (p1, Suc k)"
    using merge_spans [OF P(3) k] by (simp add: mate_buddy_of p1_def)
  have "(p1, Suc k) \<notin> free_set ls \<union> A"
  proof
    assume x: "(p1, Suc k) \<in> free_set ls \<union> A"
    have "(p1, Suc k) \<noteq> (p, k)" by simp
    then have "span (p1, Suc k) \<inter> span (p, k) = {}" using tiles_disjoint [OF P(4), of "(p1, Suc k)" "(p, k)"] x by blast
    with M span_nonempty(1) [of "(p, k)"] show False by blast
  qed
  then have "freeing m1 b1 ls1 A (p1, Suc k)"
    using fr R(2,3) T1 F d no_mates_subset [OF nm, of "free_set ls1"] no_mates_shape [OF R(3)]
    by (auto simp: freeing_def same_shape_def ls1_def)
  moreover have "x \<in> arena b" if "x \<in> set (ls k)" for x
    using P(5) [of "(x, k)"] that P(2) span_nonempty(2) [of "(x, k)"] by (auto simp: free_set_def)
  then have "moves m b m1 b1" using R(3,4) by (auto simp: moves_def)
  ultimately show ?thesis using R(1) by blast
qed

lemma freeing_push:
  assumes fr: "freeing m b ls A (p, k)" and q: "k < max_order b \<Longrightarrow> buddy_of b p k \<notin> set (ls k)"
  shows "\<exists>m' b' ls'. add_block_to_free_list m b p k = Some (m', b') \<and> buddy_inv m' b' ls' A \<and> moves m b m' b'"
proof -
  note P = freeing_props [OF fr]
  have new: "(p, k) \<notin> free_set ls \<union> A" and d: "free_set ls \<inter> A = {}" and nm: "no_mates b (free_set ls)"
    using fr by (simp_all add: freeing_def)
  have "\<forall>j < MAX_ORDER. p \<notin> set (ls j)"
  proof (intro allI impI notI)
    fix j assume "j < MAX_ORDER" "p \<in> set (ls j)"
    then have x: "(p, j) \<in> free_set ls" by (simp add: free_set_def)
    then have "(p, j) = (p, k)" using tiles_start [OF P(4), of p j "(p, k)"] span_nonempty(2) [of "(p, k)"] by auto
    with x new show False by auto
  qed
  from repr_push [OF P(1,2) this] obtain m' b' where
    A: "add_block_to_free_list m b p k = Some (m', b')" "repr m' b' (ls(k := p # ls k))" "same_shape b b'"
      "\<forall>x. x \<noteq> p \<longrightarrow> m' x = m x" by blast
  have F: "free_set (ls(k := p # ls k)) = insert (p, k) (free_set ls)" by (rule free_set_push [OF P(2)])
  have "no_mates b (insert (p, k) (free_set ls))"
    unfolding no_mates_def
  proof (intro ballI impI)
    fix x assume x: "x \<in> insert (p, k) (free_set ls)" and sx: "snd x < max_order b"
    have fx: "fits (heap_start b) (max_order b) x" using tiles_fits [OF P(4)] x by blast
    have 1: "mate (heap_start b) (p, k) \<notin> insert (p, k) (free_set ls)" if "k < max_order b"
      using q that mate_neq [OF P(3)] by (auto simp: mate_buddy_of free_set_def)
    have 2: "mate (heap_start b) x \<noteq> (p, k)" if "x \<in> free_set ls"
      using 1 mate_mate [OF fx] that sx by (metis insertI2 snd_conv snd_mate)
    show "mate (heap_start b) x \<notin> insert (p, k) (free_set ls)"
      using x sx 1 2 nm by (auto simp: no_mates_def)
  qed
  then have "buddy_inv m' b' (ls(k := p # ls k)) A"
    using fr A(2,3) no_mates_shape [OF A(3)] by (simp add: buddy_inv_def tiled_def F freeing_def same_shape_def)
  moreover have "p \<in> arena b" using P(5) [of "(p, k)"] span_nonempty(2) [of "(p, k)"] by auto
  then have "moves m b m' b'" unfolding moves_def using A(3,4) by metis
  ultimately show ?thesis using A(1) by blast
qed

lemma free_block_inv:
  "freeing m b ls A (p, k) \<Longrightarrow>
   \<exists>m' b' ls'. free_block m b p k = Some (m', b') \<and> buddy_inv m' b' ls' A \<and> moves m b m' b'"
proof (induction m b p k arbitrary: ls rule: free_block.induct)
  case (1 m b p k)
  note P = freeing_props [OF 1(2)]
  let ?q = "buddy_of b p k"
  have search: "is_block_free m b ?q k = Some (?q \<in> set (ls k))" by (rule repr_search [OF P(1,2)])
  show ?case
  proof (cases "k < max_order b \<and> ?q \<in> set (ls k)")
    case True
    let ?p = "if p < ?q then p else ?q"
    have p: "min p ?q = ?p" by (simp add: min_def)
    obtain m1 b1 ls1 where M: "remove_block_from_free_list m b ?q k = Some (m1, b1)"
      "freeing m1 b1 ls1 A (?p, k + 1)" "moves m b m1 b1"
      using freeing_merge [OF 1(2)] True unfolding p by auto
    obtain m' b' ls' where I: "free_block m1 b1 ?p (k + 1) = Some (m', b')" "buddy_inv m' b' ls' A" "moves m1 b1 m' b'"
      using 1(1) [OF _ refl, of True "(m1, b1)" m1 b1 ls1] True search M by auto
    have "free_block m b p k = Some (m', b')"
      using True search M(1) I(1) by (simp add: free_block.simps [of m b p k])
    with I moves_trans [OF M(3) I(3)] show ?thesis by blast
  next
    case False
    then have "free_block m b p k = add_block_to_free_list m b p k"
      using search by (auto simp: free_block.simps [of m b p k])
    with freeing_push [OF 1(2)] False show ?thesis by auto
  qed
qed

section \<open>Allocation and deallocation\<close>

lemma layout_order_props:
  assumes "layout_ok l"
  shows "lsize l \<le> 2 ^ layout_order l \<and> lalign l dvd 2 ^ layout_order l \<and> 4 \<le> layout_order l
    \<and> (\<forall>j. 4 \<le> j \<longrightarrow> lsize l \<le> 2 ^ j \<longrightarrow> lalign l \<le> 2 ^ j \<longrightarrow> layout_order l \<le> j)"
proof -
  let ?n = "max (max (lsize l) 16) (max (lalign l) 16)"
  have "?n \<le> 2 ^ 63" using assms by (simp add: layout_ok_def)
  then obtain k where k: "k \<le> 63" "next_power_of_two ?n = 2 ^ k" "?n \<le> 2 ^ k" "\<And>j. ?n \<le> 2 ^ j \<Longrightarrow> k \<le> j"
    using next_power_of_two_props [of ?n] by blast
  have o: "layout_order l = k" using k(1,2) by (simp add: layout_order_def MIN_BLOCK_SIZE_def Let_def)
  have "(2 :: nat) ^ 4 \<le> 2 ^ k" using k(3) by simp
  then have k4: "4 \<le> k" by (simp only: power_increasing_iff)
  obtain a where a: "lalign l = 2 ^ a" using assms by (auto simp: layout_ok_def)
  then have "(2 :: nat) ^ a \<le> 2 ^ k" using k(3) by simp
  then have "lalign l dvd 2 ^ k" unfolding a by (simp only: power_increasing_iff le_imp_power_dvd)
  moreover have "k \<le> j" if "4 \<le> j" "lsize l \<le> 2 ^ j" "lalign l \<le> 2 ^ j" for j
  proof (rule k(4))
    have "(2 :: nat) ^ 4 \<le> 2 ^ j" using that(1) by (intro power_increasing) auto
    then show "?n \<le> 2 ^ j" using that by simp
  qed
  ultimately show ?thesis using k(3) k4 by (auto simp: o)
qed

lemma buddy_allocate_inv:
  assumes inv: "buddy_inv m b ls A" and sz: "lsize l \<noteq> 0"
  shows "(if \<exists>j. layout_order l \<le> j \<and> j < MAX_ORDER \<and> ls j \<noteq> []
          then find_result m b A (layout_order l) (buddy_allocate m b l)
          else buddy_allocate m b l = Some (Inl OutOfMemory, m, b))"
proof (cases "layout_order l \<le> max_order b")
  case True
  then have "buddy_allocate m b l = find_block m b (layout_order l)" using sz by (simp add: buddy_allocate_def Let_def)
  with find_block_inv [OF inv True] show ?thesis by simp
next
  case False
  then have "buddy_allocate m b l = Some (Inl OutOfMemory, m, b)" using sz by (simp add: buddy_allocate_def Let_def)
  moreover have "tiled m b ls A" using inv by (simp add: buddy_inv_def)
  then have "\<not> (\<exists>j. layout_order l \<le> j \<and> j < MAX_ORDER \<and> ls j \<noteq> [])" using False tiled_order by fastforce
  ultimately show ?thesis by (simp only: if_False)
qed

lemma buddy_deallocate_inv:
  assumes inv: "buddy_inv m b ls A" and p: "(p, layout_order l) \<in> A"
  shows "\<exists>m' b' ls'. buddy_deallocate m b p l = Some (Inr (), m', b')
    \<and> buddy_inv m' b' ls' (A - {(p, layout_order l)}) \<and> moves m b m' b'"
proof -
  let ?k = "layout_order l"
  have t: "tiled m b ls A" and nm: "no_mates b (free_set ls)" using inv by (simp_all add: buddy_inv_def)
  have "insert (p, ?k) (free_set ls \<union> (A - {(p, ?k)})) = free_set ls \<union> A" using p by auto
  then have "freeing m b ls (A - {(p, ?k)}) (p, ?k)"
    using t nm p by (auto simp: freeing_def tiled_def)
  from free_block_inv [OF this] obtain m' b' ls' where
    F: "free_block m b p ?k = Some (m', b')" "buddy_inv m' b' ls' (A - {(p, ?k)})" "moves m b m' b'" by blast
  have "p \<in> arena b" using tiled_arena [OF t] p span_nonempty(2) [of "(p, ?k)"] by fastforce
  then have "heap_start b \<le> p" "p < heap_start b + heap_size b"
    using t by (auto simp: arena_def tiled_def)
  with F show ?thesis by (auto simp: buddy_deallocate_def)
qed

text \<open>Writes of the clients to their own blocks do not disturb the free lists.\<close>

lemma buddy_inv_frame:
  assumes inv: "buddy_inv m b ls A" and same: "\<And>x. x \<in> arena b - (\<Union>y \<in> A. span y) \<Longrightarrow> m' x = m x"
  shows "buddy_inv m' b ls A"
proof -
  have t: "tiled m b ls A" using inv by (simp add: buddy_inv_def)
  have "m' x = m x" if "k < MAX_ORDER" "x \<in> set (ls k)" for x k
  proof (rule same)
    have x: "(x, k) \<in> free_set ls" using that by (simp add: free_set_def)
    have "x \<notin> span y" if "y \<in> A" for y
    proof
      assume "x \<in> span y"
      then have "(x, k) = y" using t tiles_start [of _ _ _ x k y] x that by (auto simp: tiled_def)
      with x that t show False by (auto simp: tiled_def)
    qed
    moreover have "x \<in> arena b" using tiled_arena [OF t] x span_nonempty(2) [of "(x, k)"] by fastforce
    ultimately show "x \<in> arena b - (\<Union>y \<in> A. span y)" by blast
  qed
  then have "repr m' b ls" using t repr_cong [of m b ls m'] by (simp add: tiled_def)
  with inv show ?thesis by (simp add: buddy_inv_def tiled_def)
qed

section \<open>Creation\<close>

text \<open>The order of the first block: the largest power of two below the size of the region.\<close>

lemma initial_order:
  assumes "0 < n" "n \<le> 2 ^ 63"
  shows "2 ^ size_to_order (next_power_of_two n div 2) \<le> n \<and> n \<le> 2 ^ (size_to_order (next_power_of_two n div 2) + 1)
    \<and> size_to_order (next_power_of_two n div 2) < 63
    \<and> (2 \<le> n \<longrightarrow> 2 ^ size_to_order (next_power_of_two n div 2) < n)"
proof (cases "n = 1")
  case True
  then show ?thesis by (simp add: next_power_of_two_def size_to_order_def)
next
  case False
  from assms(2) obtain k where k: "k \<le> 63" "next_power_of_two n = 2 ^ k" "n \<le> 2 ^ k" "\<And>j. n \<le> 2 ^ j \<Longrightarrow> k \<le> j"
    using next_power_of_two_props [of n] by blast
  have "k \<noteq> 0" using k(3) assms(1) False by (cases k) auto
  then obtain j where j: "k = Suc j" using not0_implies_Suc by blast
  then have "size_to_order (next_power_of_two n div 2) = j" using k(1,2) by simp
  moreover have "2 ^ j < n" using k(4) [of j] j by (meson not_less not_less_eq_eq order_refl)
  ultimately show ?thesis using k(1,3) j by simp
qed

lemma usize_align_up_16:
  assumes "ptr + 16 \<le> 2 ^ 64"
  shows "16 dvd usize_align_up ptr 16" "ptr \<le> usize_align_up ptr 16" "usize_align_up ptr 16 < ptr + 16"
  using usize_align_up_props [of ptr 4] assms by simp_all

lemma buddy_new_inv:
  assumes sz: "16 \<le> sz" "valid_region ptr sz" and adj: "usize_align_up ptr 16 < ptr + sz"
  defines "st \<equiv> usize_align_up ptr 16"
  defines "i \<equiv> size_to_order (next_power_of_two (ptr + sz - st) div 2)"
  shows "if i < MAX_ORDER
    then \<exists>m' b. buddy_new m ptr sz = Some (Inr b, m') \<and> heap_start b = st \<and> heap_size b = ptr + sz - st
      \<and> max_order b = i \<and> buddy_inv m' b (\<lambda>k. if k = i then [st] else []) {} \<and> (\<forall>x. x \<noteq> st \<longrightarrow> m' x = m x)
    else buddy_new m ptr sz = None"
proof -
  have r: "ptr + sz \<le> 2 ^ 64" "sz < 2 ^ 63" using sz(2) by (simp_all add: valid_region_def)
  have al: "ptr \<le> st" using usize_align_up_16 [of ptr] sz(1) r by (simp add: st_def)
  have us: "usize_sub st ptr = st - ptr" using al adj r by (intro usize_sub_eq) (simp_all add: st_def)
  let ?n = "ptr + sz - st"
  have n: "sz - (st - ptr) = ?n" "\<not> sz \<le> st - ptr" "0 < ?n" "?n \<le> 2 ^ 63" using al adj r by (simp_all add: st_def)
  have I: "2 ^ i \<le> ?n" using initial_order [OF n(3,4)] by (simp add: i_def)
  define b where "b = \<lparr>heap_start = st, heap_size = ?n, free_lists = replicate MAX_ORDER None,
    max_order = min i (MAX_ORDER - 1)\<rparr>"
  have new: "buddy_new m ptr sz = (case add_block_to_free_list m b st i of
      None \<Rightarrow> None | Some (m', b') \<Rightarrow> Some (Inr b', m'))"
    using sz al adj n(1,2) I us unfolding buddy_new_def Let_def MIN_BLOCK_SIZE_def st_def [symmetric]
      i_def [symmetric] b_def order_to_size_def by (simp add: st_def i_def)
  show ?thesis
  proof (cases "i < MAX_ORDER")
    case True
    let ?m = "m(st := None)" and ?b = "b\<lparr>free_lists := (free_lists b)[i := Some st]\<rparr>"
    let ?ls = "\<lambda>k. if k = i then [st] else []"
    have F: "free_set ?ls = {(st, i)}" using True by (auto simp: free_set_def split: if_splits)
    have mx: "max_order b = i" using True by (simp add: b_def)
    have "repr ?m ?b ?ls" using True by (auto simp: repr_def b_def nth_list_update)
    moreover have "tiles st i {(st, i)}" by (simp add: tiles_def fits_def span_def)
    ultimately have "buddy_inv ?m ?b ?ls {}"
      using True I mx by (simp add: buddy_inv_def tiled_def no_mates_def F, simp add: b_def)
    moreover have "add_block_to_free_list m b st i = Some (?m, ?b)"
      using True by (simp add: add_block_to_free_list_def b_def)
    ultimately show ?thesis using True new mx by (simp add: b_def)
  next
    case False
    then show ?thesis using new by (simp add: add_block_to_free_list_def b_def)
  qed
qed

section \<open>The buddy allocator meets the allocator contract\<close>

definition buddy_alloc_at :: "memory \<times> buddy \<Rightarrow> layout \<Rightarrow> (nat \<times> memory \<times> buddy) option" where
  "buddy_alloc_at s l =
     (if layout_ok l
      then (case buddy_allocate (fst s) (snd s) l of
              Some (Inr p, m', b') \<Rightarrow> Some (p, m', b')
            | _ \<Rightarrow> None)
      else None)"

definition buddy_free_at :: "memory \<times> buddy \<Rightarrow> nat \<Rightarrow> layout \<Rightarrow> memory \<times> buddy" where
  "buddy_free_at s p l =
     (case buddy_deallocate (fst s) (snd s) p l of
        Some (_, m', b') \<Rightarrow> (m', b')
      | None \<Rightarrow> s)"

definition blk :: "nat \<times> layout \<Rightarrow> nat \<times> nat" where
  "blk x = (fst x, layout_order (snd x))"

text \<open>The alignment a block has: that of the layout is only honoured up to that of the heap itself.\<close>

definition heap_align :: "buddy \<Rightarrow> layout \<Rightarrow> nat" where
  "heap_align b0 l = (if lalign l dvd heap_start b0 then max 16 (lalign l) else 16)"

text \<open>
  The state \<open>s\<close> of an allocator of the shape \<open>b0\<close> is consistent with the live blocks \<open>L\<close>.
\<close>

definition buddy_ok :: "buddy \<Rightarrow> memory \<times> buddy \<Rightarrow> (nat \<times> layout) set \<Rightarrow> bool" where
  "buddy_ok b0 s L \<longleftrightarrow> same_shape b0 (snd s) \<and> (\<exists>ls. buddy_inv (fst s) (snd s) ls (blk ` L)) \<and> inj_on blk L \<and>
     16 dvd heap_start (snd s) \<and> (\<forall>x \<in> L. layout_ok (snd x))"

lemma block_span: "layout_ok (snd x) \<Longrightarrow> block lsize x \<subseteq> span (blk x)"
  using layout_order_props [of "snd x"] by (auto simp: block_def span_def blk_def)

lemma buddy_ok_disjoint: "buddy_ok b0 s L \<Longrightarrow> blocks_disjoint lsize L"
proof -
  assume ok: "buddy_ok b0 s L"
  then obtain ls where T: "tiles (heap_start (snd s)) (max_order (snd s)) (free_set ls \<union> blk ` L)"
    by (auto simp: buddy_ok_def buddy_inv_def tiled_def)
  have "block lsize x \<inter> block lsize y = {}" if "x \<in> L" "y \<in> L" "x \<noteq> y" for x y
  proof -
    have "blk x \<noteq> blk y" using that ok by (auto simp: buddy_ok_def inj_on_def)
    then have "span (blk x) \<inter> span (blk y) = {}" using tiles_disjoint [OF T, of "blk x" "blk y"] that by blast
    then show ?thesis using block_span [of x] block_span [of y] that ok by (auto simp: buddy_ok_def)
  qed
  then show ?thesis by (auto simp: blocks_disjoint_def)
qed

interpretation buddy_allocator: allocator buddy_alloc_at buddy_free_at lsize "heap_align b0" "buddy_ok b0" for b0
proof unfold_locales
  fix s :: "memory \<times> buddy" and L l p s'
  assume ok: "buddy_ok b0 s L" and al: "buddy_alloc_at s l = Some (p, s')"
  obtain ls where inv: "buddy_inv (fst s) (snd s) ls (blk ` L)" using ok by (auto simp: buddy_ok_def)
  have l: "layout_ok l" "buddy_allocate (fst s) (snd s) l = Some (Inr p, fst s', snd s')"
    using al by (auto simp: buddy_alloc_at_def split: if_splits option.splits sum.splits)
  then have "lsize l \<noteq> 0" by (auto simp: buddy_allocate_def split: if_splits)
  from buddy_allocate_inv [OF inv this] l(2) have
    "find_result (fst s) (snd s) (blk ` L) (layout_order l) (Some (Inr p, fst s', snd s'))" by (auto split: if_splits)
  then obtain ls' where R: "buddy_inv (fst s') (snd s') ls' (insert (p, layout_order l) (blk ` L))"
    "same_shape (snd s) (snd s')" "(p, layout_order l) \<notin> blk ` L"
    by (auto simp: find_result_def moves_def)
  have new: "blk (p, l) = (p, layout_order l)" by (simp add: blk_def)
  then have "(p, l) \<notin> L" using R(3) by (metis image_eqI)
  moreover have "inj_on blk (insert (p, l) L)" using ok R(3) new by (auto simp: buddy_ok_def)
  ultimately show "buddy_ok b0 s' (insert (p, l) L) \<and> (p, l) \<notin> L"
    using ok R l(1) new by (auto simp: buddy_ok_def same_shape_def)
next
  fix s :: "memory \<times> buddy" and L p l
  assume ok: "buddy_ok b0 s L" and x: "(p, l) \<in> L"
  obtain ls where inv: "buddy_inv (fst s) (snd s) ls (blk ` L)" using ok by (auto simp: buddy_ok_def)
  have new: "blk (p, l) = (p, layout_order l)" by (simp add: blk_def)
  then have "(p, layout_order l) \<in> blk ` L" using x by force
  from buddy_deallocate_inv [OF inv this] obtain m' b' ls' where
    D: "buddy_deallocate (fst s) (snd s) p l = Some (Inr (), m', b')"
      "buddy_inv m' b' ls' (blk ` L - {(p, layout_order l)})" "same_shape (snd s) b'" by (auto simp: moves_def)
  have "blk ` (L - {(p, l)}) = blk ` L - {(p, layout_order l)}"
    using ok x new inj_on_image_set_diff [of blk L L "{(p, l)}"] by (auto simp: buddy_ok_def)
  moreover have "inj_on blk (L - {(p, l)})" using ok by (auto simp: buddy_ok_def intro: inj_on_subset)
  ultimately show "buddy_ok b0 (buddy_free_at s p l) (L - {(p, l)})"
    using ok D by (auto simp: buddy_ok_def buddy_free_at_def same_shape_def)
next
  fix s :: "memory \<times> buddy" and L p l
  assume ok: "buddy_ok b0 s L" and x: "(p, l) \<in> L"
  then obtain ls where "fits (heap_start (snd s)) (max_order (snd s)) (blk (p, l))"
    by (auto simp: buddy_ok_def buddy_inv_def tiled_def dest!: tiles_fits [where b = "blk (p, l)"])
  moreover have "(16 :: nat) dvd 2 ^ layout_order l"
    using ok x layout_order_props [of l] le_imp_power_dvd [of 4 "layout_order l" "2 :: nat"] by (auto simp: buddy_ok_def)
  moreover have "lalign l dvd 2 ^ layout_order l" using ok x layout_order_props [of l] by (auto simp: buddy_ok_def)
  ultimately have "16 dvd p - heap_start b0" "lalign l dvd p - heap_start b0" "heap_start b0 \<le> p" "16 dvd heap_start b0"
    using ok by (auto simp: fits_def blk_def buddy_ok_def same_shape_def intro: dvd_trans)
  then show "heap_align b0 l dvd p"
    using dvd_add [of _ "p - heap_start b0" "heap_start b0"] by (simp add: heap_align_def max_def)
qed (simp add: buddy_ok_disjoint)

lemma buddy_ok_inside:
  assumes "buddy_ok b0 s L" "x \<in> L"
  shows "block lsize x \<subseteq> arena b0"
proof -
  obtain ls where "tiled (fst s) (snd s) ls (blk ` L)" using assms by (auto simp: buddy_ok_def buddy_inv_def)
  then have "span (blk x) \<subseteq> arena (snd s)" using tiled_arena assms(2) by (metis UnI2 imageI)
  then show ?thesis using assms block_span [of x] by (auto simp: buddy_ok_def same_shape_def arena_def)
qed

lemma buddy_ok_coalesced:
  assumes "buddy_ok b0 s {}"
  shows "\<forall>k < MAX_ORDER. free_lists (snd s) ! k = (if k = max_order b0 then Some (heap_start b0) else None)"
proof (intro allI impI)
  fix k assume k: "k < MAX_ORDER"
  obtain ls where ls: "tiled (fst s) (snd s) ls {}" "no_mates (snd s) (free_set ls)" and sh: "same_shape b0 (snd s)"
    using assms by (auto simp: buddy_ok_def buddy_inv_def)
  then have F: "free_set ls = {(heap_start b0, max_order b0)}" and r: "chain (fst s) (free_lists (snd s) ! k) (ls k)"
    using tiles_no_mates [of "heap_start (snd s)" "max_order (snd s)" "free_set ls"] k
    by (auto simp: tiled_def no_mates_def same_shape_def repr_def)
  have m: "p \<in> set (ls k) \<longleftrightarrow> p = heap_start b0 \<and> k = max_order b0" for p
    using F k unfolding free_set_def by blast
  show "free_lists (snd s) ! k = (if k = max_order b0 then Some (heap_start b0) else None)"
    using r m by (cases "ls k") auto
qed

lemma buddy_new_ok:
  assumes "valid_region ptr sz" "buddy_new m ptr sz = Some (Inr b, m0)"
  shows "buddy_ok b (m0, b) {} \<and> arena b \<subseteq> {ptr..<ptr + sz}"
proof -
  have s: "16 \<le> sz" "\<not> sz \<le> usize_sub (usize_align_up ptr 16) ptr"
    using assms(2) by (auto simp: buddy_new_def MIN_BLOCK_SIZE_def Let_def split: if_splits)
  then have al: "16 dvd usize_align_up ptr 16" "ptr \<le> usize_align_up ptr 16" "usize_align_up ptr 16 < ptr + 16"
    using usize_align_up_16 [of ptr] assms(1) by (simp_all add: valid_region_def)
  have "usize_sub (usize_align_up ptr 16) ptr = usize_align_up ptr 16 - ptr"
    using al assms(1) s(1) by (intro usize_sub_eq) (simp_all add: valid_region_def)
  with s have sz: "16 \<le> sz" "usize_align_up ptr 16 < ptr + sz" by simp_all
  note N = buddy_new_inv [OF sz(1) assms(1) sz(2), of m]
  then have B: "heap_start b = usize_align_up ptr 16" "heap_size b = ptr + sz - heap_start b"
    "\<exists>ls. buddy_inv m0 b ls {}"
    using assms(2) by (auto split: if_splits)
  from B(3) have "2 ^ max_order b \<le> heap_size b" by (auto simp: buddy_inv_def tiled_def)
  then have "arena b \<subseteq> {ptr..<ptr + sz}" using B(1,2) al(2) sz(2) by (auto simp: arena_def)
  then show ?thesis using B(1,3) al(1) by (simp add: buddy_ok_def)
qed

lemma buddy_new_outside:
  assumes "valid_region ptr sz" "buddy_new m ptr sz = Some (Inr b, m0)" "x \<notin> arena b"
  shows "m0 x = m x"
proof -
  have s: "16 \<le> sz" "\<not> sz \<le> usize_sub (usize_align_up ptr 16) ptr"
    using assms(2) by (auto simp: buddy_new_def MIN_BLOCK_SIZE_def Let_def split: if_splits)
  then have al: "ptr \<le> usize_align_up ptr 16" "usize_align_up ptr 16 < ptr + 16"
    using usize_align_up_16 [of ptr] assms(1) by (simp_all add: valid_region_def)
  then have sz: "usize_align_up ptr 16 < ptr + sz" using s(1) by simp
  have "heap_start b \<in> arena b" by (simp add: arena_def)
  moreover have "\<forall>x. x \<noteq> heap_start b \<longrightarrow> m0 x = m x"
    using buddy_new_inv [OF s(1) assms(1) sz, of m] assms(2) by (auto split: if_splits)
  ultimately show ?thesis using assms(3) by metis
qed

lemma heap_align_dvd:
  assumes "layout_ok l" "lalign l dvd heap_start b0"
  shows "lalign l dvd heap_align b0 l"
proof (cases "16 \<le> lalign l")
  case False
  obtain a where a: "lalign l = 2 ^ a" using assms(1) by (auto simp: layout_ok_def)
  with False have "(2 :: nat) ^ a \<le> 2 ^ 4" by simp
  then have "(2 :: nat) ^ a dvd 2 ^ 4" by (simp only: power_increasing_iff le_imp_power_dvd)
  with a False assms(2) show ?thesis by (simp add: heap_align_def)
qed (use assms in \<open>simp add: heap_align_def max_def\<close>)

lemma buddy_allocate_zero: "lsize l = 0 \<Longrightarrow> buddy_allocate m b l = Some (Inl InvalidSize, m, b)"
  by (simp add: buddy_allocate_def)

text \<open>Clients may write to the blocks they hold, and anyone outside the arena.\<close>

lemma buddy_ok_frame:
  assumes "buddy_ok b0 (m, b) L" and "\<And>x. x \<in> arena b0 - (\<Union>y \<in> blk ` L. span y) \<Longrightarrow> m' x = m x"
  shows "buddy_ok b0 (m', b) L"
proof -
  obtain ls where "buddy_inv m b ls (blk ` L)" and "arena b = arena b0"
    using assms(1) by (auto simp: buddy_ok_def same_shape_def arena_def)
  then have "buddy_inv m' b ls (blk ` L)" using buddy_inv_frame [of m b ls "blk ` L" m'] assms(2) by blast
  with assms(1) show ?thesis by (auto simp: buddy_ok_def)
qed

text \<open>The allocator itself writes inside the arena only.\<close>

lemma buddy_allocate_outside:
  assumes "buddy_ok b0 (m, b) L" "buddy_allocate m b l = Some (Inr p, m', b')" "x \<notin> arena b0"
  shows "m' x = m x"
proof -
  obtain ls where inv: "buddy_inv m b ls (blk ` L)" and a: "arena b = arena b0"
    using assms(1) by (auto simp: buddy_ok_def same_shape_def arena_def)
  have "lsize l \<noteq> 0" using assms(2) by (auto simp: buddy_allocate_def split: if_splits)
  from buddy_allocate_inv [OF inv this] assms(2) have "moves m b m' b'" by (auto simp: find_result_def split: if_splits)
  then show ?thesis using a assms(3) by (simp add: moves_def)
qed

lemma buddy_deallocate_outside:
  assumes "buddy_ok b0 (m, b) L" "(p, l) \<in> L" "buddy_deallocate m b p l = Some (r, m', b')" "x \<notin> arena b0"
  shows "m' x = m x"
proof -
  obtain ls where inv: "buddy_inv m b ls (blk ` L)" and a: "arena b = arena b0"
    using assms(1) by (auto simp: buddy_ok_def same_shape_def arena_def)
  have "(p, layout_order l) \<in> blk ` L" using assms(2) by (force simp: blk_def)
  from buddy_deallocate_inv [OF inv this] assms(3) have "moves m b m' b'" by auto
  then show ?thesis using a assms(4) by (simp add: moves_def)
qed

lemma buddy_alloc_result:
  assumes ok: "buddy_ok b0 (m, b) L" and l: "layout_ok l" and nz: "lsize l \<noteq> 0"
  shows "if \<forall>j \<in> {layout_order l..<MAX_ORDER}. free_lists b ! j = None
     then buddy_allocate m b l = Some (Inl OutOfMemory, m, b)
     else \<exists>p m' b'. buddy_allocate m b l = Some (Inr p, m', b') \<and> buddy_ok b0 (m', b') (insert (p, l) L)
       \<and> (p, l) \<notin> L \<and> lalign l dvd p - heap_start b"
proof -
  obtain ls where inv: "buddy_inv m b ls (blk ` L)" using ok by (auto simp: buddy_ok_def)
  then have r: "repr m b ls" by (simp add: buddy_inv_def tiled_def)
  have e: "(\<forall>j \<in> {layout_order l..<MAX_ORDER}. free_lists b ! j = None) \<longleftrightarrow>
    \<not> (\<exists>j. layout_order l \<le> j \<and> j < MAX_ORDER \<and> ls j \<noteq> [])"
    using repr_empty_iff [OF r] by (auto simp: Ball_def)
  show ?thesis
  proof (cases "\<forall>j \<in> {layout_order l..<MAX_ORDER}. free_lists b ! j = None")
    case True
    then show ?thesis using buddy_allocate_inv [OF inv nz] e by metis
  next
    case False
    then obtain p m' b' where R: "buddy_allocate m b l = Some (Inr p, m', b')"
      using buddy_allocate_inv [OF inv nz] e unfolding find_result_def by metis
    then have "buddy_alloc_at (m, b) l = Some (p, m', b')" using l by (simp add: buddy_alloc_at_def)
    note N = buddy_allocator.alloc_ok [OF ok this]
    then obtain ls' where "fits (heap_start b) (max_order b) (blk (p, l))" using ok
      by (auto simp: buddy_ok_def buddy_inv_def tiled_def same_shape_def dest!: tiles_fits [where b = "blk (p, l)"])
    then have "lalign l dvd p - heap_start b"
      using layout_order_props [OF l] by (auto simp: fits_def blk_def intro: dvd_trans)
    then show ?thesis using False R N by auto
  qed
qed

lemma buddy_dealloc_live:
  assumes ok: "buddy_ok b0 (m, b) L" and x: "(p, l) \<in> L"
  shows "\<exists>m' b'. buddy_deallocate m b p l = Some (Inr (), m', b') \<and> buddy_ok b0 (m', b') (L - {(p, l)})"
proof -
  obtain ls where inv: "buddy_inv m b ls (blk ` L)" using ok by (auto simp: buddy_ok_def)
  have "(p, layout_order l) \<in> blk ` L" using x by (force simp: blk_def)
  from buddy_deallocate_inv [OF inv this] obtain m' b' where
    D: "buddy_deallocate m b p l = Some (Inr (), m', b')" by blast
  then show ?thesis using buddy_allocator.dealloc_ok [OF ok x] by (simp add: buddy_free_at_def)
qed

section \<open>Properties\<close>

text \<open>A client of a fresh allocator over 1024 bytes at address 4096.\<close>

definition buddy_example :: "layout client_op list \<Rightarrow> ((memory \<times> buddy) \<times> (nat \<times> layout) list) option" where
  "buddy_example ops = (case buddy_new (\<lambda>_. None) 4096 1024 of
     Some (Inr b, m) \<Rightarrow> Some (client_run buddy_alloc_at buddy_free_at ops ((m, b), []))
   | _ \<Rightarrow> None)"

lemma buddy_exampleE:
  assumes "map_option f (buddy_example ops) = Some y"
  obtains b m s live where "buddy_new (\<lambda>_. None) 4096 1024 = Some (Inr b, m)"
    "client_run buddy_alloc_at buddy_free_at ops ((m, b), []) = (s, live)" "y = f (s, live)"
  using assms by (auto simp: buddy_example_def split: option.splits sum.splits)

lemma buddy_example_shape:
  "buddy_new (\<lambda>_. None) 4096 1024 = Some (Inr b, m) \<Longrightarrow> heap_start b = 4096 \<and> max_order b = 9"
proof -
  have "map_option (\<lambda>(r, _). case r of Inr b \<Rightarrow> (heap_start b, max_order b) | Inl _ \<Rightarrow> (0, 0)) (buddy_new (\<lambda>_. None) 4096 1024)
    = Some (4096, 9)" by code_simp
  moreover assume "buddy_new (\<lambda>_. None) 4096 1024 = Some (Inr b, m)"
  ultimately show ?thesis by simp
qed

text \<open>
  C2. Safety of the buddy allocator. Whatever sequence of allocations and deallocations a client
  runs on an allocator made by \<open>BuddyAllocator::new\<close> over the region [ptr, ptr + sz), the live
  blocks are pairwise disjoint, lie inside the region and are 16-byte aligned; a layout's own
  alignment is honoured when the start of the managed heap has it.
\<close>

theorem buddy_client_safe:
  assumes "valid_region ptr sz" "buddy_new m ptr sz = Some (Inr b, m0)"
    and "client_run buddy_alloc_at buddy_free_at ops ((m0, b), []) = (s', live)"
  shows "distinct live \<and> blocks_disjoint lsize (set live) \<and>
    (\<forall>x \<in> set live. block lsize x \<subseteq> {ptr..<ptr + sz} \<and> heap_align b (snd x) dvd fst x)"
proof -
  note N = buddy_new_ok [OF assms(1,2)]
  have ok: "buddy_ok b s' (set live)" using buddy_allocator.run_ok [of b "(m0, b)" "[]"] N assms(3) by simp
  have "distinct live \<and> blocks_disjoint lsize (set live) \<and> (\<forall>(p, l) \<in> set live. heap_align b l dvd p)"
    using buddy_allocator.run_safe [of b "(m0, b)"] N assms(3) by simp
  then show ?thesis using buddy_ok_inside [OF ok] N by fastforce
qed

theorem buddy_client_safe_witness:
  "\<exists>live. map_option snd (buddy_example [Allocate \<lparr>lsize = 24, lalign = 8\<rparr>, Allocate \<lparr>lsize = 64, lalign = 8\<rparr>,
      Allocate \<lparr>lsize = 100, lalign = 32\<rparr>, Deallocate 1]) = Some live \<and> length live = 2 \<and> blocks_disjoint lsize (set live)"
proof -
  let ?ops = "[Allocate \<lparr>lsize = 24, lalign = 8\<rparr>, Allocate \<lparr>lsize = 64, lalign = 8\<rparr>,
    Allocate \<lparr>lsize = 100, lalign = 32\<rparr>, Deallocate 1]"
  have "map_option (length \<circ> snd) (buddy_example ?ops) = Some 2" by code_simp
  then obtain b m s live where e: "buddy_new (\<lambda>_. None) 4096 1024 = Some (Inr b, m)"
    "client_run buddy_alloc_at buddy_free_at ?ops ((m, b), []) = (s, live)" "2 = (length \<circ> snd) (s, live)"
    by (rule buddy_exampleE)
  then have "map_option snd (buddy_example ?ops) = Some live" by (simp add: buddy_example_def)
  with e buddy_client_safe [of 4096 1024 "\<lambda>_. None" b m ?ops s live] show ?thesis
    by (intro exI [of _ live]) (simp add: valid_region_def)
qed

text \<open>
  C7. Coalescing is complete. When a client has given back every block it took, in whatever order,
  the buddy allocator holds exactly one free block again, the whole arena at \<open>max_order\<close>: no
  fragmentation is left behind.
\<close>

theorem buddy_coalesces:
  assumes "valid_region ptr sz" "buddy_new m ptr sz = Some (Inr b, m0)"
    and "client_run buddy_alloc_at buddy_free_at ops ((m0, b), []) = (s', [])"
  shows "\<forall>k < MAX_ORDER. free_lists (snd s') ! k = (if k = max_order b then Some (heap_start b) else None)"
proof -
  have "buddy_ok b s' (set [])"
    using buddy_allocator.run_ok [of b "(m0, b)" "[]"] buddy_new_ok [OF assms(1,2)] assms(3) by fastforce
  then show ?thesis using buddy_ok_coalesced by simp
qed

theorem buddy_coalesces_witness:
  "\<exists>s. buddy_example [Allocate \<lparr>lsize = 24, lalign = 8\<rparr>, Allocate \<lparr>lsize = 64, lalign = 8\<rparr>, Deallocate 1, Deallocate 0]
     = Some (s, []) \<and> free_lists (snd s) ! 9 = Some 4096 \<and> free_lists (snd s) ! 5 = None"
proof -
  let ?ops = "[Allocate \<lparr>lsize = 24, lalign = 8\<rparr>, Allocate \<lparr>lsize = 64, lalign = 8\<rparr>, Deallocate 1, Deallocate 0]"
  have "map_option snd (buddy_example ?ops) = Some []" by code_simp
  then obtain b m s live where e: "buddy_new (\<lambda>_. None) 4096 1024 = Some (Inr b, m)"
    "client_run buddy_alloc_at buddy_free_at ?ops ((m, b), []) = (s, live)" "[] = snd (s, live)" by (rule buddy_exampleE)
  then have "buddy_example ?ops = Some (s, [])" by (simp add: buddy_example_def)
  with e buddy_coalesces [of 4096 1024 "\<lambda>_. None" b m ?ops s] buddy_example_shape [OF e(1)]
  show ?thesis by (simp add: MAX_ORDER_def valid_region_def)
qed

text \<open>
  What \<open>BuddyAllocator::allocate\<close> and \<open>deallocate\<close> return. Both always return: no loop over the
  free lists runs forever and no index is out of range. \<open>allocate\<close> fails with \<open>InvalidSize\<close> exactly for
  the empty layout and with \<open>OutOfMemory\<close>, changing nothing, exactly when every free list from the
  order of the layout on is empty; otherwise the block starts at a multiple of the layout's alignment
  from the start of the heap. Deallocating a live block always succeeds.
\<close>

theorem buddy_calls_return:
  assumes ok: "buddy_ok b0 (m, b) L" and l: "layout_ok l"
  shows "(if lsize l = 0 then buddy_allocate m b l = Some (Inl InvalidSize, m, b)
     else if \<forall>j \<in> {layout_order l..<MAX_ORDER}. free_lists b ! j = None
     then buddy_allocate m b l = Some (Inl OutOfMemory, m, b)
     else \<exists>p m' b'. buddy_allocate m b l = Some (Inr p, m', b') \<and> buddy_ok b0 (m', b') (insert (p, l) L)
       \<and> (p, l) \<notin> L \<and> lalign l dvd p - heap_start b) \<and>
    (\<forall>(p, k) \<in> L. \<exists>m' b'. buddy_deallocate m b p k = Some (Inr (), m', b') \<and> buddy_ok b0 (m', b') (L - {(p, k)}))"
  using buddy_alloc_result [OF ok l] buddy_allocate_zero [of l m b] buddy_dealloc_live [OF ok] by auto

theorem buddy_calls_return_witness:
  "\<exists>b m p m' b'. buddy_new (\<lambda>_. None) 4096 1024 = Some (Inr b, m) \<and>
     buddy_allocate m b \<lparr>lsize = 100, lalign = 64\<rparr> = Some (Inr p, m', b') \<and> 64 dvd p - 4096"
proof -
  have "map_option snd (buddy_example []) = Some []" by code_simp
  then obtain b m s live where e: "buddy_new (\<lambda>_. None) 4096 1024 = Some (Inr b, m)" by (rule buddy_exampleE)
  have "layout_ok \<lparr>lsize = 100, lalign = 64\<rparr>" "layout_order \<lparr>lsize = 100, lalign = 64\<rparr> = 7" by code_simp+
  moreover have ok: "buddy_ok b (m, b) {}" using buddy_new_ok [OF _ e] by (simp add: valid_region_def)
  moreover have "free_lists b ! 9 \<noteq> None"
    using buddy_ok_coalesced [OF ok] buddy_example_shape [OF e] by (simp add: MAX_ORDER_def)
  ultimately show ?thesis
    using buddy_calls_return [OF ok, of "\<lparr>lsize = 100, lalign = 64\<rparr>"] buddy_example_shape [OF e] e
    by (fastforce simp: MAX_ORDER_def split: if_splits)
qed

text \<open>
  What \<open>BuddyAllocator::new\<close> does with a region of at least 16 bytes. The managed block is the
  largest power of two strictly smaller than what is left of the region after aligning its start, so
  a region whose aligned size is 2^k uses only half of it; when that block is
  larger than 2^27 bytes the construction indexes the free lists out of range and panics.
\<close>

theorem buddy_new_outcome:
  assumes "16 \<le> sz" "valid_region ptr sz" "usize_align_up ptr 16 + 2 \<le> ptr + sz"
  shows "\<exists>i. 2 ^ i < ptr + sz - usize_align_up ptr 16 \<and> ptr + sz - usize_align_up ptr 16 \<le> 2 ^ Suc i \<and>
    (if i < MAX_ORDER
     then \<exists>m' b. buddy_new m ptr sz = Some (Inr b, m') \<and> max_order b = i \<and> heap_start b = usize_align_up ptr 16
       \<and> buddy_ok b (m', b) {}
     else buddy_new m ptr sz = None)"
proof -
  let ?n = "ptr + sz - usize_align_up ptr 16"
  let ?i = "size_to_order (next_power_of_two ?n div 2)"
  have al: "ptr \<le> usize_align_up ptr 16" using usize_align_up_16(2) [of ptr] assms(1,2) by (simp add: valid_region_def)
  then have n: "0 < ?n" "?n \<le> 2 ^ 63" "2 \<le> ?n" using assms unfolding valid_region_def by linarith+
  have al: "usize_align_up ptr 16 < ptr + sz" using assms(3) by simp
  show ?thesis
    using initial_order [OF n(1,2)] n(3) buddy_new_inv [OF assms(1,2) al, of m] buddy_new_ok [OF assms(2), of m]
    by (intro exI [of _ ?i]) (auto split: if_splits)
qed

theorem buddy_new_outcome_witness:
  "\<exists>i. 2 ^ i < (1024 :: nat) \<and> 1024 \<le> (2 :: nat) ^ Suc i \<and>
     (\<exists>m' b. buddy_new (\<lambda>_. None) 4096 1024 = Some (Inr b, m') \<and> max_order b = i)"
proof -
  have u: "usize_align_up 4096 16 = 4096" by code_simp
  have n: "(16 :: nat) \<le> 1024" "valid_region 4096 1024" "4096 + 2 \<le> (4096 :: nat) + 1024"
    "4096 + 1024 - (4096 :: nat) = 1024" by (simp_all add: valid_region_def)
  from buddy_new_outcome [of 1024 4096 "\<lambda>_. None", unfolded u n(4), OF n(1-3)] obtain i where i: "2 ^ i < (1024 :: nat)" "1024 \<le> (2 :: nat) ^ Suc i"
    "if i < MAX_ORDER then \<exists>m' b. buddy_new (\<lambda>_. None) 4096 1024 = Some (Inr b, m') \<and> max_order b = i \<and> heap_start b = 4096
       \<and> buddy_ok b (m', b) {} else buddy_new (\<lambda>_. None) 4096 1024 = None"
    by (elim exE conjE)
  from i(1) have "(2 :: nat) ^ i < 2 ^ 10" by simp
  then have "i < MAX_ORDER" by (simp only: power_strict_increasing_iff MAX_ORDER_def)
  with i show ?thesis by auto
qed

end
