(* ===== verification/Slab.thy ===== *)
theory Slab
  imports Heap_List
begin

text \<open>
  The slab allocator of heaperion/src/slab.rs: a slab is a region cut into slots of one size, whose
  free slots are chained through the memory, and the allocator is an array of up to eight slabs of
  growing slot sizes, carved one after the other out of the region it is given.
\<close>

definition SLAB_SIZES :: "nat list" where
  "SLAB_SIZES = [8, 16, 32, 64, 128, 256, 512]"

definition MIN_HEAP_SIZE :: nat where
  "MIN_HEAP_SIZE = 4096"

definition MAX_SLABS :: nat where
  "MAX_SLABS = 8"

record slab =
  slot_size :: nat
  free_list :: "nat option"
  slab_start :: nat
  slab_end :: nat
  free_count :: nat
  capacity :: nat

text \<open>The loop of \<open>Slab::new\<close> that links \<open>n\<close> slots from \<open>cur\<close> on behind \<open>prev\<close>.\<close>

fun slab_link ::
  "memory \<Rightarrow> nat \<Rightarrow> nat \<Rightarrow> nat \<Rightarrow> nat option \<Rightarrow> nat option \<Rightarrow> memory \<times> nat option" where
  "slab_link m sz 0 cur prev head = (m, head)"
| "slab_link m sz (Suc n) cur prev head =
     (let m1 = m(cur := None)
      in case prev of
           Some q \<Rightarrow> slab_link (m1(q := Some cur)) sz n (cur + sz) (Some cur) head
         | None \<Rightarrow> slab_link m1 sz n (cur + sz) (Some cur) (Some cur))"

definition slab_new :: "memory \<Rightarrow> nat \<Rightarrow> nat \<Rightarrow> nat \<Rightarrow> (heap_error + slab) \<times> memory" where
  "slab_new m slot start_ptr sz =
     (let aligned_addr = usize_align_up start_ptr slot;
          offset = usize_sub aligned_addr start_ptr
      in if offset \<ge> sz then (Inl InvalidSize, m)
         else let adjusted_size = sz - offset;
                  aligned_ptr = start_ptr + offset;
                  num_slots = adjusted_size div slot;
                  (m', head) = slab_link m slot num_slots aligned_ptr None None
              in (Inr \<lparr>slot_size = slot, free_list = head, slab_start = aligned_ptr,
                       slab_end = aligned_ptr + adjusted_size, free_count = num_slots,
                       capacity = num_slots\<rparr>, m'))"

definition slab_allocate :: "memory \<Rightarrow> slab \<Rightarrow> (heap_error + nat) \<times> slab" where
  "slab_allocate m s =
     (case free_list s of
        Some p \<Rightarrow> (Inr p, s\<lparr>free_list := m p, free_count := free_count s - 1\<rparr>)
      | None \<Rightarrow> (Inl OutOfMemory, s))"

definition slab_deallocate :: "memory \<Rightarrow> slab \<Rightarrow> nat \<Rightarrow> (heap_error + unit) \<times> memory \<times> slab" where
  "slab_deallocate m s p =
     (if p < slab_start s \<or> p \<ge> slab_end s then (Inl InvalidPointer, m, s)
      else if \<not> slot_size s dvd p - slab_start s then (Inl InvalidPointer, m, s)
      else (Inr (), m(p := free_list s), s\<lparr>free_list := Some p, free_count := free_count s + 1\<rparr>))"

definition slab_contains :: "slab \<Rightarrow> nat \<Rightarrow> bool" where
  "slab_contains s p \<longleftrightarrow> p \<ge> slab_start s \<and> p < slab_end s"

definition slab_is_full :: "slab \<Rightarrow> bool" where
  "slab_is_full s \<longleftrightarrow> free_count s = 0"

section \<open>The allocator\<close>

type_synonym slab_allocator = "slab option list"

text \<open>
  The loop of \<open>SlabAllocator::new\<close>, over the slot sizes from index \<open>i\<close> on; \<open>cur\<close> is
  \<open>current_ptr\<close>. The \<open>?\<close> on the new slab leaves the function with its error.
\<close>

fun slabs_fill ::
  "memory \<Rightarrow> nat \<Rightarrow> nat \<Rightarrow> nat \<Rightarrow> nat \<Rightarrow> nat \<Rightarrow> nat list \<Rightarrow> slab_allocator
     \<Rightarrow> (heap_error + slab_allocator) \<times> memory" where
  "slabs_fill m base remaining ptr cur i [] ss = (Inr ss, m)"
| "slabs_fill m base remaining ptr cur i (slot # slots) ss =
     (if i \<ge> MAX_SLABS then (Inr ss, m)
      else let used = cur - ptr;
               sz = min base (remaining - used)
           in if sz < slot * 4 then (Inr ss, m)
              else case slab_new m slot cur sz of
                     (Inl e, m') \<Rightarrow> (Inl e, m')
                   | (Inr s, m') \<Rightarrow>
                       slabs_fill m' base remaining ptr (cur + sz) (i + 1) slots
                         (if capacity s > 0 then ss[i := Some s] else ss))"

definition slabs_new :: "memory \<Rightarrow> nat \<Rightarrow> nat \<Rightarrow> (heap_error + slab_allocator) \<times> memory" where
  "slabs_new m ptr sz =
     (if sz < MIN_HEAP_SIZE then (Inl InvalidSize, m)
      else slabs_fill m (sz div length SLAB_SIZES) sz ptr ptr 0 SLAB_SIZES (replicate MAX_SLABS None))"

text \<open>The loops over \<open>self.slabs.iter_mut().flatten()\<close>; \<open>flatten\<close> keeps the slabs that exist.\<close>

definition flatten :: "'a option list \<Rightarrow> 'a list" where
  "flatten ss = concat (map (\<lambda>x. case x of None \<Rightarrow> [] | Some s \<Rightarrow> [s]) ss)"

fun slabs_alloc :: "memory \<Rightarrow> nat \<Rightarrow> slab_allocator \<Rightarrow> (heap_error + nat) \<times> slab_allocator" where
  "slabs_alloc m sz [] = (Inl OutOfMemory, [])"
| "slabs_alloc m sz (None # ss) = (let (r, ss') = slabs_alloc m sz ss in (r, None # ss'))"
| "slabs_alloc m sz (Some s # ss) =
     (if slot_size s \<ge> sz
      then (let (r, s') = slab_allocate m s in (r, Some s' # ss))
      else (let (r, ss') = slabs_alloc m sz ss in (r, Some s # ss')))"

definition slabs_allocate :: "memory \<Rightarrow> slab_allocator \<Rightarrow> layout \<Rightarrow> (heap_error + nat) \<times> slab_allocator" where
  "slabs_allocate m ss l =
     (if lsize l = 0 then (Inl InvalidSize, ss)
      else slabs_alloc m (max (lsize l) (lalign l)) ss)"

fun slabs_deallocate :: "memory \<Rightarrow> slab_allocator \<Rightarrow> nat \<Rightarrow> (heap_error + unit) \<times> memory \<times> slab_allocator" where
  "slabs_deallocate m [] p = (Inl InvalidPointer, m, [])"
| "slabs_deallocate m (None # ss) p = (let (r, m', ss') = slabs_deallocate m ss p in (r, m', None # ss'))"
| "slabs_deallocate m (Some s # ss) p =
     (if slab_contains s p
      then (let (r, m', s') = slab_deallocate m s p in (r, m', Some s' # ss))
      else (let (r, m', ss') = slabs_deallocate m ss p in (r, m', Some s # ss')))"

definition slabs_can_allocate :: "slab_allocator \<Rightarrow> layout \<Rightarrow> bool" where
  "slabs_can_allocate ss l \<longleftrightarrow>
     lsize l \<noteq> 0 \<and>
     list_ex (\<lambda>s. slot_size s \<ge> max (lsize l) (lalign l) \<and> \<not> slab_is_full s) (flatten ss)"

definition slabs_max_size :: nat where
  "slabs_max_size = (if SLAB_SIZES \<noteq> [] then last SLAB_SIZES else 0)"

section \<open>One slab\<close>

definition slots :: "slab \<Rightarrow> nat set" where
  "slots s = (\<lambda>i. slab_start s + i * slot_size s) ` {..<capacity s}"

definition region :: "slab \<Rightarrow> nat set" where
  "region s = {slab_start s..<slab_end s}"

text \<open>The fields that never change.\<close>

definition slab_shape :: "slab \<Rightarrow> slab" where
  "slab_shape s = s\<lparr>free_list := None, free_count := 0\<rparr>"

definition slab_wf :: "slab \<Rightarrow> bool" where
  "slab_wf s \<longleftrightarrow> slot_size s \<in> set SLAB_SIZES \<and> slot_size s dvd slab_start s \<and>
     slab_start s + capacity s * slot_size s \<le> slab_end s"

text \<open>The free slots \<open>xs\<close> of the chain and the slots \<open>A\<close> given out partition the slots of the slab.\<close>

definition slab_inv :: "memory \<Rightarrow> slab \<Rightarrow> nat list \<Rightarrow> nat set \<Rightarrow> bool" where
  "slab_inv m s xs A \<longleftrightarrow> slab_wf s \<and> chain m (free_list s) xs \<and> distinct xs \<and> free_count s = length xs \<and>
     set xs \<inter> A = {} \<and> set xs \<union> A = slots s"

lemma slab_sizes:
  assumes "x \<in> set SLAB_SIZES"
  shows "8 \<le> x \<and> x \<le> 512 \<and> (\<exists>k < 10. x = 2 ^ k)"
proof -
  have "x \<in> (\<lambda>k. 2 ^ k) ` {3, 4, 5, 6, 7, 8, 9 :: nat}" using assms by (simp add: SLAB_SIZES_def)
  then obtain k :: nat where "x = 2 ^ k" "k \<in> {3, 4, 5, 6, 7, 8, 9}" by (rule imageE)
  moreover from this(2) have "k < 10" by auto
  moreover have "8 \<le> x \<and> x \<le> 512" using assms by (auto simp: SLAB_SIZES_def)
  ultimately show ?thesis by blast
qed

lemma shape_simps [simp]:
  "slab_shape (s\<lparr>free_list := f, free_count := n\<rparr>) = slab_shape s"
  "slot_size (slab_shape s) = slot_size s" "slab_start (slab_shape s) = slab_start s"
  "slab_end (slab_shape s) = slab_end s" "capacity (slab_shape s) = capacity s"
  by (simp_all add: slab_shape_def)

lemma shape_eqD:
  assumes "slab_shape s = slab_shape t"
  shows "slots s = slots t" "region s = region t" "slab_wf s = slab_wf t" "slot_size s = slot_size t"
proof -
  have "slot_size s = slot_size t" "slab_start s = slab_start t" "slab_end s = slab_end t" "capacity s = capacity t"
    using assms shape_simps(2-5) by metis+
  then show "slots s = slots t" "region s = region t" "slab_wf s = slab_wf t" "slot_size s = slot_size t"
    by (simp_all add: slots_def region_def slab_wf_def)
qed

lemma slot_inside:
  assumes "slab_wf s" "p \<in> slots s"
  shows "{p..<p + slot_size s} \<subseteq> region s" "p \<in> region s" "slot_size s dvd p" "slot_size s dvd p - slab_start s"
proof -
  obtain i where i: "p = slab_start s + i * slot_size s" "i < capacity s" using assms(2) by (auto simp: slots_def)
  have "(i + 1) * slot_size s \<le> capacity s * slot_size s" using i(2) by (intro mult_right_mono) simp_all
  then show in': "{p..<p + slot_size s} \<subseteq> region s" using i(1) assms(1) by (auto simp: region_def slab_wf_def)
  have "0 < slot_size s" using assms(1) slab_sizes [of "slot_size s"] by (simp add: slab_wf_def)
  then show "p \<in> region s" using in' by auto
  show "slot_size s dvd p" "slot_size s dvd p - slab_start s" using i(1) assms(1) by (simp_all add: slab_wf_def)
qed

lemma slots_apart:
  assumes "slab_wf s" "p \<in> slots s" "q \<in> slots s" "p \<noteq> q"
  shows "{p..<p + slot_size s} \<inter> {q..<q + slot_size s} = {}"
proof -
  obtain i j where p: "p = slab_start s + i * slot_size s" and q: "q = slab_start s + j * slot_size s"
    using assms by (auto simp: slots_def)
  then have "i < j \<or> j < i" using assms(4) by (cases i j rule: linorder_cases) auto
  then have "(i + 1) * slot_size s \<le> j * slot_size s \<or> (j + 1) * slot_size s \<le> i * slot_size s"
    using mult_le_mono1 [of "i + 1" j] mult_le_mono1 [of "j + 1" i] by (metis Suc_eq_plus1 Suc_leI)
  then show ?thesis using p q by auto
qed

lemma slab_inv_frame:
  assumes "slab_inv m s xs A" "\<And>x. x \<in> region s - A \<Longrightarrow> m' x = m x"
  shows "slab_inv m' s xs A"
proof -
  have "m' x = m x" if "x \<in> set xs" for x
    using assms that slot_inside(2) [of s x] by (auto simp: slab_inv_def)
  then show ?thesis using assms(1) chain_cong [of m "free_list s" xs m'] by (simp add: slab_inv_def)
qed

text \<open>\<open>Slab::allocate\<close> pops a free slot, and fails exactly when the slab is full.\<close>

lemma slab_allocate_inv:
  assumes inv: "slab_inv m s xs A"
  shows "if slab_is_full s then slab_allocate m s = (Inl OutOfMemory, s)
    else \<exists>p s' xs'. slab_allocate m s = (Inr p, s') \<and> p \<in> slots s - A \<and> slab_inv m s' xs' (insert p A)
      \<and> slab_shape s' = slab_shape s"
proof (cases xs)
  case Nil
  then show ?thesis using inv by (auto simp: slab_inv_def slab_is_full_def slab_allocate_def)
next
  case (Cons p ps)
  let ?s = "s\<lparr>free_list := m p, free_count := free_count s - 1\<rparr>"
  have "slab_wf ?s" "slots ?s = slots s" using inv shape_eqD [of ?s s] by (simp_all add: slab_inv_def)
  then have "slab_inv m ?s ps (insert p A)" using inv Cons by (auto simp: slab_inv_def)
  moreover have "p \<in> slots s - A" using inv Cons by (auto simp: slab_inv_def)
  moreover have "\<not> slab_is_full s" "slab_allocate m s = (Inr p, ?s)"
    using inv Cons by (simp_all add: slab_inv_def slab_is_full_def slab_allocate_def)
  ultimately show ?thesis using shape_simps(1) by (simp only: if_False) blast
qed

lemma slab_deallocate_inv:
  assumes inv: "slab_inv m s xs A" and p: "p \<in> A"
  shows "\<exists>s' xs'. slab_deallocate m s p = (Inr (), m(p := free_list s), s') \<and> p \<in> region s
    \<and> slab_inv (m(p := free_list s)) s' xs' (A - {p}) \<and> slab_shape s' = slab_shape s"
proof -
  let ?s = "s\<lparr>free_list := Some p, free_count := free_count s + 1\<rparr>"
  have p': "p \<in> slots s" "slab_wf s" "p \<notin> set xs" using inv p by (auto simp: slab_inv_def)
  have "slab_deallocate m s p = (Inr (), m(p := free_list s), ?s)"
    using slot_inside(2,4) [OF p'(2,1)] by (auto simp: slab_deallocate_def region_def)
  moreover have "slab_wf ?s" "slots ?s = slots s" using inv shape_eqD [of ?s s] by (simp_all add: slab_inv_def)
  then have "slab_inv (m(p := free_list s)) ?s (p # xs) (A - {p})"
    using inv p p' by (auto simp: slab_inv_def chain_upd)
  ultimately show ?thesis using slot_inside(2) [OF p'(2,1)] shape_simps(1) by blast
qed

section \<open>Creating a slab\<close>

definition slot_list :: "nat \<Rightarrow> nat \<Rightarrow> nat \<Rightarrow> nat list" where
  "slot_list cur sz n = map (\<lambda>i. cur + i * sz) [0..<n]"

lemma slot_list_Suc: "slot_list cur sz (Suc n) = cur # slot_list (cur + sz) sz n"
  unfolding slot_list_def
  by (subst upt_conv_Cons) (simp_all add: map_Suc_upt [symmetric] o_def add.assoc del: upt_Suc)

lemma slab_link_tail:
  assumes "0 < sz" "q < cur" "m q = None"
  shows "\<exists>m'. slab_link m sz n cur (Some q) head = (m', head) \<and> chain m' (m' q) (slot_list cur sz n)
    \<and> (\<forall>x. x \<noteq> q \<longrightarrow> x \<notin> set (slot_list cur sz n) \<longrightarrow> m' x = m x)"
  using assms
proof (induction n arbitrary: m cur q)
  case 0
  then show ?case by (simp add: slot_list_def)
next
  case (Suc n)
  let ?m = "m(cur := None, q := Some cur)"
  have "cur < cur + sz" "?m cur = None" using Suc.prems by simp_all
  from Suc.IH [of cur "cur + sz" ?m, OF Suc.prems(1) this] obtain m' where m':
    "slab_link ?m sz n (cur + sz) (Some cur) head = (m', head)" "chain m' (m' cur) (slot_list (cur + sz) sz n)"
    "\<And>x. x \<noteq> cur \<Longrightarrow> x \<notin> set (slot_list (cur + sz) sz n) \<Longrightarrow> m' x = ?m x" by blast
  have "q \<notin> set (slot_list (cur + sz) sz n)" using Suc.prems(2) by (auto simp: slot_list_def)
  then have "m' q = Some cur" using m'(3) [of q] Suc.prems(2) by simp
  then show ?case using m' by (auto simp: slot_list_Suc)
qed

lemma slab_link_all:
  assumes "0 < sz"
  shows "\<exists>m' head. slab_link m sz n cur None None = (m', head) \<and> chain m' head (slot_list cur sz n)
    \<and> (\<forall>x. x \<notin> set (slot_list cur sz n) \<longrightarrow> m' x = m x)"
proof (cases n)
  case 0
  then show ?thesis by (simp add: slot_list_def)
next
  case (Suc k)
  have "cur < cur + sz" using assms by simp
  from slab_link_tail [OF assms this, of "m(cur := None)" k "Some cur"] obtain m' where
    "slab_link (m(cur := None)) sz k (cur + sz) (Some cur) (Some cur) = (m', Some cur)"
    "chain m' (m' cur) (slot_list (cur + sz) sz k)"
    "\<And>x. x \<noteq> cur \<Longrightarrow> x \<notin> set (slot_list (cur + sz) sz k) \<Longrightarrow> m' x = (m(cur := None)) x" by auto
  then show ?thesis using Suc by (auto simp: slot_list_Suc)
qed

lemma slab_new_inv:
  assumes slot: "slot \<in> set SLAB_SIZES" and sz: "slot \<le> sz" "cur + sz \<le> 2 ^ 64"
  shows "\<exists>s m' xs. slab_new m slot cur sz = (Inr s, m') \<and> slab_inv m' s xs {} \<and> slot_size s = slot
    \<and> region s \<subseteq> {cur..<cur + sz} \<and> (\<forall>x. x \<notin> region s \<longrightarrow> m' x = m x)"
proof -
  obtain k where k: "slot = 2 ^ k" "k < 10" using slab_sizes [OF slot] by blast
  have s: "8 \<le> slot" using slab_sizes [OF slot] by simp
  let ?a = "usize_align_up cur slot" and ?n = "(cur + sz - usize_align_up cur slot) div slot"
  have a: "slot dvd ?a" "cur \<le> ?a" "?a < cur + slot"
    using usize_align_up_props [of cur k] sz k by simp_all
  then have u: "usize_sub ?a cur = ?a - cur" using sz s by (intro usize_sub_eq) simp_all
  have n: "sz - (?a - cur) = cur + sz - ?a" "?a - cur < sz" "cur + (?a - cur) = ?a" using a sz by simp_all
  obtain m' head where L: "slab_link m slot ?n ?a None None = (m', head)" "chain m' head (slot_list ?a slot ?n)"
    "\<And>x. x \<notin> set (slot_list ?a slot ?n) \<Longrightarrow> m' x = m x" using slab_link_all [of slot m ?n ?a] s by auto
  let ?s = "\<lparr>slot_size = slot, free_list = head, slab_start = ?a, slab_end = ?a + (cur + sz - ?a),
    free_count = ?n, capacity = ?n\<rparr>"
  have new: "slab_new m slot cur sz = (Inr ?s, m')"
    unfolding slab_new_def Let_def u n(1,3) using L(1) n(2) by simp
  have S: "set (slot_list ?a slot ?n) = slots ?s"
    by (auto simp: slot_list_def slots_def image_def)
  have "distinct (slot_list ?a slot ?n)" using s by (simp add: slot_list_def distinct_map inj_on_def)
  moreover have wf: "slab_wf ?s" using slot a(1) by (simp add: slab_wf_def)
  ultimately have "slab_inv m' ?s (slot_list ?a slot ?n) {}"
    using L(2) S by (simp add: slab_inv_def, simp add: slot_list_def)
  moreover have "region ?s \<subseteq> {cur..<cur + sz}" using a n by (auto simp: region_def)
  moreover have "m' x = m x" if "x \<notin> region ?s" for x using L(3) that S slot_inside(2) [OF wf] by blast
  ultimately show ?thesis using new by (metis (no_types, lifting) select_convs(1))
qed

section \<open>The array of slabs\<close>

lemma flatten_simps [simp]:
  "flatten [] = []" "flatten (None # ss) = flatten ss" "flatten (Some s # ss) = s # flatten ss"
  by (simp_all add: flatten_def)

lemma set_flatten: "set (flatten ss) = {s. Some s \<in> set ss}"
  by (induction ss) (auto simp: flatten_def split: option.splits)

definition area :: "slab_allocator \<Rightarrow> nat set" where
  "area ss = (\<Union>s \<in> set (flatten ss). region s)"

definition shapes :: "slab_allocator \<Rightarrow> slab_allocator" where
  "shapes ss = map (map_option slab_shape) ss"

text \<open>The slabs have disjoint regions, and each holds the given-out slots of its region.\<close>

fun slabs_inv :: "memory \<Rightarrow> slab_allocator \<Rightarrow> nat set \<Rightarrow> bool" where
  "slabs_inv m [] A \<longleftrightarrow> A = {}"
| "slabs_inv m (None # ss) A \<longleftrightarrow> slabs_inv m ss A"
| "slabs_inv m (Some s # ss) A \<longleftrightarrow> (\<exists>xs. slab_inv m s xs (A \<inter> region s)) \<and>
     slabs_inv m ss (A - region s) \<and> region s \<inter> area ss = {}"

lemma area_simps [simp]:
  "area [] = {}" "area (None # ss) = area ss" "area (Some s # ss) = region s \<union> area ss"
  by (simp_all add: area_def)

lemma shapes_simps [simp]:
  "shapes [] = []" "shapes (x # ss) = map_option slab_shape x # shapes ss"
  by (simp_all add: shapes_def)

lemma area_shapes: "area (shapes ss) = area ss"
proof (induction ss)
  case (Cons x ss)
  then show ?case by (cases x) (simp_all add: region_def)
qed simp

lemma shapes_area: "shapes ss = shapes ss' \<Longrightarrow> area ss = area ss'"
  using area_shapes by metis

lemma shapes_member:
  "s \<in> set (flatten ss) \<Longrightarrow> shapes ss' = shapes ss \<Longrightarrow> \<exists>t \<in> set (flatten ss'). slab_shape t = slab_shape s"
proof (induction ss arbitrary: ss')
  case (Cons x ss)
  then obtain y ys where ys: "ss' = y # ys" "map_option slab_shape y = map_option slab_shape x" "shapes ys = shapes ss"
    by (cases ss') auto
  show ?case
  proof (cases "s \<in> set (flatten ss)")
    case True
    with Cons.IH [OF True ys(3)] ys(1) show ?thesis by (cases y) auto
  next
    case False
    with Cons.prems(1) have "x = Some s" by (cases x) auto
    with ys(1,2) show ?thesis by (cases y) auto
  qed
qed simp

lemma slabs_inv_area: "slabs_inv m ss A \<Longrightarrow> A \<subseteq> area ss"
  by (induction m ss A rule: slabs_inv.induct) auto

lemma slabs_inv_wf: "slabs_inv m ss A \<Longrightarrow> s \<in> set (flatten ss) \<Longrightarrow> slab_wf s"
  by (induction m ss A rule: slabs_inv.induct) (auto simp: slab_inv_def)

lemma slabs_inv_frame:
  "slabs_inv m ss A \<Longrightarrow> (\<And>x. x \<in> area ss - A \<Longrightarrow> m' x = m x) \<Longrightarrow> slabs_inv m' ss A"
proof (induction m ss A rule: slabs_inv.induct)
  case (3 m s ss A)
  obtain xs where xs: "slab_inv m s xs (A \<inter> region s)" using 3(2) by auto
  have "slab_inv m' s xs (A \<inter> region s)" by (rule slab_inv_frame [OF xs], rule 3(3)) auto
  moreover have "slabs_inv m' ss (A - region s)"
  proof (rule 3(1))
    show "slabs_inv m ss (A - region s)" using 3(2) by simp
  qed (rule 3(3), use 3(2) in auto)
  ultimately show ?case using 3(2) by auto
qed simp_all

lemma slabs_slots_apart:
  assumes "slabs_inv m ss A" "s \<in> set (flatten ss)" "t \<in> set (flatten ss)" "p \<in> slots s" "q \<in> slots t" "p \<noteq> q"
  shows "{p..<p + slot_size s} \<inter> {q..<q + slot_size t} = {}"
  using assms
proof (induction m ss A rule: slabs_inv.induct)
  case (3 m s' ss A)
  note sub = slot_inside(1) [of s p] slot_inside(1) [of t q]
  note wf = slabs_inv_wf [OF 3(2,3)] slabs_inv_wf [OF 3(2,4)]
  have area: "x \<in> set (flatten ss) \<Longrightarrow> region x \<inter> region s' = {}" for x using 3(2) by (auto simp: area_def)
  consider "s = s'" "t = s'" | "s = s'" "t \<in> set (flatten ss)" | "s \<in> set (flatten ss)" "t = s'"
    | "s \<in> set (flatten ss)" "t \<in> set (flatten ss)" using 3(3,4) by auto
  then show ?case
  proof cases
    case 1
    with 3 wf slots_apart [of s p q] show ?thesis by simp
  next
    case 4
    with 3 show ?thesis by simp
  qed (use sub wf area 3(5,6) in blast)+
qed simp_all

section \<open>Allocation and deallocation\<close>

lemma slabs_alloc_inv:
  assumes "slabs_inv m ss A"
  shows "case find (\<lambda>s. sz \<le> slot_size s) (flatten ss) of
      None \<Rightarrow> slabs_alloc m sz ss = (Inl OutOfMemory, ss)
    | Some s \<Rightarrow> if slab_is_full s then slabs_alloc m sz ss = (Inl OutOfMemory, ss)
        else \<exists>p ss'. slabs_alloc m sz ss = (Inr p, ss') \<and> slabs_inv m ss' (insert p A) \<and> p \<notin> A
          \<and> p \<in> slots s \<and> s \<in> set (flatten ss) \<and> sz \<le> slot_size s \<and> shapes ss' = shapes ss"
  using assms
proof (induction m ss A rule: slabs_inv.induct)
  case (2 m ss A)
  then show ?case by (cases "slabs_alloc m sz ss") (auto split: option.splits if_splits)
next
  case (3 m s ss A)
  obtain xs where xs: "slab_inv m s xs (A \<inter> region s)" using 3(2) by auto
  then have wf: "slab_wf s" by (simp add: slab_inv_def)
  show ?case
  proof (cases "sz \<le> slot_size s")
    case True
    show ?thesis
    proof (cases "slab_is_full s")
      case False
      then obtain p s' xs' where p: "slab_allocate m s = (Inr p, s')" "p \<in> slots s - (A \<inter> region s)"
        "slab_inv m s' xs' (insert p (A \<inter> region s))" "slab_shape s' = slab_shape s"
        using slab_allocate_inv [OF xs] by auto
      have pr: "p \<in> region s" using p(2) slot_inside(2) [OF wf] by blast
      then have "insert p (A \<inter> region s) = insert p A \<inter> region s" "insert p A - region s = A - region s" by auto
      then have "slabs_inv m (Some s' # ss) (insert p A)" using p(3) 3(2) shape_eqD(2) [OF p(4)] by auto
      then show ?thesis using True False p pr by simp
    qed (use True slab_allocate_inv [OF xs] in simp)
  next
    case False
    have rest: "slabs_inv m ss (A - region s)" "region s \<inter> area ss = {}" using 3(2) by auto
    show ?thesis
    proof (cases "find (\<lambda>s. sz \<le> slot_size s) (flatten ss)")
      case None
      then show ?thesis using False 3(1) rest by simp
    next
      case (Some t)
      show ?thesis
      proof (cases "slab_is_full t")
        case nf: False
        then obtain p ss' where p: "slabs_alloc m sz ss = (Inr p, ss')" "slabs_inv m ss' (insert p (A - region s))"
          "p \<notin> A - region s" "p \<in> slots t" "t \<in> set (flatten ss)" "sz \<le> slot_size t" "shapes ss' = shapes ss"
          using 3(1) [OF rest(1)] Some by auto
        have "p \<in> region t" using slot_inside(2) [OF slabs_inv_wf [OF rest(1) p(5)] p(4)] .
        then have pr: "p \<notin> region s" using rest(2) p(5) by (auto simp: area_def)
        then have "insert p A \<inter> region s = A \<inter> region s" "insert p A - region s = insert p (A - region s)" by auto
        then have "slabs_inv m (Some s # ss') (insert p A)"
          using p(2) xs rest(2) shapes_area [OF p(7)] by auto
        then show ?thesis using False Some nf p pr by simp
      qed (use False Some 3(1) [OF rest(1)] in simp)
    qed
  qed
qed simp

lemma slabs_deallocate_inv:
  assumes "slabs_inv m ss A" "p \<in> A"
  shows "\<exists>m' ss'. slabs_deallocate m ss p = (Inr (), m', ss') \<and> slabs_inv m' ss' (A - {p})
    \<and> shapes ss' = shapes ss \<and> (\<forall>x. x \<noteq> p \<longrightarrow> m' x = m x)"
  using assms
proof (induction m ss A rule: slabs_inv.induct)
  case (2 m ss A)
  then obtain m' ss' where "slabs_deallocate m ss p = (Inr (), m', ss')" "slabs_inv m' ss' (A - {p})"
    "shapes ss' = shapes ss" "\<forall>x. x \<noteq> p \<longrightarrow> m' x = m x" by auto
  then show ?case by simp
next
  case (3 m s ss A)
  obtain xs where xs: "slab_inv m s xs (A \<inter> region s)" using 3(2) by auto
  have rest: "slabs_inv m ss (A - region s)" "region s \<inter> area ss = {}" using 3(2) by auto
  have c: "slab_contains s p \<longleftrightarrow> p \<in> region s" by (auto simp: slab_contains_def region_def)
  show ?case
  proof (cases "p \<in> region s")
    case True
    define m' where "m' = m(p := free_list s)"
    have "p \<in> A \<inter> region s" using 3(3) True by simp
    from slab_deallocate_inv [OF xs this] obtain s' xs' where
      d: "slab_deallocate m s p = (Inr (), m', s')"
        "slab_inv m' s' xs' (A \<inter> region s - {p})" "slab_shape s' = slab_shape s" unfolding m'_def by blast
    have m': "\<forall>x. x \<noteq> p \<longrightarrow> m' x = m x" by (simp add: m'_def)
    have "slabs_inv m' ss (A - region s)"
      by (rule slabs_inv_frame [OF rest(1)]) (use True rest(2) m' in auto)
    moreover have "A \<inter> region s - {p} = (A - {p}) \<inter> region s" "A - region s = (A - {p}) - region s" using True by auto
    ultimately have "slabs_inv m' (Some s' # ss) (A - {p})"
      using d(2) rest(2) shape_eqD(2) [OF d(3)] by auto
    then show ?thesis using True c d m' by simp
  next
    case False
    then have "p \<in> A - region s" using 3(3) by simp
    from 3(1) [OF rest(1) this] obtain m' ss' where d: "slabs_deallocate m ss p = (Inr (), m', ss')"
      "slabs_inv m' ss' (A - region s - {p})" "shapes ss' = shapes ss" "\<forall>x. x \<noteq> p \<longrightarrow> m' x = m x" by blast
    have "slab_inv m' s xs (A \<inter> region s)" by (rule slab_inv_frame [OF xs]) (use False d(4) in auto)
    moreover have "A \<inter> region s = (A - {p}) \<inter> region s" "A - region s - {p} = (A - {p}) - region s" using False by auto
    ultimately have "slabs_inv m' (Some s # ss') (A - {p})" using d(2) rest(2) shapes_area [OF d(3)] by auto
    then show ?thesis using False c d by simp
  qed
qed simp

text \<open>A pointer outside every slab is refused, and nothing changes.\<close>

lemma slabs_deallocate_foreign: "p \<notin> area ss \<Longrightarrow> slabs_deallocate m ss p = (Inl InvalidPointer, m, ss)"
  by (induction m ss p rule: slabs_deallocate.induct) (auto simp: slab_contains_def region_def)

section \<open>Creating the allocator\<close>

lemma area_update:
  "i < length ss \<Longrightarrow> ss ! i = None \<Longrightarrow> area (ss[i := Some s]) = region s \<union> area ss"
proof (induction ss arbitrary: i)
  case (Cons x ss)
  then show ?case by (cases i; cases x) auto
qed simp

lemma slabs_inv_update:
  assumes "slabs_inv m ss {}" "i < length ss" "ss ! i = None" "slab_inv m s xs {}" "region s \<inter> area ss = {}"
  shows "slabs_inv m (ss[i := Some s]) {}"
  using assms
proof (induction ss arbitrary: i)
  case (Cons x ss)
  show ?case
  proof (cases i)
    case 0
    then show ?thesis using Cons.prems by auto
  next
    case (Suc j)
    then show ?thesis using Cons.prems Cons.IH [of j] area_update [of j ss s] by (cases x) auto
  qed
qed simp

text \<open>
  The loop of \<open>SlabAllocator::new\<close> never fails: a slab gets at least four times its slot size, so
  aligning its start leaves room.
\<close>

lemma slabs_fill_inv:
  assumes "set szs \<subseteq> set SLAB_SIZES" "ptr \<le> cur" "cur \<le> ptr + remaining" "ptr + remaining \<le> 2 ^ 64"
    and "slabs_inv m ss {}" "area ss \<subseteq> {ptr..<cur}" "length ss = MAX_SLABS" "\<And>j. i \<le> j \<Longrightarrow> j < MAX_SLABS \<Longrightarrow> ss ! j = None"
  shows "\<exists>m' ss'. slabs_fill m base remaining ptr cur i szs ss = (Inr ss', m') \<and> slabs_inv m' ss' {}
    \<and> area ss' \<subseteq> {ptr..<ptr + remaining} \<and> (\<forall>x. x \<notin> {ptr..<ptr + remaining} \<longrightarrow> m' x = m x)"
  using assms
proof (induction szs arbitrary: m cur i ss)
  case Nil
  then show ?case by auto
next
  case (Cons slot szs)
  define sz where "sz = min base (remaining - (cur - ptr))"
  show ?case
  proof (cases "i \<ge> MAX_SLABS \<or> sz < slot * 4")
    case True
    then show ?thesis using Cons.prems(2,3,5,6) by (auto simp: sz_def Let_def)
  next
    case False
    have in': "cur + sz \<le> ptr + remaining" using Cons.prems(2,3) by (simp add: sz_def)
    have "slot \<in> set SLAB_SIZES" "slot \<le> sz" "cur + sz \<le> 2 ^ 64" using Cons.prems(1,4) False in' by auto
    from slab_new_inv [OF this, of m] obtain s m1 xs where s: "slab_new m slot cur sz = (Inr s, m1)" "slab_inv m1 s xs {}"
      "region s \<subseteq> {cur..<cur + sz}" "\<And>x. x \<notin> region s \<Longrightarrow> m1 x = m x" by blast
    define ss1 where "ss1 = (if capacity s > 0 then ss[i := Some s] else ss)"
    have dis: "region s \<inter> area ss = {}" using s(3) Cons.prems(6) by force
    have i: "i < length ss" "ss ! i = None" using False Cons.prems(7,8) by auto
    have "slabs_inv m1 ss {}" by (rule slabs_inv_frame [OF Cons.prems(5)]) (use s(4) dis in auto)
    then have inv: "slabs_inv m1 ss1 {}" using slabs_inv_update [OF _ i s(2) dis] by (simp add: ss1_def)
    have "area ss1 \<subseteq> region s \<union> area ss" using area_update [OF i, of s] by (auto simp: ss1_def)
    then have ar: "area ss1 \<subseteq> {ptr..<cur + sz}" using s(3) Cons.prems(2,6) by fastforce
    have none: "ss1 ! j = None" if "i + 1 \<le> j" "j < MAX_SLABS" for j using that Cons.prems(8) by (simp add: ss1_def)
    have ps: "set szs \<subseteq> set SLAB_SIZES" "ptr \<le> cur + sz" "length ss1 = MAX_SLABS"
      using Cons.prems(1,2,7) by (simp_all add: ss1_def)
    from Cons.IH [OF ps(1,2) in' Cons.prems(4) inv ar ps(3) none] obtain m' ss' where
      r: "slabs_fill m1 base remaining ptr (cur + sz) (i + 1) szs ss1 = (Inr ss', m')" "slabs_inv m' ss' {}"
      "area ss' \<subseteq> {ptr..<ptr + remaining}" "\<forall>x. x \<notin> {ptr..<ptr + remaining} \<longrightarrow> m' x = m1 x" by blast
    have "slabs_fill m base remaining ptr cur i (slot # szs) ss = (Inr ss', m')"
      using False s(1) r(1) by (simp add: Let_def sz_def [symmetric] ss1_def)
    moreover have "region s \<subseteq> {ptr..<ptr + remaining}" using s(3) in' Cons.prems(2) by fastforce
    then have "m' x = m x" if "x \<notin> {ptr..<ptr + remaining}" for x using r(4) s(4) [of x] that by (metis subsetD)
    ultimately show ?thesis using r(2,3) by (intro exI conjI allI impI)
  qed
qed

lemma slabs_inv_none: "slabs_inv m (replicate n None) {} \<and> area (replicate n None) = {}"
  by (induction n) auto

lemma slabs_new_inv:
  assumes "valid_region ptr sz"
  shows "if sz < 4096 then slabs_new m ptr sz = (Inl InvalidSize, m)
    else \<exists>m' ss. slabs_new m ptr sz = (Inr ss, m') \<and> slabs_inv m' ss {} \<and> area ss \<subseteq> {ptr..<ptr + sz}
      \<and> (\<forall>x. x \<notin> {ptr..<ptr + sz} \<longrightarrow> m' x = m x)"
  using slabs_fill_inv [of SLAB_SIZES ptr ptr sz m "replicate MAX_SLABS None" 0 "sz div length SLAB_SIZES"]
    assms slabs_inv_none [of m MAX_SLABS] by (simp add: slabs_new_def MIN_HEAP_SIZE_def valid_region_def)

section \<open>The slab allocator meets the allocator contract\<close>

definition slab_alloc_at :: "memory \<times> slab_allocator \<Rightarrow> layout \<Rightarrow> (nat \<times> memory \<times> slab_allocator) option" where
  "slab_alloc_at s l =
     (if layout_ok l
      then (case slabs_allocate (fst s) (snd s) l of (Inr p, ss') \<Rightarrow> Some (p, fst s, ss') | (Inl _, _) \<Rightarrow> None)
      else None)"

definition slab_free_at :: "memory \<times> slab_allocator \<Rightarrow> nat \<Rightarrow> layout \<Rightarrow> memory \<times> slab_allocator" where
  "slab_free_at s p l = snd (slabs_deallocate (fst s) (snd s) p)"

definition slab_ok :: "slab_allocator \<Rightarrow> memory \<times> slab_allocator \<Rightarrow> (nat \<times> layout) set \<Rightarrow> bool" where
  "slab_ok ss0 s L \<longleftrightarrow> shapes (snd s) = shapes ss0 \<and> slabs_inv (fst s) (snd s) (fst ` L) \<and> inj_on fst L \<and>
     (\<forall>x \<in> L. layout_ok (snd x) \<and>
        (\<exists>t \<in> set (flatten ss0). fst x \<in> slots t \<and> lsize (snd x) \<le> slot_size t \<and> lalign (snd x) \<le> slot_size t))"

lemma pow2_dvd: "(2 :: nat) ^ i \<le> 2 ^ j \<Longrightarrow> (2 :: nat) ^ i dvd 2 ^ j"
  by (simp add: le_imp_power_dvd)

lemma slab_ok_slot:
  assumes "slab_ok ss0 s L" "x \<in> L"
  obtains t where "t \<in> set (flatten (snd s))" "fst x \<in> slots t" "block lsize x \<subseteq> {fst x..<fst x + slot_size t}"
    "lalign (snd x) dvd slot_size t" "slab_wf t" "lsize (snd x) \<le> 512"
proof -
  obtain t0 where t0: "t0 \<in> set (flatten ss0)" "fst x \<in> slots t0" "lsize (snd x) \<le> slot_size t0" "lalign (snd x) \<le> slot_size t0"
    and l: "layout_ok (snd x)"
    using assms by (auto simp: slab_ok_def)
  obtain t where t: "t \<in> set (flatten (snd s))" "slab_shape t = slab_shape t0"
    using shapes_member [OF t0(1)] assms(1) by (auto simp: slab_ok_def)
  then have wf: "slab_wf t" using slabs_inv_wf assms(1) by (auto simp: slab_ok_def)
  then obtain k where k: "slot_size t = 2 ^ k" "slot_size t \<le> 512" using slab_sizes [of "slot_size t"] by (auto simp: slab_wf_def)
  obtain a where "lalign (snd x) = 2 ^ a" using l by (auto simp: layout_ok_def)
  then have "lalign (snd x) dvd slot_size t" using pow2_dvd [of a k] t0(4) k(1) shape_eqD(4) [OF t(2)] by simp
  then show thesis using that [OF t(1)] t0 wf k(2) shape_eqD [OF t(2)] by (auto simp: block_def)
qed

lemma slab_ok_disjoint: "slab_ok ss0 s L \<Longrightarrow> blocks_disjoint lsize L"
proof -
  assume ok: "slab_ok ss0 s L"
  have "block lsize x \<inter> block lsize y = {}" if xy: "x \<in> L" "y \<in> L" "x \<noteq> y" for x y
  proof -
    obtain t where t: "t \<in> set (flatten (snd s))" "fst x \<in> slots t" "block lsize x \<subseteq> {fst x..<fst x + slot_size t}"
      using slab_ok_slot [OF ok xy(1)] by metis
    obtain u where u: "u \<in> set (flatten (snd s))" "fst y \<in> slots u" "block lsize y \<subseteq> {fst y..<fst y + slot_size u}"
      using slab_ok_slot [OF ok xy(2)] by metis
    have "fst x \<noteq> fst y" using xy ok by (auto simp: slab_ok_def inj_on_def)
    then have "{fst x..<fst x + slot_size t} \<inter> {fst y..<fst y + slot_size u} = {}"
      using slabs_slots_apart [of "fst s" "snd s" "fst ` L" t u "fst x" "fst y"] t u ok by (simp add: slab_ok_def)
    with t(3) u(3) show ?thesis by blast
  qed
  then show ?thesis by (auto simp: blocks_disjoint_def)
qed

interpretation slabs_allocator: allocator slab_alloc_at slab_free_at lsize lalign "slab_ok ss0" for ss0
proof unfold_locales
  fix s :: "memory \<times> slab_allocator" and L l p s'
  assume ok: "slab_ok ss0 s L" and al: "slab_alloc_at s l = Some (p, s')"
  have l: "layout_ok l" "slabs_alloc (fst s) (max (lsize l) (lalign l)) (snd s) = (Inr p, snd s')" "fst s' = fst s"
    using al by (auto simp: slab_alloc_at_def slabs_allocate_def split: if_splits prod.splits sum.splits)
  have inv: "slabs_inv (fst s) (snd s) (fst ` L)" using ok by (simp add: slab_ok_def)
  obtain t where t: "slabs_inv (fst s) (snd s') (insert p (fst ` L))" "p \<notin> fst ` L" "p \<in> slots t"
    "t \<in> set (flatten (snd s))" "max (lsize l) (lalign l) \<le> slot_size t" "shapes (snd s') = shapes (snd s)"
    using slabs_alloc_inv [OF inv, of "max (lsize l) (lalign l)"] l(2) by (auto split: option.splits if_splits)
  have "shapes ss0 = shapes (snd s)" using ok by (simp add: slab_ok_def)
  from shapes_member [OF t(4) this] obtain t0 where t0: "t0 \<in> set (flatten ss0)" "slab_shape t0 = slab_shape t" by blast
  then have "\<exists>t \<in> set (flatten ss0). p \<in> slots t \<and> lsize l \<le> slot_size t \<and> lalign l \<le> slot_size t"
    using t(3,5) shape_eqD [OF t0(2)] by auto
  moreover have "(p, l) \<notin> L" using t(2) by force
  ultimately show "slab_ok ss0 s' (insert (p, l) L) \<and> (p, l) \<notin> L"
    using ok t(1,2,6) l(1,3) by (auto simp: slab_ok_def)
next
  fix s :: "memory \<times> slab_allocator" and L p l
  assume ok: "slab_ok ss0 s L" and x: "(p, l) \<in> L"
  have "slabs_inv (fst s) (snd s) (fst ` L)" "p \<in> fst ` L" using ok x by (force simp: slab_ok_def)+
  from slabs_deallocate_inv [OF this] obtain m' ss' where d: "slabs_deallocate (fst s) (snd s) p = (Inr (), m', ss')"
    "slabs_inv m' ss' (fst ` L - {p})" "shapes ss' = shapes (snd s)" by blast
  have "fst ` (L - {(p, l)}) = fst ` L - {p}"
    using ok x inj_on_image_set_diff [of fst L L "{(p, l)}"] by (auto simp: slab_ok_def)
  moreover have "inj_on fst (L - {(p, l)})" using ok by (auto simp: slab_ok_def intro: inj_on_subset)
  ultimately show "slab_ok ss0 (slab_free_at s p l) (L - {(p, l)})"
    using ok d by (simp add: slab_ok_def slab_free_at_def)
next
  fix s :: "memory \<times> slab_allocator" and L p l
  assume "slab_ok ss0 s L" "(p, l) \<in> L"
  then obtain t where "p \<in> slots t" "lalign l dvd slot_size t" "slab_wf t" by (metis slab_ok_slot fst_conv snd_conv)
  then show "lalign l dvd p" using slot_inside(3) dvd_trans by blast
qed (rule slab_ok_disjoint)

lemma slabs_new_ok:
  assumes "valid_region ptr sz" "slabs_new m ptr sz = (Inr ss, m0)"
  shows "slab_ok ss (m0, ss) {} \<and> area ss \<subseteq> {ptr..<ptr + sz}"
  using slabs_new_inv [OF assms(1), of m] assms(2) by (simp add: slab_ok_def split: if_splits)

lemma slab_ok_inside:
  assumes ok: "slab_ok ss0 s L" and x: "x \<in> L"
  shows "block lsize x \<subseteq> area ss0 \<and> fst x \<in> area ss0"
proof -
  obtain t where t: "t \<in> set (flatten (snd s))" "fst x \<in> slots t" "block lsize x \<subseteq> {fst x..<fst x + slot_size t}"
    "slab_wf t" using slab_ok_slot [OF ok x] by metis
  have "region t \<subseteq> area (snd s)" using t(1) by (auto simp: area_def)
  moreover have "area (snd s) = area ss0" using ok shapes_area [of "snd s" ss0] by (simp add: slab_ok_def)
  ultimately show ?thesis using slot_inside(1,2) [OF t(4,2)] t(3) by blast
qed

lemma slab_ok_frame:
  assumes "slab_ok ss0 (m, ss) L" "\<And>x. x \<in> area ss0 - fst ` L \<Longrightarrow> m' x = m x"
  shows "slab_ok ss0 (m', ss) L"
proof -
  have "area ss = area ss0" using assms(1) shapes_area [of ss ss0] by (simp add: slab_ok_def)
  then have "slabs_inv m' ss (fst ` L)" using slabs_inv_frame [of m ss "fst ` L" m'] assms by (simp add: slab_ok_def)
  with assms(1) show ?thesis by (simp add: slab_ok_def)
qed

section \<open>Properties\<close>

text \<open>
  C8. Safety of the slab allocator. Whatever sequence of allocations and deallocations a client runs
  on an allocator made by \<open>SlabAllocator::new\<close>, the live blocks are pairwise disjoint, lie inside the
  region the allocator was given and have the alignment of their layout.
\<close>

theorem slab_client_safe:
  assumes "valid_region ptr sz" "slabs_new m ptr sz = (Inr ss, m0)"
    and "client_run slab_alloc_at slab_free_at ops ((m0, ss), []) = (s', live)"
  shows "distinct live \<and> blocks_disjoint lsize (set live) \<and>
    (\<forall>x \<in> set live. block lsize x \<subseteq> {ptr..<ptr + sz} \<and> lalign (snd x) dvd fst x)"
proof -
  note N = slabs_new_ok [OF assms(1,2)]
  have ok: "slab_ok ss s' (set live)" using slabs_allocator.run_ok [of ss "(m0, ss)" "[]"] N assms(3) by simp
  have "distinct live \<and> blocks_disjoint lsize (set live) \<and> (\<forall>(p, l) \<in> set live. lalign l dvd p)"
    using slabs_allocator.run_safe [of ss "(m0, ss)"] N assms(3) by simp
  then show ?thesis using slab_ok_inside [OF ok] N by fastforce
qed

theorem slab_client_safe_witness:
  "\<exists>ss m0 s' live. slabs_new (\<lambda>_. None) 4096 4096 = (Inr ss, m0) \<and>
     client_run slab_alloc_at slab_free_at [Allocate \<lparr>lsize = 40, lalign = 8\<rparr>, Allocate \<lparr>lsize = 64, lalign = 8\<rparr>] ((m0, ss), [])
       = (s', live) \<and> length live = 2 \<and> blocks_disjoint lsize (set live)"
proof -
  let ?ops = "[Allocate \<lparr>lsize = 40, lalign = 8\<rparr>, Allocate \<lparr>lsize = 64, lalign = 8\<rparr>]"
  have "(case slabs_new (\<lambda>_. None) 4096 4096 of (Inr ss, m0) \<Rightarrow>
      length (snd (client_run slab_alloc_at slab_free_at ?ops ((m0, ss), []))) | _ \<Rightarrow> 0) = 2" by code_simp
  moreover obtain ss m0 where n: "slabs_new (\<lambda>_. None) 4096 4096 = (Inr ss, m0)"
    using slabs_new_inv [of 4096 4096 "\<lambda>_. None"] by (auto simp: valid_region_def)
  moreover obtain s' live where r: "client_run slab_alloc_at slab_free_at ?ops ((m0, ss), []) = (s', live)" by fastforce
  ultimately show ?thesis using slab_client_safe [OF _ n r] by (intro exI [of _ ss] exI [of _ m0] exI [of _ s'] exI [of _ live])
    (simp add: valid_region_def)
qed

text \<open>
  What the slab allocator returns. \<open>allocate\<close> fails with \<open>InvalidSize\<close> exactly for the empty layout
  and with \<open>OutOfMemory\<close> exactly when no slab has slots that large or the first such slab is full,
  whatever the larger slabs hold; nothing changes then. Otherwise it hands out a free slot. A live
  block is always taken back, and a pointer outside the slabs is refused with \<open>InvalidPointer\<close>.
\<close>

theorem slab_calls:
  assumes ok: "slab_ok ss0 (m, ss) L" and l: "layout_ok l"
  shows "(case find (\<lambda>s. max (lsize l) (lalign l) \<le> slot_size s) (flatten ss) of
       None \<Rightarrow> slabs_allocate m ss l = (Inl (if lsize l = 0 then InvalidSize else OutOfMemory), ss)
     | Some s \<Rightarrow> if lsize l = 0 \<or> slab_is_full s
         then slabs_allocate m ss l = (Inl (if lsize l = 0 then InvalidSize else OutOfMemory), ss)
         else \<exists>p ss'. slabs_allocate m ss l = (Inr p, ss') \<and> slab_ok ss0 (m, ss') (insert (p, l) L)
           \<and> (p, l) \<notin> L \<and> slabs_can_allocate ss l) \<and>
    (\<forall>(p, k) \<in> L. \<exists>m' ss'. slabs_deallocate m ss p = (Inr (), m', ss') \<and> slab_ok ss0 (m', ss') (L - {(p, k)})) \<and>
    (\<forall>p. p \<notin> area ss0 \<longrightarrow> slabs_deallocate m ss p = (Inl InvalidPointer, m, ss))"
  (is "?alloc \<and> ?dealloc \<and> ?foreign")
proof (intro conjI)
  have inv: "slabs_inv m ss (fst ` L)" using ok by (simp add: slab_ok_def)
  note A = slabs_alloc_inv [OF inv, of "max (lsize l) (lalign l)"]
  show ?alloc
  proof (cases "find (\<lambda>s. max (lsize l) (lalign l) \<le> slot_size s) (flatten ss)")
    case None
    with A show ?thesis by (auto simp: slabs_allocate_def)
  next
    case (Some s)
    show ?thesis
    proof (cases "lsize l = 0 \<or> slab_is_full s")
      case True
      with A Some show ?thesis by (auto simp: slabs_allocate_def)
    next
      case False
      with A Some obtain p ss' where p: "slabs_allocate m ss l = (Inr p, ss')" "s \<in> set (flatten ss)"
        "max (lsize l) (lalign l) \<le> slot_size s"
        by (auto simp: slabs_allocate_def)
      then have "slab_alloc_at (m, ss) l = Some (p, m, ss')" using l by (simp add: slab_alloc_at_def)
      from slabs_allocator.alloc_ok [OF ok this] p show ?thesis
        using Some False by (auto simp: slabs_can_allocate_def list_ex_iff)
    qed
  qed
  have "\<exists>m' ss'. slabs_deallocate m ss p = (Inr (), m', ss') \<and> slab_ok ss0 (m', ss') (L - {(p, k)})"
    if "(p, k) \<in> L" for p k
  proof -
    have "p \<in> fst ` L" using that by force
    from slabs_deallocate_inv [OF inv this] slabs_allocator.dealloc_ok [OF ok that]
    show ?thesis by (auto simp: slab_free_at_def)
  qed
  then show ?dealloc by blast
  show ?foreign using slabs_deallocate_foreign [of _ ss m] ok shapes_area [of ss ss0] by (simp add: slab_ok_def)
qed

text \<open>A slab of two free slots of 64 bytes.\<close>

definition slab_example :: slab where
  "slab_example = \<lparr>slot_size = 64, free_list = Some 4096, slab_start = 4096, slab_end = 4224, free_count = 2, capacity = 2\<rparr>"

lemma slab_example_ok: "slab_ok [Some slab_example] ((\<lambda>_. None)(4096 := Some 4160), [Some slab_example]) {}"
proof -
  have "slots slab_example = {4096, 4160}" by (auto simp: slots_def slab_example_def lessThan_Suc numeral_2_eq_2)
  then have "slab_inv ((\<lambda>_. None)(4096 := Some 4160)) slab_example [4096, 4160] {}"
    by (simp add: slab_inv_def slab_wf_def) (simp add: slab_example_def SLAB_SIZES_def)
  then show ?thesis by (auto simp: slab_ok_def)
qed

theorem slab_calls_witness:
  "\<exists>p ss'. slabs_allocate ((\<lambda>_. None)(4096 := Some 4160)) [Some slab_example] \<lparr>lsize = 40, lalign = 8\<rparr> = (Inr p, ss')
     \<and> slabs_can_allocate [Some slab_example] \<lparr>lsize = 40, lalign = 8\<rparr>"
proof -
  have "layout_ok \<lparr>lsize = 40, lalign = 8\<rparr>" by code_simp
  from slab_calls [OF slab_example_ok this] show ?thesis by (auto simp: slab_example_def slab_is_full_def)
qed

end
