(* ===== verification/Hybrid.thy ===== *)
theory Hybrid
  imports Buddy Slab
begin

text \<open>
  The hybrid allocator of heaperion/src/hybrid.rs, which sends small requests to a slab allocator
  and the others, and those the slabs cannot serve, to a buddy allocator over a disjoint part of
  the region, and the kernel heap of kernel/src/mem/heap.rs built on it. Both allocators keep their
  free lists in the one memory.
\<close>

definition SLAB_THRESHOLD :: nat where
  "SLAB_THRESHOLD = 512"

record hybrid =
  hslab :: slab_allocator
  hbuddy :: buddy

definition hybrid_new :: "memory \<Rightarrow> nat \<Rightarrow> nat \<Rightarrow> ((heap_error + hybrid) \<times> memory) option" where
  "hybrid_new m ptr sz =
     (let slab_size = sz div 4;
          buddy_size = sz - slab_size;
          buddy_start = ptr + slab_size
      in case slabs_new m ptr slab_size of
           (Inl e, m1) \<Rightarrow> Some (Inl e, m1)
         | (Inr ss, m1) \<Rightarrow>
             (case buddy_new m1 buddy_start buddy_size of
                None \<Rightarrow> None
              | Some (Inl e, m2) \<Rightarrow> Some (Inl e, m2)
              | Some (Inr b, m2) \<Rightarrow> Some (Inr \<lparr>hslab = ss, hbuddy = b\<rparr>, m2)))"

text \<open>The call of the buddy allocator, which ends both operations.\<close>

definition on_buddy :: "hybrid \<Rightarrow> ('r \<times> memory \<times> buddy) option \<Rightarrow> ('r \<times> memory \<times> hybrid) option" where
  "on_buddy h res = map_option (\<lambda>(r, m, b). (r, m, h\<lparr>hbuddy := b\<rparr>)) res"

definition hybrid_allocate ::
  "memory \<Rightarrow> hybrid \<Rightarrow> layout \<Rightarrow> ((heap_error + nat) \<times> memory \<times> hybrid) option" where
  "hybrid_allocate m h l =
     (if lsize l = 0 then Some (Inl InvalidSize, m, h)
      else if lsize l \<le> SLAB_THRESHOLD \<and> lsize l \<le> slabs_max_size
      then (case slabs_allocate m (hslab h) l of
              (Inr p, ss) \<Rightarrow> Some (Inr p, m, h\<lparr>hslab := ss\<rparr>)
            | (Inl _, ss) \<Rightarrow> on_buddy (h\<lparr>hslab := ss\<rparr>) (buddy_allocate m (hbuddy h) l))
      else on_buddy h (buddy_allocate m (hbuddy h) l))"

definition hybrid_deallocate ::
  "memory \<Rightarrow> hybrid \<Rightarrow> nat \<Rightarrow> layout \<Rightarrow> ((heap_error + unit) \<times> memory \<times> hybrid) option" where
  "hybrid_deallocate m h p l =
     (if lsize l \<le> SLAB_THRESHOLD \<and> lsize l \<le> slabs_max_size
      then (case slabs_deallocate m (hslab h) p of
              (Inr _, m1, ss) \<Rightarrow> Some (Inr (), m1, h\<lparr>hslab := ss\<rparr>)
            | (Inl _, m1, ss) \<Rightarrow> on_buddy (h\<lparr>hslab := ss\<rparr>) (buddy_deallocate m1 (hbuddy h) p l))
      else on_buddy h (buddy_deallocate m (hbuddy h) p l))"

section \<open>The kernel heap\<close>

text \<open>
  \<open>KERNEL_HEAP\<close> is \<open>None\<close> until \<open>init\<close> has run. \<open>start\<close> is the first address of the pages that
  \<open>alloc_map\<close> returned; the inner \<open>unwrap\<close>s panic, which is \<open>None\<close>.
\<close>

type_synonym kernel_heap = "(memory \<times> hybrid) option"

definition KERNEL_HEAP_PAGES :: nat where
  "KERNEL_HEAP_PAGES = 4"

definition heap_init :: "memory \<Rightarrow> nat \<Rightarrow> kernel_heap option" where
  "heap_init m start =
     (case hybrid_new m start (KERNEL_HEAP_PAGES * 2 ^ 21) of
        Some (Inr h, m') \<Rightarrow> Some (Some (m', h))
      | _ \<Rightarrow> None)"

text \<open>\<open>GlobalAlloc::alloc\<close> of \<open>HeapGA\<close>: the null pointer is 0.\<close>

definition ga_alloc :: "kernel_heap \<Rightarrow> layout \<Rightarrow> (nat \<times> kernel_heap) option" where
  "ga_alloc kh l =
     (case kh of
        None \<Rightarrow> Some (0, None)
      | Some (m, h) \<Rightarrow>
          (case hybrid_allocate m h l of
             None \<Rightarrow> None
           | Some (Inr p, m', h') \<Rightarrow> Some (p, Some (m', h'))
           | Some (Inl _, m', h') \<Rightarrow> Some (0, Some (m', h'))))"

definition ga_dealloc :: "kernel_heap \<Rightarrow> nat \<Rightarrow> layout \<Rightarrow> kernel_heap option" where
  "ga_dealloc kh p l =
     (case kh of
        None \<Rightarrow> Some None
      | Some (m, h) \<Rightarrow>
          (case hybrid_deallocate m h p l of
             None \<Rightarrow> None
           | Some (_, m', h') \<Rightarrow> Some (Some (m', h'))))"

section \<open>Two allocators over one memory\<close>

definition slab_part :: "hybrid \<Rightarrow> (nat \<times> layout) set \<Rightarrow> (nat \<times> layout) set" where
  "slab_part h0 L = {x \<in> L. fst x \<in> area (hslab h0)}"

definition buddy_part :: "hybrid \<Rightarrow> (nat \<times> layout) set \<Rightarrow> (nat \<times> layout) set" where
  "buddy_part h0 L = {x \<in> L. fst x \<notin> area (hslab h0)}"

definition hybrid_ok :: "hybrid \<Rightarrow> memory \<times> hybrid \<Rightarrow> (nat \<times> layout) set \<Rightarrow> bool" where
  "hybrid_ok h0 s L \<longleftrightarrow> slab_ok (hslab h0) (fst s, hslab (snd s)) (slab_part h0 L) \<and>
     buddy_ok (hbuddy h0) (fst s, hbuddy (snd s)) (buddy_part h0 L) \<and>
     area (hslab h0) \<inter> arena (hbuddy h0) = {} \<and> (\<forall>x \<in> L. lsize (snd x) \<noteq> 0)"

lemma parts_insert:
  "p \<in> area (hslab h0) \<Longrightarrow> slab_part h0 (insert (p, l) L) = insert (p, l) (slab_part h0 L)"
  "p \<in> area (hslab h0) \<Longrightarrow> buddy_part h0 (insert (p, l) L) = buddy_part h0 L"
  "p \<notin> area (hslab h0) \<Longrightarrow> slab_part h0 (insert (p, l) L) = slab_part h0 L"
  "p \<notin> area (hslab h0) \<Longrightarrow> buddy_part h0 (insert (p, l) L) = insert (p, l) (buddy_part h0 L)"
  by (auto simp: slab_part_def buddy_part_def)

lemma parts_remove:
  "p \<in> area (hslab h0) \<Longrightarrow> slab_part h0 (L - {(p, l)}) = slab_part h0 L - {(p, l)}"
  "p \<in> area (hslab h0) \<Longrightarrow> buddy_part h0 (L - {(p, l)}) = buddy_part h0 L"
  "p \<notin> area (hslab h0) \<Longrightarrow> slab_part h0 (L - {(p, l)}) = slab_part h0 L"
  "p \<notin> area (hslab h0) \<Longrightarrow> buddy_part h0 (L - {(p, l)}) = buddy_part h0 L - {(p, l)}"
  by (auto simp: slab_part_def buddy_part_def)

lemma hybrid_okD:
  assumes "hybrid_ok h0 (m, h) L"
  shows "slab_ok (hslab h0) (m, hslab h) (slab_part h0 L)" "buddy_ok (hbuddy h0) (m, hbuddy h) (buddy_part h0 L)"
    "area (hslab h0) \<inter> arena (hbuddy h0) = {}"
  using assms by (simp_all add: hybrid_ok_def)

text \<open>
  A request served by the slabs. They write nothing when they hand out a slot, so the buddy side is
  unaffected.
\<close>

lemma hybrid_slab_alloc:
  assumes ok: "hybrid_ok h0 (m, h) L" and l: "layout_ok l" and sl: "slabs_allocate m (hslab h) l = (Inr p, ss)"
  shows "hybrid_ok h0 (m, h\<lparr>hslab := ss\<rparr>) (insert (p, l) L) \<and> (p, l) \<notin> L"
proof -
  note O = hybrid_okD [OF ok]
  have nz: "lsize l \<noteq> 0" using sl by (auto simp: slabs_allocate_def split: if_splits)
  have "slab_alloc_at (m, hslab h) l = Some (p, m, ss)" using l sl by (simp add: slab_alloc_at_def)
  then have S: "slab_ok (hslab h0) (m, ss) (insert (p, l) (slab_part h0 L))" "(p, l) \<notin> slab_part h0 L"
    using slabs_allocator.alloc_ok [OF O(1)] by blast+
  then have p: "p \<in> area (hslab h0)" using slab_ok_inside [OF S(1), of "(p, l)"] by simp
  then have "(p, l) \<notin> L" using S(2) by (simp add: slab_part_def)
  then show ?thesis using S(1) O ok p nz by (simp add: hybrid_ok_def parts_insert)
qed

lemma hybrid_buddy_alloc:
  assumes ok: "hybrid_ok h0 (m, h) L" and l: "layout_ok l" and b: "buddy_allocate m (hbuddy h) l = Some (Inr p, m', b')"
  shows "hybrid_ok h0 (m', h\<lparr>hbuddy := b'\<rparr>) (insert (p, l) L) \<and> (p, l) \<notin> L"
proof -
  note O = hybrid_okD [OF ok]
  have nz: "lsize l \<noteq> 0" using b by (auto simp: buddy_allocate_def split: if_splits)
  have "buddy_alloc_at (m, hbuddy h) l = Some (p, m', b')" using l b by (simp add: buddy_alloc_at_def)
  then have B: "buddy_ok (hbuddy h0) (m', b') (insert (p, l) (buddy_part h0 L))" "(p, l) \<notin> buddy_part h0 L"
    using buddy_allocator.alloc_ok [OF O(2)] by blast+
  have "p \<in> arena (hbuddy h0)" using buddy_ok_inside [OF B(1), of "(p, l)"] nz by (auto simp: block_def)
  then have p: "p \<notin> area (hslab h0)" using O(3) by auto
  have "slab_ok (hslab h0) (m', hslab h) (slab_part h0 L)"
    by (rule slab_ok_frame [OF O(1)], rule buddy_allocate_outside [OF O(2) b]) (use O(3) in auto)
  moreover have "(p, l) \<notin> L" using B(2) p by (simp add: buddy_part_def)
  ultimately show ?thesis using B(1) O ok p nz by (simp add: hybrid_ok_def parts_insert)
qed

lemma hybrid_dealloc:
  assumes ok: "hybrid_ok h0 (m, h) L" and x: "(p, l) \<in> L"
  shows "\<exists>m' h'. hybrid_deallocate m h p l = Some (Inr (), m', h') \<and> hybrid_ok h0 (m', h') (L - {(p, l)})"
proof (cases "p \<in> area (hslab h0)")
  case True
  note O = hybrid_okD [OF ok]
  have xs: "(p, l) \<in> slab_part h0 L" using x True by (simp add: slab_part_def)
  have "lsize l \<le> 512" using slab_ok_slot [OF O(1) xs] by force
  moreover have "slabs_inv m (hslab h) (fst ` slab_part h0 L)" "p \<in> fst ` slab_part h0 L"
    using O(1) xs by (simp_all add: slab_ok_def) force
  from slabs_deallocate_inv [OF this] obtain m' ss where d: "slabs_deallocate m (hslab h) p = (Inr (), m', ss)"
    "\<forall>x. x \<noteq> p \<longrightarrow> m' x = m x" by blast
  ultimately have "hybrid_deallocate m h p l = Some (Inr (), m', h\<lparr>hslab := ss\<rparr>)"
    by (simp add: hybrid_deallocate_def SLAB_THRESHOLD_def slabs_max_size_def SLAB_SIZES_def)
  moreover have "slab_ok (hslab h0) (m', ss) (slab_part h0 L - {(p, l)})"
    using slabs_allocator.dealloc_ok [OF O(1) xs] d(1) by (simp add: slab_free_at_def)
  moreover have "buddy_ok (hbuddy h0) (m', hbuddy h) (buddy_part h0 L)"
    by (rule buddy_ok_frame [OF O(2)]) (use d(2) True O(3) in auto)
  ultimately show ?thesis using O(3) ok True by (simp add: hybrid_ok_def parts_remove)
next
  case False
  note O = hybrid_okD [OF ok]
  have xb: "(p, l) \<in> buddy_part h0 L" using x False by (simp add: buddy_part_def)
  have "area (hslab h) = area (hslab h0)" using O(1) shapes_area [of "hslab h" "hslab h0"] by (simp add: slab_ok_def)
  then have "slabs_deallocate m (hslab h) p = (Inl InvalidPointer, m, hslab h)" using slabs_deallocate_foreign False by simp
  then have H: "hybrid_deallocate m h p l = on_buddy h (buddy_deallocate m (hbuddy h) p l)"
    by (simp add: hybrid_deallocate_def)
  obtain m' b' where d: "buddy_deallocate m (hbuddy h) p l = Some (Inr (), m', b')"
    "buddy_ok (hbuddy h0) (m', b') (buddy_part h0 L - {(p, l)})"
    using buddy_dealloc_live [OF O(2) xb] by blast
  have "slab_ok (hslab h0) (m', hslab h) (slab_part h0 L)"
    by (rule slab_ok_frame [OF O(1)], rule buddy_deallocate_outside [OF O(2) xb d(1)]) (use O(3) in auto)
  then show ?thesis using H d O(3) ok False by (simp add: hybrid_ok_def parts_remove on_buddy_def)
qed

section \<open>Creation\<close>

lemma hybrid_new_ok:
  assumes v: "valid_region ptr sz" and new: "hybrid_new m ptr sz = Some (Inr h, m0)"
  shows "hybrid_ok h (m0, h) {} \<and> area (hslab h) \<subseteq> {ptr..<ptr + sz} \<and> arena (hbuddy h) \<subseteq> {ptr..<ptr + sz}"
proof -
  let ?n = "sz div 4"
  obtain m1 where s: "slabs_new m ptr ?n = (Inr (hslab h), m1)" and b: "buddy_new m1 (ptr + ?n) (sz - ?n) = Some (Inr (hbuddy h), m0)"
    using new by (auto simp: hybrid_new_def Let_def split: prod.splits sum.splits option.splits)
  have vs: "valid_region ptr ?n" "valid_region (ptr + ?n) (sz - ?n)" using v by (auto simp: valid_region_def)
  note S = slabs_new_ok [OF vs(1) s] and B = buddy_new_ok [OF vs(2) b]
  have e: "ptr + ?n + (sz - ?n) = ptr + sz" by simp
  have dis: "area (hslab h) \<inter> arena (hbuddy h) = {}" using S B by fastforce
  have "slab_ok (hslab h) (m0, hslab h) {}"
    by (rule slab_ok_frame [of _ m1]) (use S buddy_new_outside [OF vs(2) b] dis in auto)
  then have "hybrid_ok h (m0, h) {}" using B dis by (simp add: hybrid_ok_def slab_part_def buddy_part_def)
  moreover have "area (hslab h) \<subseteq> {ptr..<ptr + sz}" using S by fastforce
  moreover have "arena (hbuddy h) \<subseteq> {ptr..<ptr + sz}" using B by (auto simp: e)
  ultimately show ?thesis by blast
qed

section \<open>What the calls return\<close>

text \<open>
  No request of the hybrid allocator is left without an answer, a request that fails leaves it as
  it was, and a request fails only when the buddy allocator has no block for it.
\<close>

lemma slabs_allocate_fail: "slab_ok ss0 (m, ss) L \<Longrightarrow> slabs_allocate m ss l = (Inl e, ss') \<Longrightarrow> ss' = ss"
  using slabs_alloc_inv [of m ss "fst ` L" "max (lsize l) (lalign l)"]
  by (auto simp: slabs_allocate_def slab_ok_def split: if_splits option.splits)

lemma hybrid_alloc_result:
  assumes ok: "hybrid_ok h0 (m, h) L" and l: "layout_ok l" and nz: "lsize l \<noteq> 0"
  shows "(\<exists>p m' h'. hybrid_allocate m h l = Some (Inr p, m', h') \<and> hybrid_ok h0 (m', h') (insert (p, l) L) \<and> (p, l) \<notin> L)
    \<or> hybrid_allocate m h l = Some (Inl OutOfMemory, m, h) \<and>
      (\<forall>j \<in> {layout_order l..<MAX_ORDER}. free_lists (hbuddy h) ! j = None)"
proof -
  note O = hybrid_okD [OF ok]
  show ?thesis
  proof (cases "lsize l \<le> 512 \<and> (\<exists>p ss. slabs_allocate m (hslab h) l = (Inr p, ss))")
    case True
    then obtain p ss where s: "slabs_allocate m (hslab h) l = (Inr p, ss)" by blast
    then show ?thesis using hybrid_slab_alloc [OF ok l s] nz True
      by (auto simp: hybrid_allocate_def SLAB_THRESHOLD_def slabs_max_size_def SLAB_SIZES_def)
  next
    case False
    then have H: "hybrid_allocate m h l = on_buddy h (buddy_allocate m (hbuddy h) l)"
      using nz slabs_allocate_fail [OF O(1), of l]
      by (cases "slabs_allocate m (hslab h) l")
        (auto simp: hybrid_allocate_def SLAB_THRESHOLD_def slabs_max_size_def SLAB_SIZES_def split: sum.splits)
    show ?thesis
    proof (cases "\<forall>j \<in> {layout_order l..<MAX_ORDER}. free_lists (hbuddy h) ! j = None")
      case True
      then show ?thesis using buddy_alloc_result [OF O(2) l nz] H by (simp add: on_buddy_def)
    next
      case False
      then obtain p m' b' where "buddy_allocate m (hbuddy h) l = Some (Inr p, m', b')"
        using buddy_alloc_result [OF O(2) l nz] by metis
      then show ?thesis using hybrid_buddy_alloc [OF ok l] H by (simp add: on_buddy_def)
    qed
  qed
qed

section \<open>The kernel heap meets the allocator contract\<close>

text \<open>
  The heap as a client sees it: a null pointer is a refusal, after which the client goes on with the heap it had. That is
  the heap after the call too (\<open>hybrid_alloc_result\<close>: an error leaves the heap as it was), except for
  a heap that holds address 0, where a block at 0 cannot be told from a refusal.
\<close>

definition ga_alloc_at :: "kernel_heap \<Rightarrow> layout \<Rightarrow> (nat \<times> kernel_heap) option" where
  "ga_alloc_at kh l =
     (if layout_ok l \<and> lsize l \<noteq> 0
      then (case ga_alloc kh l of Some (p, kh') \<Rightarrow> if p = 0 then None else Some (p, kh') | None \<Rightarrow> None)
      else None)"

definition ga_free_at :: "kernel_heap \<Rightarrow> nat \<Rightarrow> layout \<Rightarrow> kernel_heap" where
  "ga_free_at kh p l = (case ga_dealloc kh p l of Some kh' \<Rightarrow> kh' | None \<Rightarrow> kh)"

definition ga_align :: "hybrid \<Rightarrow> layout \<Rightarrow> nat" where
  "ga_align h0 l = (if lalign l dvd heap_start (hbuddy h0) then lalign l else 1)"

definition ga_ok :: "hybrid \<Rightarrow> kernel_heap \<Rightarrow> (nat \<times> layout) set \<Rightarrow> bool" where
  "ga_ok h0 kh L \<longleftrightarrow> (\<exists>m h. kh = Some (m, h) \<and> hybrid_ok h0 (m, h) L)"

lemma hybrid_ok_inside:
  assumes "hybrid_ok h0 s L" "x \<in> L"
  shows "block lsize x \<subseteq> (if fst x \<in> area (hslab h0) then area (hslab h0) else arena (hbuddy h0))"
proof (cases "fst x \<in> area (hslab h0)")
  case True
  then have "x \<in> slab_part h0 L" using assms(2) by (simp add: slab_part_def)
  then show ?thesis using slab_ok_inside [of "hslab h0" "(fst s, hslab (snd s))" "slab_part h0 L" x] assms(1) True
    by (simp add: hybrid_ok_def)
next
  case False
  then have "x \<in> buddy_part h0 L" using assms(2) by (simp add: buddy_part_def)
  then show ?thesis using buddy_ok_inside [of "hbuddy h0" "(fst s, hbuddy (snd s))" "buddy_part h0 L" x] assms(1) False
    by (simp add: hybrid_ok_def)
qed

lemma hybrid_ok_disjoint:
  assumes ok: "hybrid_ok h0 s L"
  shows "blocks_disjoint lsize L"
proof -
  have S: "blocks_disjoint lsize (slab_part h0 L)" and B: "blocks_disjoint lsize (buddy_part h0 L)"
    using ok slab_ok_disjoint buddy_ok_disjoint by (auto simp: hybrid_ok_def)
  have "block lsize x \<inter> block lsize y = {}" if xy: "x \<in> L" "y \<in> L" "x \<noteq> y" for x y
  proof (cases "fst x \<in> area (hslab h0) \<longleftrightarrow> fst y \<in> area (hslab h0)")
    case True
    then have "x \<in> slab_part h0 L \<and> y \<in> slab_part h0 L \<or> x \<in> buddy_part h0 L \<and> y \<in> buddy_part h0 L"
      using xy by (auto simp: slab_part_def buddy_part_def)
    then show ?thesis using S B xy(3) unfolding blocks_disjoint_def by blast
  next
    case False
    have "area (hslab h0) \<inter> arena (hbuddy h0) = {}" using ok by (simp add: hybrid_ok_def)
    then show ?thesis using hybrid_ok_inside [OF ok xy(1)] hybrid_ok_inside [OF ok xy(2)] False
      by (cases "fst x \<in> area (hslab h0)") auto
  qed
  then show ?thesis by (auto simp: blocks_disjoint_def)
qed

interpretation kernel_heap_allocator: allocator ga_alloc_at ga_free_at lsize "ga_align h0" "ga_ok h0" for h0
proof unfold_locales
  fix kh L l p kh'
  assume ok: "ga_ok h0 kh L" and al: "ga_alloc_at kh l = Some (p, kh')"
  obtain m h where kh: "kh = Some (m, h)" "hybrid_ok h0 (m, h) L" using ok by (auto simp: ga_ok_def)
  have l: "layout_ok l" "lsize l \<noteq> 0" "p \<noteq> 0" "ga_alloc kh l = Some (p, kh')"
    using al by (auto simp: ga_alloc_at_def split: if_splits option.splits)
  from hybrid_alloc_result [OF kh(2) l(1,2)] l(3,4) kh(1)
  show "ga_ok h0 kh' (insert (p, l) L) \<and> (p, l) \<notin> L" by (auto simp: ga_alloc_def ga_ok_def)
next
  fix kh L p l
  assume ok: "ga_ok h0 kh L" and x: "(p, l) \<in> L"
  obtain m h where kh: "kh = Some (m, h)" "hybrid_ok h0 (m, h) L" using ok by (auto simp: ga_ok_def)
  from hybrid_dealloc [OF kh(2) x] kh(1) show "ga_ok h0 (ga_free_at kh p l) (L - {(p, l)})"
    by (auto simp: ga_free_at_def ga_dealloc_def ga_ok_def)
next
  fix kh L p l
  assume ok: "ga_ok h0 kh L" and x: "(p, l) \<in> L"
  obtain m h where kh: "hybrid_ok h0 (m, h) L" using ok by (auto simp: ga_ok_def)
  note O = hybrid_okD [OF kh]
  show "ga_align h0 l dvd p"
  proof (cases "p \<in> area (hslab h0)")
    case True
    then have "(p, l) \<in> slab_part h0 L" using x by (simp add: slab_part_def)
    then show ?thesis using slabs_allocator.ok_aligned [OF O(1)] by (simp add: ga_align_def)
  next
    case False
    then have "(p, l) \<in> buddy_part h0 L" using x by (simp add: buddy_part_def)
    then have "heap_align (hbuddy h0) l dvd p" "layout_ok l"
      using buddy_allocator.ok_aligned [OF O(2)] O(2) by (auto simp: buddy_ok_def)
    then show ?thesis using heap_align_dvd [of l "hbuddy h0"] dvd_trans by (auto simp: ga_align_def)
  qed
qed (auto simp: ga_ok_def dest: hybrid_ok_disjoint)

section \<open>The kernel heap after initialisation\<close>

lemma usize_align_up_id: "16 dvd ptr \<Longrightarrow> ptr + 16 \<le> 2 ^ 64 \<Longrightarrow> usize_align_up ptr 16 = ptr"
proof -
  assume d: "16 dvd ptr" and "ptr + 16 \<le> 2 ^ 64"
  note u = usize_align_up_16 [OF this(2)]
  obtain i j where "ptr = 16 * i" "usize_align_up ptr 16 = 16 * j" using d u(1) by (elim dvdE)
  then show ?thesis using u(2,3) by simp
qed

lemma heap_init_ok:
  assumes d: "2 ^ 21 dvd start" and v: "valid_region start (2 ^ 23)"
  shows "\<exists>m0 h. heap_init m start = Some (Some (m0, h)) \<and> ga_ok h (Some (m0, h)) {} \<and>
    heap_start (hbuddy h) = start + 2 ^ 21 \<and> max_order (hbuddy h) = 22 \<and>
    area (hslab h) \<subseteq> {start..<start + 2 ^ 23} \<and> arena (hbuddy h) \<subseteq> {start..<start + 2 ^ 23}"
proof -
  let ?p = "start + 2097152" and ?n = "6291456"
  have "valid_region start 2097152" and vb: "valid_region ?p ?n" using v by (simp_all add: valid_region_def)
  from slabs_new_inv [OF this(1), of m] obtain m1 ss where s: "slabs_new m start 2097152 = (Inr ss, m1)" by auto
  have "(16 :: nat) dvd 2 ^ 21" by simp
  then have "16 dvd ?p" using dvd_trans [OF _ d, of 16] by simp
  moreover have "?p + 16 \<le> 2 ^ 64" using vb by (simp add: valid_region_def)
  ultimately have a: "usize_align_up ?p 16 = ?p" by (rule usize_align_up_id)
  have i: "size_to_order (next_power_of_two ?n div 2) = 22" by code_simp
  obtain m2 b where b: "buddy_new m1 ?p ?n = Some (Inr b, m2)" "heap_start b = ?p" "max_order b = 22"
    using buddy_new_inv [OF _ vb, of m1] a i by (auto simp: MAX_ORDER_def)
  let ?h = "\<lparr>hslab = ss, hbuddy = b\<rparr>"
  have new: "hybrid_new m start (2 ^ 23) = Some (Inr ?h, m2)" using s b(1) by (simp add: hybrid_new_def)
  have "heap_init m start = Some (Some (m2, ?h))"
    using new by (simp add: heap_init_def KERNEL_HEAP_PAGES_def)
  moreover note hybrid_new_ok [OF v new]
  ultimately show ?thesis using b(2,3) by (simp add: ga_ok_def)
qed

section \<open>Properties\<close>

text \<open>
  C1. Safety of the kernel heap. When the pages of the heap start at a multiple of 2 MiB, \<open>init\<close>
  succeeds, and whatever sequence of allocations and deallocations the kernel then runs through the
  global allocator, the live blocks are pairwise disjoint, lie inside the 8 MiB of the heap and have
  the alignment of their layout, for alignments up to 2 MiB.
\<close>

theorem kernel_heap_safe:
  assumes d: "2 ^ 21 dvd start" and v: "valid_region start (2 ^ 23)"
  shows "\<exists>m0 h. heap_init m start = Some (Some (m0, h)) \<and>
    (\<forall>ops kh live. client_run ga_alloc_at ga_free_at ops (Some (m0, h), []) = (kh, live) \<longrightarrow>
       distinct live \<and> blocks_disjoint lsize (set live) \<and>
       (\<forall>x \<in> set live. block lsize x \<subseteq> {start..<start + 2 ^ 23} \<and>
          (lalign (snd x) dvd 2 ^ 21 \<longrightarrow> lalign (snd x) dvd fst x)))"
proof -
  obtain m0 h where h: "heap_init m start = Some (Some (m0, h))" "ga_ok h (Some (m0, h)) {}"
    "heap_start (hbuddy h) = start + 2 ^ 21" "area (hslab h) \<subseteq> {start..<start + 2 ^ 23}"
    "arena (hbuddy h) \<subseteq> {start..<start + 2 ^ 23}" using heap_init_ok [OF d v, of m] by blast
  have "distinct live \<and> blocks_disjoint lsize (set live) \<and>
       (\<forall>x \<in> set live. block lsize x \<subseteq> {start..<start + 2 ^ 23} \<and>
          (lalign (snd x) dvd 2 ^ 21 \<longrightarrow> lalign (snd x) dvd fst x))"
    if run: "client_run ga_alloc_at ga_free_at ops (Some (m0, h), []) = (kh, live)" for ops kh live
  proof -
    have safe: "distinct live \<and> blocks_disjoint lsize (set live) \<and> (\<forall>(p, l) \<in> set live. ga_align h l dvd p)"
      using kernel_heap_allocator.run_safe [OF h(2) run] .
    obtain s where ok: "hybrid_ok h s (set live)"
      using kernel_heap_allocator.run_ok [of h "Some (m0, h)" "[]"] h(2) run by (fastforce simp: ga_ok_def)
    have "block lsize x \<subseteq> {start..<start + 2 ^ 23}" if "x \<in> set live" for x
      using hybrid_ok_inside [OF ok that] h(4,5) by (cases "fst x \<in> area (hslab h)") auto
    moreover have "lalign l dvd p" if "(p, l) \<in> set live" "lalign l dvd 2 ^ 21" for p l
    proof -
      have "lalign l dvd start + 2 ^ 21" using that(2) d dvd_trans dvd_add by blast
      moreover have "ga_align h l dvd p" using safe that(1) by blast
      ultimately show ?thesis using h(3) by (simp add: ga_align_def)
    qed
    ultimately show ?thesis using safe by fastforce
  qed
  with h(1) show ?thesis by blast
qed

theorem kernel_heap_safe_witness:
  "\<exists>m0 h kh live. heap_init (\<lambda>_. None) (2 ^ 47) = Some (Some (m0, h)) \<and>
     client_run ga_alloc_at ga_free_at [Allocate \<lparr>lsize = 40, lalign = 8\<rparr>, Allocate \<lparr>lsize = 4096, lalign = 4096\<rparr>]
       (Some (m0, h), []) = (kh, live) \<and> blocks_disjoint lsize (set live)"
proof -
  have "(2 :: nat) ^ 21 dvd 2 ^ 47" by (rule le_imp_power_dvd) simp
  moreover have "valid_region (2 ^ 47) (2 ^ 23)" by (simp add: valid_region_def)
  ultimately obtain m0 h where h: "heap_init (\<lambda>_. None) (2 ^ 47) = Some (Some (m0, h))"
    "\<forall>ops kh live. client_run ga_alloc_at ga_free_at ops (Some (m0, h), []) = (kh, live) \<longrightarrow>
       blocks_disjoint lsize (set live)"
    using kernel_heap_safe [of "2 ^ 47" "\<lambda>_. None"] by blast
  obtain kh live where r: "client_run ga_alloc_at ga_free_at [Allocate \<lparr>lsize = 40, lalign = 8\<rparr>, Allocate \<lparr>lsize = 4096, lalign = 4096\<rparr>]
       (Some (m0, h), []) = (kh, live)" by fastforce
  with h show ?thesis by blast
qed

text \<open>
  C34. What the global allocator answers. A request either gets a block that the heap accounts for
  from then on, or the null pointer; the latter leaves the heap as it was and happens
  only when no free block of the buddy allocator is large enough. Giving back a live block always
  succeeds, whichever of the two allocators it came from.
\<close>

theorem kernel_heap_answers:
  assumes ok: "ga_ok h0 kh L" and l: "layout_ok l" "lsize l \<noteq> 0"
  shows "((\<exists>p kh'. ga_alloc kh l = Some (p, kh') \<and> ga_ok h0 kh' (insert (p, l) L) \<and> (p, l) \<notin> L) \<or>
     ga_alloc kh l = Some (0, kh) \<and>
       (\<forall>j \<in> {layout_order l..<MAX_ORDER}. free_lists (hbuddy (snd (the kh))) ! j = None)) \<and>
    (\<forall>(p, k) \<in> L. \<exists>m h m' h'. kh = Some (m, h) \<and> hybrid_deallocate m h p k = Some (Inr (), m', h') \<and>
       ga_dealloc kh p k = Some (Some (m', h')) \<and> ga_ok h0 (Some (m', h')) (L - {(p, k)}))"
proof -
  obtain m h where kh: "kh = Some (m, h)" "hybrid_ok h0 (m, h) L" using ok by (auto simp: ga_ok_def)
  have "\<exists>m' h'. hybrid_deallocate m h p k = Some (Inr (), m', h') \<and>
       ga_dealloc kh p k = Some (Some (m', h')) \<and> ga_ok h0 (Some (m', h')) (L - {(p, k)})" if "(p, k) \<in> L" for p k
    using hybrid_dealloc [OF kh(2) that] kh(1) by (auto simp: ga_dealloc_def ga_ok_def)
  then show ?thesis using hybrid_alloc_result [OF kh(2) l] kh(1) by (auto simp: ga_alloc_def ga_ok_def)
qed

theorem kernel_heap_answers_witness:
  "\<exists>m0 h r. heap_init (\<lambda>_. None) (2 ^ 47) = Some (Some (m0, h)) \<and>
     ga_alloc (Some (m0, h)) \<lparr>lsize = 40, lalign = 8\<rparr> = Some r"
proof -
  have "(2 :: nat) ^ 21 dvd 2 ^ 47" by (rule le_imp_power_dvd) simp
  moreover have "valid_region (2 ^ 47) (2 ^ 23)" by (simp add: valid_region_def)
  ultimately obtain m0 h where h: "heap_init (\<lambda>_. None) (2 ^ 47) = Some (Some (m0, h))" "ga_ok h (Some (m0, h)) {}"
    using heap_init_ok [of "2 ^ 47" "\<lambda>_. None"] by blast
  have "layout_ok \<lparr>lsize = 40, lalign = 8\<rparr>" by code_simp
  from kernel_heap_answers [OF h(2) this] h(1) show ?thesis by auto
qed

end
