(* ===== verification/Fat_Entries.thy ===== *)
theory Fat_Entries
  imports Prelude "HOL-Library.Code_Target_Nat"
begin

text \<open>
  Entries of a File Allocation Table: kernel/foundry/storage/src/fs/fat.rs (cluster numbers, the
  FAT types and the errors) and the modules \<open>fat12\<close>, \<open>fat16\<close> and \<open>fat32\<close> of
  kernel/foundry/storage/src/fs/fat/fat.rs, which read and write one entry in the bytes of a
  table. The interface they share is the locale \<open>fat_codec\<close>.
\<close>

unbundle bit_operations_syntax

datatype fat_type = Fat12 | Fat16 | Fat32

datatype fat_error =
    InvalidParameter | Io | NotFound | InvalidFilesystem | InvalidBootSector | InvalidFat
  | InvalidCluster | InvalidDirEntry | OutOfBounds | NotSupported | UnexpectedEOF

text \<open>\<open>Cluster\<close> wraps a \<open>u32\<close>.\<close>

type_synonym cluster = u32

definition cluster_is_valid :: "cluster \<Rightarrow> fat_type \<Rightarrow> bool" where
  "cluster_is_valid c t =
     (case t of
        Fat12 \<Rightarrow> c \<ge> 2 \<and> c \<le> 0xFF6
      | Fat16 \<Rightarrow> c \<ge> 2 \<and> c \<le> 0xFFF6
      | Fat32 \<Rightarrow> c \<ge> 2 \<and> c \<le> 0x0FFFFFF6)"

definition cluster_is_end_of_chain :: "cluster \<Rightarrow> fat_type \<Rightarrow> bool" where
  "cluster_is_end_of_chain c t =
     (case t of
        Fat12 \<Rightarrow> c \<ge> 0xFF8 \<and> c \<le> 0xFFF
      | Fat16 \<Rightarrow> c \<ge> 0xFFF8 \<and> c \<le> 0xFFFF
      | Fat32 \<Rightarrow> c \<ge> 0x0FFFFFF8 \<and> c \<le> 0x0FFFFFFF)"

definition cluster_is_bad :: "cluster \<Rightarrow> fat_type \<Rightarrow> bool" where
  "cluster_is_bad c t =
     (case t of Fat12 \<Rightarrow> c = 0xFF7 | Fat16 \<Rightarrow> c = 0xFFF7 | Fat32 \<Rightarrow> c = 0x0FFFFFF7)"

definition cluster_is_free :: "cluster \<Rightarrow> bool" where
  "cluster_is_free c \<longleftrightarrow> c = 0"

definition cluster_is_reserved :: "cluster \<Rightarrow> fat_type \<Rightarrow> bool" where
  "cluster_is_reserved c t =
     (case t of
        Fat12 \<Rightarrow> c = 0x0FF0 \<or> c = 0x0FF6
      | Fat16 \<Rightarrow> c = 0xFFF0 \<or> c = 0xFFF6
      | Fat32 \<Rightarrow> c = 0x0FFFFFF0 \<or> c = 0x0FFFFFF6)"

datatype fat_entry = Free | Next cluster | EndOfChain | Bad | Reserved

section \<open>Bytes\<close>

definition le16 :: "u8 \<Rightarrow> u8 \<Rightarrow> u16" where
  "le16 a b = ucast a OR push_bit 8 (ucast b)"

definition le32 :: "u8 \<Rightarrow> u8 \<Rightarrow> u8 \<Rightarrow> u8 \<Rightarrow> u32" where
  "le32 a b c d = ucast a OR push_bit 8 (ucast b) OR push_bit 16 (ucast c) OR push_bit 24 (ucast d)"

section \<open>FAT12\<close>

definition decode12 :: "u16 \<Rightarrow> fat_entry" where
  "decode12 v =
     (if v = 0 then Free
      else if v = 0x0FF7 then Bad
      else if 0x0FF0 \<le> v \<and> v \<le> 0x0FF6 then Reserved
      else if 0x0FF8 \<le> v \<and> v \<le> 0x0FFF then EndOfChain
      else Next (ucast v))"

definition encode12 :: "fat_entry \<Rightarrow> u16" where
  "encode12 e =
     (case e of
        Free \<Rightarrow> 0
      | Next n \<Rightarrow> ucast (n AND 0x0FFF)
      | EndOfChain \<Rightarrow> 0x0FFF
      | Bad \<Rightarrow> 0x0FF7
      | Reserved \<Rightarrow> 0x0FF6)"

definition offset12 :: "cluster \<Rightarrow> nat" where
  "offset12 c = unat c + unat c div 2"

definition read12 :: "u8 list \<Rightarrow> cluster \<Rightarrow> fat_error + fat_entry" where
  "read12 fat c =
     (let offset = offset12 c
      in if offset + 1 \<ge> length fat then Inl OutOfBounds
         else let v = le16 (fat ! offset) (fat ! (offset + 1))
              in Inr (decode12 (if c AND 1 \<noteq> 0 then drop_bit 4 v else v AND 0x0FFF)))"

definition write12 :: "u8 list \<Rightarrow> cluster \<Rightarrow> fat_entry \<Rightarrow> fat_error + u8 list" where
  "write12 fat c e =
     (let offset = offset12 c
      in if offset + 1 \<ge> length fat then Inl OutOfBounds
         else let v = encode12 e;
                  w = le16 (fat ! offset) (fat ! (offset + 1));
                  new_word = (if c AND 1 \<noteq> 0 then (w AND 0x000F) OR push_bit 4 v else (w AND 0xF000) OR v)
              in Inr (fat[offset := ucast new_word, offset + 1 := ucast (drop_bit 8 new_word)]))"

section \<open>FAT16\<close>

definition decode16 :: "u16 \<Rightarrow> fat_entry" where
  "decode16 v =
     (if v = 0 then Free
      else if v = 0xFFF7 then Bad
      else if 0xFFF0 \<le> v \<and> v \<le> 0xFFF6 then Reserved
      else if 0xFFF8 \<le> v \<and> v \<le> 0xFFFF then EndOfChain
      else Next (ucast v))"

definition encode16 :: "fat_entry \<Rightarrow> u16" where
  "encode16 e =
     (case e of
        Free \<Rightarrow> 0
      | Next n \<Rightarrow> ucast (n AND 0xFFFF)
      | EndOfChain \<Rightarrow> 0xFFFF
      | Bad \<Rightarrow> 0xFFF7
      | Reserved \<Rightarrow> 0xFFF6)"

definition read16 :: "u8 list \<Rightarrow> cluster \<Rightarrow> fat_error + fat_entry" where
  "read16 fat c =
     (let offset = unat c * 2
      in if offset + 1 \<ge> length fat then Inl OutOfBounds
         else Inr (decode16 (le16 (fat ! offset) (fat ! (offset + 1)))))"

definition write16 :: "u8 list \<Rightarrow> cluster \<Rightarrow> fat_entry \<Rightarrow> fat_error + u8 list" where
  "write16 fat c e =
     (let offset = unat c * 2
      in if offset + 1 \<ge> length fat then Inl OutOfBounds
         else let v = encode16 e
              in Inr (fat[offset := ucast v, offset + 1 := ucast (drop_bit 8 v)]))"

section \<open>FAT32\<close>

definition decode32 :: "u32 \<Rightarrow> fat_entry" where
  "decode32 v =
     (if v = 0 then Free
      else if v = 0x0FFFFFF7 then Bad
      else if 0x0FFFFFF0 \<le> v \<and> v \<le> 0x0FFFFFF6 then Reserved
      else if 0x0FFFFFF8 \<le> v \<and> v \<le> 0x0FFFFFFF then EndOfChain
      else Next v)"

definition encode32 :: "fat_entry \<Rightarrow> u32" where
  "encode32 e =
     (case e of
        Free \<Rightarrow> 0
      | Next n \<Rightarrow> n AND 0x0FFFFFFF
      | EndOfChain \<Rightarrow> 0x0FFFFFFF
      | Bad \<Rightarrow> 0x0FFFFFF7
      | Reserved \<Rightarrow> 0x0FFFFFF6)"

definition read32 :: "u8 list \<Rightarrow> cluster \<Rightarrow> fat_error + fat_entry" where
  "read32 fat c =
     (let offset = unat c * 4
      in if offset + 3 \<ge> length fat then Inl OutOfBounds
         else Inr (decode32 (le32 (fat ! offset) (fat ! (offset + 1)) (fat ! (offset + 2))
                     (fat ! (offset + 3) AND 0x0F))))"

definition write32 :: "u8 list \<Rightarrow> cluster \<Rightarrow> fat_entry \<Rightarrow> fat_error + u8 list" where
  "write32 fat c e =
     (let offset = unat c * 4
      in if offset + 3 \<ge> length fat then Inl OutOfBounds
         else let v = encode32 e;
                  last_byte = (fat ! (offset + 3) AND 0xF0) OR ucast (drop_bit 24 v AND 0x0F)
              in Inr (fat[offset := ucast (v AND 0xFF), offset + 1 := ucast (drop_bit 8 v AND 0xFF),
                          offset + 2 := ucast (drop_bit 16 v AND 0xFF), offset + 3 := last_byte]))"

section \<open>The interface of an entry codec\<close>

text \<open>
  \<open>fits n c\<close>: the entry of \<open>c\<close> lies inside a table of \<open>n\<close> bytes. \<open>canon\<close> is what is read back
  of a written entry. Writing one entry leaves all others alone, also where two of them share a
  byte.
\<close>

locale fat_codec =
  fixes rd :: "u8 list \<Rightarrow> cluster \<Rightarrow> fat_error + fat_entry"
    and wr :: "u8 list \<Rightarrow> cluster \<Rightarrow> fat_entry \<Rightarrow> fat_error + u8 list"
    and fits :: "nat \<Rightarrow> cluster \<Rightarrow> bool"
    and canon :: "fat_entry \<Rightarrow> fat_entry"
  assumes rd_out: "\<not> fits (length d) c \<Longrightarrow> rd d c = Inl OutOfBounds"
    and rd_in: "fits (length d) c \<Longrightarrow> \<exists>e. rd d c = Inr e"
    and wr_out: "\<not> fits (length d) c \<Longrightarrow> wr d c e = Inl OutOfBounds"
    and wr_in: "fits (length d) c \<Longrightarrow> \<exists>d'. wr d c e = Inr d' \<and> length d' = length d"
    and rd_wr: "wr d c e = Inr d' \<Longrightarrow> rd d' c = Inr (canon e)"
    and rd_frame: "wr d c e = Inr d' \<Longrightarrow> c' \<noteq> c \<Longrightarrow> rd d' c' = rd d c'"
    and fits_down: "fits n c \<Longrightarrow> c' \<le> c \<Longrightarrow> fits n c'"
    and fits_bound: "fits n c \<Longrightarrow> unat c < n"
begin

lemma wr_length: "wr d c e = Inr d' \<Longrightarrow> fits (length d) c \<and> length d' = length d"
  using wr_in [of d c e] wr_out [of d c e] by (cases "fits (length d) c") auto

text \<open>Writing twice to the same entry is writing the last value.\<close>

lemma rd_wr_wr:
  assumes "wr d c e = Inr d1" "wr d1 c f = Inr d2" "wr d c f = Inr d3"
  shows "rd d2 = rd d3"
proof
  fix c' show "rd d2 c' = rd d3 c'"
    using rd_wr assms rd_frame [OF assms(1), of c'] rd_frame [OF assms(2), of c'] rd_frame [OF assms(3), of c']
    by (cases "c' = c") auto
qed

end

section \<open>Bit-level lemmas\<close>

lemma bit_le16: "bit (le16 a b) n \<longleftrightarrow> (if n < 8 then bit a n else n < 16 \<and> bit b (n - 8))"
  unfolding le16_def by (auto simp: bit_simps dest: bit_u8)

lemma bit_le32:
  "bit (le32 a b c d) n \<longleftrightarrow>
     (if n < 8 then bit a n else if n < 16 then bit b (n - 8) else if n < 24 then bit c (n - 16)
      else n < 32 \<and> bit d (n - 24))"
  unfolding le32_def by (auto simp: bit_simps dest: bit_u8)

lemma le16_bytes: "le16 (ucast v) (ucast (drop_bit 8 v)) = v"
  by (rule bit_word_eqI) (auto simp: bit_le16 bit_simps)

text \<open>The constants of the source as masks.\<close>

lemma fat_masks:
  "(0x0FFF :: u16) = mask 12" "(0xF000 :: u16) = NOT (mask 12)" "(0x000F :: u16) = mask 4"
  "(0x0F :: u8) = mask 4" "(0xF0 :: u8) = NOT (mask 4)" "(0x0F :: u32) = mask 4" "(0xFF :: u32) = mask 8"
  "(0x0FFF :: u32) = mask 12" "(0xFFFF :: u32) = mask 16" "(0x0FFFFFFF :: u32) = mask 28"
  by (simp_all add: mask_eq_exp_minus_1)

lemma odd_cluster: "c AND 1 \<noteq> 0 \<longleftrightarrow> odd (unat c)" for c :: cluster
proof -
  have "c AND 1 = 0 \<longleftrightarrow> unat (c AND mask 1) = 0" by (simp add: word_unat_eq_iff)
  also have "\<dots> \<longleftrightarrow> even (unat c)" unfolding unat_and_mask by (simp add: even_iff_mod_2_eq_zero)
  finally show ?thesis by simp
qed

section \<open>The three codecs\<close>

definition fits12 :: "nat \<Rightarrow> cluster \<Rightarrow> bool" where "fits12 n c \<longleftrightarrow> offset12 c + 1 < n"
definition fits16 :: "nat \<Rightarrow> cluster \<Rightarrow> bool" where "fits16 n c \<longleftrightarrow> unat c * 2 + 1 < n"
definition fits32 :: "nat \<Rightarrow> cluster \<Rightarrow> bool" where "fits32 n c \<longleftrightarrow> unat c * 4 + 3 < n"

definition raw12 :: "u8 list \<Rightarrow> cluster \<Rightarrow> u16" where
  "raw12 d c = (let v = le16 (d ! offset12 c) (d ! (offset12 c + 1)) in if odd (unat c) then drop_bit 4 v else v AND mask 12)"

lemma read12_raw: "read12 d c = (if fits12 (length d) c then Inr (decode12 (raw12 d c)) else Inl OutOfBounds)"
  by (simp add: read12_def raw12_def fits12_def odd_cluster Let_def fat_masks(1))

lemma encode12_small: "encode12 e AND mask 12 = encode12 e"
proof (cases e)
  case (Next n)
  show ?thesis unfolding encode12_def Next fat_entry.simps fat_masks by (rule bit_word_eqI) (auto simp: bit_simps)
qed (simp_all add: encode12_def mask_eq_exp_minus_1)

lemma bit_encode12: "bit (encode12 e) n \<Longrightarrow> n < 12"
  by (metis encode12_small bit_and_iff bit_mask_iff)

lemma offset12_cases:
  assumes "c' \<noteq> c"
  shows "even (unat c) \<and> odd (unat c') \<and> offset12 c' = offset12 c + 1
    \<or> odd (unat c) \<and> even (unat c') \<and> offset12 c = offset12 c' + 1
    \<or> offset12 c + 1 < offset12 c' \<or> offset12 c' + 1 < offset12 c"
proof -
  have "unat c' \<noteq> unat c" using assms by (simp add: word_unat_eq_iff)
  moreover have half: "unat x = 2 * (unat x div 2) + (if odd (unat x) then 1 else 0)" for x :: cluster by simp
  have o: "offset12 x = 3 * (unat x div 2) + (if odd (unat x) then 1 else 0)" for x
    using half [of x] by (simp add: offset12_def)
  ultimately show ?thesis
    using half [of c] half [of c'] o [of c] o [of c']
    by (cases "unat c div 2" "unat c' div 2" rule: linorder_cases) (auto split: if_splits)
qed

lemma write12_raw:
  assumes "write12 d c e = Inr d'"
  shows "raw12 d' c = encode12 e" and "c' \<noteq> c \<Longrightarrow> fits12 (length d) c' \<Longrightarrow> raw12 d' c' = raw12 d c'"
    and "length d' = length d" and "fits12 (length d) c"
proof -
  let ?o = "offset12 c" and ?v = "encode12 e"
  define w where "w = le16 (d ! ?o) (d ! (?o + 1))"
  define n where "n = (if odd (unat c) then (w AND mask 4) OR push_bit 4 ?v else (w AND NOT (mask 12)) OR ?v)"
  have fit: "?o + 1 < length d" and d': "d' = d[?o := ucast n, ?o + 1 := ucast (drop_bit 8 n)]"
    using assms unfolding write12_def Let_def odd_cluster fat_masks n_def w_def by (auto split: if_splits)
  show "length d' = length d" "fits12 (length d) c" using fit d' by (simp_all add: fits12_def)
  have "le16 (d' ! ?o) (d' ! (?o + 1)) = n" using fit by (simp add: d' le16_bytes)
  then show "raw12 d' c = ?v"
    by (auto simp: raw12_def n_def bit_simps dest: bit_encode12 intro!: bit_word_eqI)
  assume c': "c' \<noteq> c" "fits12 (length d) c'"
  then have fit': "offset12 c' + 1 < length d" by (simp add: fits12_def)
  consider "even (unat c)" "odd (unat c')" "offset12 c' = ?o + 1" | "odd (unat c)" "even (unat c')" "?o = offset12 c' + 1"
    | "?o + 1 < offset12 c' \<or> offset12 c' + 1 < ?o" using offset12_cases [OF c'(1)] by blast
  then show "raw12 d' c' = raw12 d c'"
  proof cases
    case 1
    have "bit n (12 + m) = bit (d ! Suc ?o) (4 + m)" if "m < 4" for m
      using that 1(1) by (auto simp: n_def w_def bit_simps bit_le16 dest: bit_encode12)
    then show ?thesis using 1 fit' fit
      by (intro bit_word_eqI) (auto simp: raw12_def d' bit_simps bit_le16)
  next
    case 2
    have "bit n m = bit (d ! ?o) m" if "m < 4" for m
      using that 2(1) by (auto simp: n_def w_def bit_simps bit_le16)
    then show ?thesis using 2 fit' fit
      by (intro bit_word_eqI) (auto simp: raw12_def d' bit_simps bit_le16)
  next
    case 3
    then show ?thesis by (auto simp: raw12_def d')
  qed
qed

definition canon12 :: "fat_entry \<Rightarrow> fat_entry" where "canon12 e = decode12 (encode12 e)"
definition canon16 :: "fat_entry \<Rightarrow> fat_entry" where "canon16 e = decode16 (encode16 e)"
definition canon32 :: "fat_entry \<Rightarrow> fat_entry" where "canon32 e = decode32 (encode32 e)"

interpretation fat12: fat_codec read12 write12 fits12 canon12
proof unfold_locales
  fix d :: "u8 list" and c e
  assume f: "fits12 (length d) c"
  show "\<exists>e. read12 d c = Inr e" using f by (simp add: read12_raw)
  show "\<exists>d'. write12 d c e = Inr d' \<and> length d' = length d" using f by (simp add: write12_def fits12_def Let_def)
next
  fix d d' :: "u8 list" and c c' e
  assume w: "write12 d c e = Inr d'"
  show "read12 d' c = Inr (canon12 e)" using write12_raw [OF w] by (simp add: read12_raw canon12_def)
  show "read12 d' c' = read12 d c'" if "c' \<noteq> c" using write12_raw(2,3) [OF w] that by (simp add: read12_raw)
next
  fix n and c c' :: cluster
  assume f: "fits12 n c"
  show "fits12 n c'" if "c' \<le> c"
    using f that div_le_mono [of "unat c'" "unat c" 2] by (simp add: fits12_def offset12_def word_le_nat_alt)
  show "unat c < n" using f by (simp add: fits12_def offset12_def)
qed (simp_all add: read12_raw write12_def fits12_def Let_def)

interpretation fat16: fat_codec read16 write16 fits16 canon16
proof unfold_locales
  fix d :: "u8 list" and c e
  assume f: "fits16 (length d) c"
  show "\<exists>e. read16 d c = Inr e" using f by (simp add: read16_def fits16_def Let_def)
  show "\<exists>d'. write16 d c e = Inr d' \<and> length d' = length d" using f by (simp add: write16_def fits16_def Let_def)
next
  fix d d' :: "u8 list" and c c' e
  assume w: "write16 d c e = Inr d'"
  then have d': "d' = d[unat c * 2 := ucast (encode16 e), unat c * 2 + 1 := ucast (drop_bit 8 (encode16 e))]"
    and l: "unat c * 2 + 1 < length d" by (auto simp: write16_def Let_def split: if_splits)
  show "read16 d' c = Inr (canon16 e)" using l by (simp add: d' read16_def canon16_def le16_bytes Let_def)
  show "read16 d' c' = read16 d c'" if "c' \<noteq> c"
  proof -
    have "unat c' \<noteq> unat c" using that by (simp add: word_unat_eq_iff)
    then have "unat c' * 2 \<noteq> unat c * 2" "unat c' * 2 + 1 \<noteq> unat c * 2" "unat c' * 2 \<noteq> unat c * 2 + 1" by presburger+
    then show ?thesis using l by (simp add: d' read16_def Let_def)
  qed
qed (auto simp: read16_def write16_def fits16_def Let_def word_le_nat_alt)

lemma encode32_small: "encode32 e AND mask 28 = encode32 e"
  by (cases e) (simp_all add: encode32_def fat_masks and.assoc, simp_all add: mask_eq_exp_minus_1)

lemma bit_encode32: "bit (encode32 e) n \<Longrightarrow> n < 28"
  by (metis encode32_small bit_and_iff bit_mask_iff)

lemma le32_bytes:
  assumes "\<And>n. bit v n \<Longrightarrow> n < 28"
  shows "le32 (ucast (v AND mask 8)) (ucast (drop_bit 8 v AND mask 8)) (ucast (drop_bit 16 v AND mask 8))
    ((b AND NOT (mask 4) OR ucast (drop_bit 24 v AND mask 4)) AND mask 4) = v"
  by (rule bit_word_eqI) (auto simp: bit_le32 bit_simps dest: assms)

interpretation fat32: fat_codec read32 write32 fits32 canon32
proof unfold_locales
  fix d :: "u8 list" and c e
  assume f: "fits32 (length d) c"
  show "\<exists>e. read32 d c = Inr e" using f by (simp add: read32_def fits32_def Let_def)
  show "\<exists>d'. write32 d c e = Inr d' \<and> length d' = length d" using f by (simp add: write32_def fits32_def Let_def)
next
  fix d d' :: "u8 list" and c c' e
  assume w: "write32 d c e = Inr d'"
  let ?v = "encode32 e" and ?o = "unat c * 4"
  have d': "d' = d[?o := ucast (?v AND mask 8), ?o + 1 := ucast (drop_bit 8 ?v AND mask 8),
      ?o + 2 := ucast (drop_bit 16 ?v AND mask 8), ?o + 3 := (d ! (?o + 3) AND NOT (mask 4)) OR ucast (drop_bit 24 ?v AND mask 4)]"
    and l: "?o + 3 < length d" using w unfolding write32_def Let_def fat_masks by (auto split: if_splits)
  show "read32 d' c = Inr (canon32 e)"
    using l le32_bytes [of ?v "d ! (?o + 3)"] bit_encode32 [of e]
    unfolding read32_def Let_def fat_masks by (simp add: d' canon32_def)
  show "read32 d' c' = read32 d c'" if "c' \<noteq> c"
  proof -
    have "unat c' \<noteq> unat c" using that by (simp add: word_unat_eq_iff)
    then have ne: "unat c' * 4 + i \<noteq> ?o + j" if "i < 4" "j < 4" for i j using that by presburger
    have "d' ! (unat c' * 4 + i) = d ! (unat c' * 4 + i)" if "i < 4" for i
      using ne [OF that, of 0] ne [OF that, of 1] ne [OF that, of 2] ne [OF that, of 3] by (simp add: d')
    from this [of 0] this [of 1] this [of 2] this [of 3] show ?thesis by (simp add: read32_def Let_def) (simp add: d')
  qed
qed (auto simp: read32_def write32_def fits32_def Let_def word_le_nat_alt)

end
