(* ===== verification/Fat_Table.thy ===== *)
theory Fat_Table
  imports Fat_Entries
begin

text \<open>
  The in-memory table \<open>FatTable\<close> of kernel/foundry/storage/src/fs/fat/fat.rs, which implements
  \<open>FatEntries\<close>: reading and setting entries, counting, allocating and freeing clusters and chains,
  and the chain iterator. The abstract view of a table is a partial map from clusters to entries.
\<close>

unbundle bit_operations_syntax

definition read_fat_entry :: "fat_type \<Rightarrow> u8 list \<Rightarrow> cluster \<Rightarrow> fat_error + fat_entry" where
  "read_fat_entry t = (case t of Fat12 \<Rightarrow> read12 | Fat16 \<Rightarrow> read16 | Fat32 \<Rightarrow> read32)"

definition write_fat_entry :: "fat_type \<Rightarrow> u8 list \<Rightarrow> cluster \<Rightarrow> fat_entry \<Rightarrow> fat_error + u8 list" where
  "write_fat_entry t = (case t of Fat12 \<Rightarrow> write12 | Fat16 \<Rightarrow> write16 | Fat32 \<Rightarrow> write32)"

record fat_table =
  ft_type :: fat_type
  ft_data :: "u8 list"
  ft_free :: u32

definition max_clusters :: "fat_type \<Rightarrow> nat" where
  "max_clusters t = (case t of Fat12 \<Rightarrow> 0x0FF6 | Fat16 \<Rightarrow> 0xFFF6 | Fat32 \<Rightarrow> 0x0FFFFFF6)"

definition fat_get :: "fat_table \<Rightarrow> cluster \<Rightarrow> fat_error + fat_entry" where
  "fat_get tbl c =
     (if \<not> cluster_is_valid c (ft_type tbl) then Inl InvalidCluster
      else read_fat_entry (ft_type tbl) (ft_data tbl) c)"

text \<open>An operation returns its result with the table it leaves behind, also when it fails.\<close>

definition fat_set :: "fat_table \<Rightarrow> cluster \<Rightarrow> fat_entry \<Rightarrow> (fat_error + unit) \<times> fat_table" where
  "fat_set tbl c e =
     (if \<not> cluster_is_valid c (ft_type tbl) \<and> c \<noteq> 0 \<and> c \<noteq> 1 then (Inl InvalidCluster, tbl)
      else case fat_get tbl c of
             Inl err \<Rightarrow> (Inl err, tbl)
           | Inr old_entry \<Rightarrow>
               (let tbl1 = (if old_entry = Free \<and> e \<noteq> Free
                            then tbl\<lparr>ft_free := saturating_sub (ft_free tbl) 1\<rparr>
                            else if old_entry \<noteq> Free \<and> e = Free
                            then tbl\<lparr>ft_free := saturating_add (ft_free tbl) 1\<rparr>
                            else tbl)
                in case write_fat_entry (ft_type tbl) (ft_data tbl) c e of
                     Inl err \<Rightarrow> (Inl err, tbl1)
                   | Inr d \<Rightarrow> (Inr (), tbl1\<lparr>ft_data := d\<rparr>)))"

text \<open>The loop of \<open>count_free\<close> over \<open>i..=max_clusters\<close>.\<close>

function fat_count_from :: "fat_table \<Rightarrow> nat \<Rightarrow> u32 \<Rightarrow> fat_error + u32" where
  "fat_count_from tbl i n =
     (if i > max_clusters (ft_type tbl) then Inr n
      else case fat_get tbl (of_nat i) of
             Inr Free \<Rightarrow> fat_count_from tbl (i + 1) (n + 1)
           | Inl OutOfBounds \<Rightarrow> Inr n
           | Inl err \<Rightarrow> Inl err
           | Inr _ \<Rightarrow> fat_count_from tbl (i + 1) n)"
  by pat_completeness auto
termination
  by (relation "measure (\<lambda>(tbl, i, n). Suc (max_clusters (ft_type tbl)) - i)") auto

definition fat_count_free :: "fat_table \<Rightarrow> fat_error + u32" where
  "fat_count_free tbl = fat_count_from tbl 2 0"

definition fat_table_new :: "fat_type \<Rightarrow> u8 list \<Rightarrow> fat_table" where
  "fat_table_new t d =
     (let tbl = \<lparr>ft_type = t, ft_data = d, ft_free = 0\<rparr>
      in tbl\<lparr>ft_free := (case fat_count_free tbl of Inr n \<Rightarrow> n | Inl _ \<Rightarrow> 0)\<rparr>)"

text \<open>The search loop of \<open>alloc_cluster\<close>.\<close>

function fat_alloc_from :: "fat_table \<Rightarrow> nat \<Rightarrow> (fat_error + cluster) \<times> fat_table" where
  "fat_alloc_from tbl i =
     (if i > max_clusters (ft_type tbl) then (Inl OutOfBounds, tbl)
      else case fat_get tbl (of_nat i) of
             Inr Free \<Rightarrow>
               (case fat_set tbl (of_nat i) EndOfChain of
                  (Inl err, tbl') \<Rightarrow> (Inl err, tbl')
                | (Inr _, tbl') \<Rightarrow> (Inr (of_nat i), tbl'))
           | Inl err \<Rightarrow> (Inl err, tbl)
           | Inr _ \<Rightarrow> fat_alloc_from tbl (i + 1))"
  by pat_completeness auto
termination
  by (relation "measure (\<lambda>(tbl, i). Suc (max_clusters (ft_type tbl)) - i)") auto

declare fat_count_from.simps [simp del] fat_alloc_from.simps [simp del]

definition fat_alloc_cluster :: "fat_table \<Rightarrow> (fat_error + cluster) \<times> fat_table" where
  "fat_alloc_cluster tbl =
     (if ft_free tbl = 0 then (Inl OutOfBounds, tbl) else fat_alloc_from tbl 2)"

text \<open>The loop of \<open>alloc_cluster_chain\<close> that adds \<open>n\<close> clusters behind \<open>prev\<close>.\<close>

fun fat_alloc_links :: "fat_table \<Rightarrow> cluster \<Rightarrow> nat \<Rightarrow> (fat_error + unit) \<times> fat_table" where
  "fat_alloc_links tbl prev 0 = (Inr (), tbl)"
| "fat_alloc_links tbl prev (Suc n) =
     (case fat_alloc_cluster tbl of
        (Inl err, tbl1) \<Rightarrow> (Inl err, tbl1)
      | (Inr c, tbl1) \<Rightarrow>
          (case fat_set tbl1 prev (Next c) of
             (Inl err, tbl2) \<Rightarrow> (Inl err, tbl2)
           | (Inr _, tbl2) \<Rightarrow> fat_alloc_links tbl2 c n))"

definition fat_alloc_chain :: "fat_table \<Rightarrow> nat \<Rightarrow> (fat_error + cluster) \<times> fat_table" where
  "fat_alloc_chain tbl n =
     (if n = 0 then (Inl InvalidParameter, tbl)
      else if unat (ft_free tbl) < n then (Inl OutOfBounds, tbl)
      else case fat_alloc_cluster tbl of
             (Inl err, tbl1) \<Rightarrow> (Inl err, tbl1)
           | (Inr first, tbl1) \<Rightarrow>
               (case fat_alloc_links tbl1 first (n - 1) of
                  (Inl err, tbl2) \<Rightarrow> (Inl err, tbl2)
                | (Inr _, tbl2) \<Rightarrow> (Inr first, tbl2)))"

definition fat_free_cluster :: "fat_table \<Rightarrow> cluster \<Rightarrow> (fat_error + unit) \<times> fat_table" where
  "fat_free_cluster tbl c =
     (if \<not> cluster_is_valid c (ft_type tbl) then (Inl InvalidCluster, tbl) else fat_set tbl c Free)"

text \<open>The loop of \<open>free_cluster_chain\<close>; \<open>None\<close> is a loop that does not end.\<close>

partial_function (option) fat_free_links ::
  "fat_table \<Rightarrow> cluster \<Rightarrow> ((fat_error + unit) \<times> fat_table) option" where
  "fat_free_links tbl current =
     (if cluster_is_free current then Some (Inr (), tbl)
      else case fat_get tbl current of
             Inl err \<Rightarrow> Some (Inl err, tbl)
           | Inr entry \<Rightarrow>
               (case entry of
                  Next next \<Rightarrow>
                    (case fat_set tbl current Free of
                       (Inl err, tbl1) \<Rightarrow> Some (Inl err, tbl1)
                     | (Inr _, tbl1) \<Rightarrow> fat_free_links tbl1 next)
                | EndOfChain \<Rightarrow>
                    (case fat_set tbl current Free of
                       (Inl err, tbl1) \<Rightarrow> Some (Inl err, tbl1)
                     | (Inr _, tbl1) \<Rightarrow> Some (Inr (), tbl1))
                | _ \<Rightarrow> Some (Inl InvalidCluster, tbl)))"

definition fat_free_chain :: "fat_table \<Rightarrow> cluster \<Rightarrow> ((fat_error + unit) \<times> fat_table) option" where
  "fat_free_chain tbl start =
     (if \<not> cluster_is_valid start (ft_type tbl) then Some (Inl InvalidCluster, tbl)
      else fat_free_links tbl start)"

text \<open>\<open>FatChainIter\<close>: the state is the cluster to yield next.\<close>

definition chain_iter_next :: "fat_table \<Rightarrow> cluster option \<Rightarrow> (cluster \<times> cluster option) option" where
  "chain_iter_next tbl nxt =
     (case nxt of
        None \<Rightarrow> None
      | Some current \<Rightarrow>
          Some (current, case fat_get tbl current of Inr (Next n) \<Rightarrow> Some n | _ \<Rightarrow> None))"

partial_function (option) chain_collect :: "fat_table \<Rightarrow> cluster option \<Rightarrow> cluster list option" where
  "chain_collect tbl nxt =
     (case chain_iter_next tbl nxt of
        None \<Rightarrow> Some []
      | Some (c, nxt') \<Rightarrow> Option.bind (chain_collect tbl nxt') (\<lambda>cs. Some (c # cs)))"

declare fat_free_links.simps [code] chain_collect.simps [code]

section \<open>The codec of a table\<close>

definition fat_fits :: "fat_type \<Rightarrow> nat \<Rightarrow> cluster \<Rightarrow> bool" where
  "fat_fits t = (case t of Fat12 \<Rightarrow> fits12 | Fat16 \<Rightarrow> fits16 | Fat32 \<Rightarrow> fits32)"

definition fat_canon :: "fat_type \<Rightarrow> fat_entry \<Rightarrow> fat_entry" where
  "fat_canon t = (case t of Fat12 \<Rightarrow> canon12 | Fat16 \<Rightarrow> canon16 | Fat32 \<Rightarrow> canon32)"

interpretation codec: fat_codec "read_fat_entry t" "write_fat_entry t" "fat_fits t" "fat_canon t" for t
  by (cases t) (simp_all add: read_fat_entry_def write_fat_entry_def fat_fits_def fat_canon_def
      fat12.fat_codec_axioms fat16.fat_codec_axioms fat32.fat_codec_axioms)

text \<open>The cluster numbers that an entry can point to: below the reserved values, and not 0.\<close>

definition first_reserved :: "fat_type \<Rightarrow> nat" where
  "first_reserved t = (case t of Fat12 \<Rightarrow> 0xFF0 | Fat16 \<Rightarrow> 0xFFF0 | Fat32 \<Rightarrow> 0x0FFFFFF0)"

lemma and_mask_small: "unat n < 2 ^ k \<Longrightarrow> n AND mask k = (n :: 'a::len word)"
  by (simp add: word_unat_eq_iff unat_and_mask)

lemma fat_canon_simps [simp]:
  "fat_canon t Free = Free" "fat_canon t EndOfChain = EndOfChain" "fat_canon t Bad = Bad" "fat_canon t Reserved = Reserved"
  by (cases t; simp add: fat_canon_def canon12_def canon16_def canon32_def decode12_def decode16_def decode32_def
      encode12_def encode16_def encode32_def)+

lemma decode_Next:
  "v \<noteq> 0 \<Longrightarrow> unat v < 0xFF0 \<Longrightarrow> decode12 v = Next (ucast v)"
  "v \<noteq> 0 \<Longrightarrow> unat v < 0xFFF0 \<Longrightarrow> decode16 v = Next (ucast v)"
  "w \<noteq> 0 \<Longrightarrow> unat w < 0x0FFFFFF0 \<Longrightarrow> decode32 w = Next w"
  by (simp_all add: decode12_def decode16_def decode32_def word_le_nat_alt word_unat_eq_iff)

lemma fat_canon_Next:
  assumes "n \<noteq> 0" "unat n < first_reserved t"
  shows "fat_canon t (Next n) = Next n"
proof -
  have uc: "ucast (ucast n :: u16) = n \<and> unat (ucast n :: u16) = unat n \<and> (ucast n :: u16) \<noteq> 0" if "unat n < 2 ^ 16"
    using that assms(1) by (simp add: word_unat_eq_iff unat_ucast)
  show ?thesis
  proof (cases t)
    case Fat12
    then have s: "unat n < 0xFF0" using assms by (simp add: first_reserved_def)
    then have "n AND 0x0FFF = n" using and_mask_small [of n 12] by (simp add: fat_masks)
    then show ?thesis using Fat12 uc s decode_Next(1) [of "ucast n"] by (simp add: fat_canon_def canon12_def encode12_def)
  next
    case Fat16
    then have s: "unat n < 0xFFF0" using assms by (simp add: first_reserved_def)
    then have "n AND 0xFFFF = n" using and_mask_small [of n 16] by (simp add: fat_masks)
    then show ?thesis using Fat16 uc s decode_Next(2) [of "ucast n"] by (simp add: fat_canon_def canon16_def encode16_def)
  next
    case Fat32
    then have s: "unat n < 0x0FFFFFF0" using assms by (simp add: first_reserved_def)
    then have "n AND 0x0FFFFFFF = n" using and_mask_small [of n 28] by (simp add: fat_masks)
    then show ?thesis using Fat32 s decode_Next(3) [of n] assms(1) by (simp add: fat_canon_def canon32_def encode32_def)
  qed
qed

section \<open>A table as a map\<close>

definition fat_map :: "fat_table \<Rightarrow> cluster \<Rightarrow> fat_entry option" where
  "fat_map tbl c = (case fat_get tbl c of Inr e \<Rightarrow> Some e | Inl _ \<Rightarrow> None)"

definition free_clusters :: "fat_table \<Rightarrow> cluster set" where
  "free_clusters tbl = {c. fat_map tbl c = Some Free}"

text \<open>The invariant of the code: the cached count is the number of free entries.\<close>

definition fat_inv :: "fat_table \<Rightarrow> bool" where
  "fat_inv tbl \<longleftrightarrow> unat (ft_free tbl) = card (free_clusters tbl)"

definition same_table :: "fat_table \<Rightarrow> fat_table \<Rightarrow> bool" where
  "same_table tbl tbl' \<longleftrightarrow> ft_type tbl' = ft_type tbl \<and> length (ft_data tbl') = length (ft_data tbl)"

lemma same_table_refl [simp]: "same_table tbl tbl"
  by (simp add: same_table_def)

lemma same_table_trans: "same_table a b \<Longrightarrow> same_table b c \<Longrightarrow> same_table a c"
  by (simp add: same_table_def)

lemma cluster_valid_iff: "cluster_is_valid c t \<longleftrightarrow> 2 \<le> unat c \<and> unat c \<le> max_clusters t"
  by (cases t) (simp_all add: cluster_is_valid_def max_clusters_def word_le_nat_alt)

lemma fat_map_dom: "fat_map tbl c \<noteq> None \<longleftrightarrow> cluster_is_valid c (ft_type tbl) \<and> fat_fits (ft_type tbl) (length (ft_data tbl)) c"
  using codec.rd_in [of "ft_type tbl" "ft_data tbl" c] codec.rd_out [of "ft_type tbl" "ft_data tbl" c]
  by (cases "fat_fits (ft_type tbl) (length (ft_data tbl)) c") (auto simp: fat_map_def fat_get_def)

lemma fat_map_valid: "fat_map tbl c = Some e \<Longrightarrow> 2 \<le> unat c \<and> unat c \<le> max_clusters (ft_type tbl)"
  using fat_map_dom [of tbl c] by (simp add: cluster_valid_iff)

lemma same_table_dom: "same_table tbl tbl' \<Longrightarrow> fat_map tbl' c = None \<longleftrightarrow> fat_map tbl c = None"
  using fat_map_dom [of tbl c] fat_map_dom [of tbl' c] unfolding same_table_def by metis

lemma fat_get_map: "fat_map tbl c = Some e \<longleftrightarrow> fat_get tbl c = Inr e"
  by (simp add: fat_map_def split: sum.splits)

lemma finite_clusters [simp]: "finite (A :: cluster set)"
  by simp

lemma free_count_bound: "card (free_clusters tbl) < 2 ^ 32 - 2"
proof -
  have "inj_on unat (free_clusters tbl)" by (simp add: inj_on_def word_unat_eq_iff)
  then have "card (free_clusters tbl) \<le> card (unat ` free_clusters tbl)" by (simp add: card_image)
  also have "\<dots> \<le> card {2..max_clusters (ft_type tbl)}"
  proof (rule card_mono)
    show "unat ` free_clusters tbl \<subseteq> {2..max_clusters (ft_type tbl)}"
      by (auto simp: free_clusters_def dest: fat_map_valid)
  qed simp
  also have "\<dots> < 2 ^ 32 - 2" by (cases "ft_type tbl") (simp_all add: max_clusters_def)
  finally show ?thesis .
qed

text \<open>Setting an entry of the table: the map changes there and nowhere else, and the count follows.\<close>

definition free_after :: "u32 \<Rightarrow> fat_entry \<Rightarrow> fat_entry \<Rightarrow> u32" where
  "free_after n old e = (if old = Free \<and> e \<noteq> Free then saturating_sub n 1
     else if old \<noteq> Free \<and> e = Free then saturating_add n 1 else n)"

lemma fat_set_step:
  assumes old: "fat_map tbl c = Some old"
  shows "\<exists>tbl'. fat_set tbl c e = (Inr (), tbl') \<and> fat_map tbl' = (fat_map tbl)(c \<mapsto> fat_canon (ft_type tbl) e)
    \<and> same_table tbl tbl' \<and> ft_free tbl' = free_after (ft_free tbl) old e"
proof -
  let ?t = "ft_type tbl" and ?d = "ft_data tbl"
  have v: "cluster_is_valid c ?t" "fat_fits ?t (length ?d) c" using old fat_map_dom [of tbl c] by auto
  have g: "fat_get tbl c = Inr old" using old by (simp add: fat_get_map)
  obtain d' where d': "write_fat_entry ?t ?d c e = Inr d'" "length d' = length ?d"
    using codec.wr_in [OF v(2), of e] by blast
  define tbl' where "tbl' = tbl\<lparr>ft_free := free_after (ft_free tbl) old e, ft_data := d'\<rparr>"
  have set: "fat_set tbl c e = (Inr (), tbl')" using v g d' by (simp add: fat_set_def tbl'_def free_after_def Let_def)
  have "fat_map tbl' = (fat_map tbl)(c \<mapsto> fat_canon ?t e)"
  proof
    fix x show "fat_map tbl' x = ((fat_map tbl)(c \<mapsto> fat_canon ?t e)) x"
      using codec.rd_wr [OF d'(1)] codec.rd_frame [OF d'(1), of x] v(1) by (simp add: fat_map_def fat_get_def tbl'_def)
  qed
  with set d'(2) show ?thesis by (simp add: same_table_def tbl'_def)
qed

lemma fat_set_map:
  assumes old: "fat_map tbl c = Some old" and inv: "fat_inv tbl" and e: "fat_canon (ft_type tbl) e = Free \<longleftrightarrow> e = Free"
  shows "\<exists>tbl'. fat_set tbl c e = (Inr (), tbl') \<and> fat_map tbl' = (fat_map tbl)(c \<mapsto> fat_canon (ft_type tbl) e)
    \<and> same_table tbl tbl' \<and> fat_inv tbl'"
proof -
  obtain tbl' where t: "fat_set tbl c e = (Inr (), tbl')" "fat_map tbl' = (fat_map tbl)(c \<mapsto> fat_canon (ft_type tbl) e)"
    "same_table tbl tbl'" "ft_free tbl' = free_after (ft_free tbl) old e" using fat_set_step [OF old] by blast
  have f: "free_clusters tbl' = (if e = Free then insert c (free_clusters tbl) else free_clusters tbl - {c})"
    using e by (auto simp: free_clusters_def t(2))
  have c: "c \<in> free_clusters tbl \<longleftrightarrow> old = Free" using old by (simp add: free_clusters_def)
  have "unat (free_after (ft_free tbl) old e) = card (free_clusters tbl')"
    using inv f c free_count_bound [of tbl]
    by (auto simp: free_after_def fat_inv_def unat_saturating_sub unat_saturating_add card_insert_if card_Diff_singleton_if insert_absorb)
  then have "fat_inv tbl'" by (simp add: fat_inv_def t(4))
  with t show ?thesis by blast
qed

section \<open>Counting and searching\<close>

definition free_from :: "fat_table \<Rightarrow> nat \<Rightarrow> cluster set" where
  "free_from tbl i = {c \<in> free_clusters tbl. i \<le> unat c}"

lemma free_from_2: "free_from tbl 2 = free_clusters tbl"
  by (auto simp: free_from_def free_clusters_def dest: fat_map_valid)

text \<open>What a scan finds at position \<open>i\<close>: a free cluster, a used one, or the end of the table.\<close>

lemma scan_cases:
  assumes "2 \<le> i" "i \<le> max_clusters (ft_type tbl)"
  obtains (free) "fat_get tbl (of_nat i) = Inr Free" "of_nat i \<in> free_clusters tbl"
      "free_from tbl i = insert (of_nat i) (free_from tbl (i + 1))" "of_nat i \<notin> free_from tbl (i + 1)"
  | (used) e where "fat_get tbl (of_nat i) = Inr e" "e \<noteq> Free" "free_from tbl i = free_from tbl (i + 1)"
  | (out) "fat_get tbl (of_nat i) = Inl OutOfBounds" "free_from tbl i = {}"
proof -
  let ?c = "of_nat i :: cluster"
  have "max_clusters (ft_type tbl) < 2 ^ 32" by (cases "ft_type tbl") (simp_all add: max_clusters_def)
  then have u: "unat ?c = i" using assms(2) by (simp add: unat_of_nat)
  then have v: "cluster_is_valid ?c (ft_type tbl)" using assms by (simp add: cluster_valid_iff)
  have split: "free_from tbl i = {c \<in> free_clusters tbl. c = ?c} \<union> free_from tbl (i + 1)"
    using u by (auto simp: free_from_def word_unat_eq_iff)
  have ni: "?c \<notin> free_from tbl (i + 1)" using u by (simp add: free_from_def)
  show thesis
  proof (cases "fat_map tbl ?c")
    case None
    then have nf: "\<not> fat_fits (ft_type tbl) (length (ft_data tbl)) ?c" using v fat_map_dom [of tbl ?c] by simp
    have "free_from tbl i = {}"
    proof -
      have "\<not> fat_fits (ft_type tbl) (length (ft_data tbl)) c" if "i \<le> unat c" for c
        using nf that u codec.fits_down [of "ft_type tbl" _ c ?c] by (auto simp: word_le_nat_alt)
      then show ?thesis using fat_map_dom by (fastforce simp: free_from_def free_clusters_def)
    qed
    moreover have "fat_get tbl ?c = Inl OutOfBounds" using nf v by (simp add: fat_get_def codec.rd_out)
    ultimately show thesis using out by simp
  next
    case (Some e)
    then have g: "fat_get tbl ?c = Inr e" by (simp add: fat_get_map)
    show thesis
    proof (cases "e = Free")
      case True
      then have "?c \<in> free_clusters tbl" using Some by (simp add: free_clusters_def)
      moreover from this have "free_from tbl i = insert ?c (free_from tbl (i + 1))" using split by auto
      ultimately show thesis using free g True ni by simp
    next
      case False
      then have "{c \<in> free_clusters tbl. c = ?c} = {}" using Some by (auto simp: free_clusters_def)
      with split have "free_from tbl i = free_from tbl (i + 1)" by blast
      then show thesis by (rule used [OF g False])
    qed
  qed
qed

lemma free_from_end: "\<not> i \<le> max_clusters (ft_type tbl) \<Longrightarrow> free_from tbl i = {}"
  by (auto simp: free_from_def free_clusters_def dest: fat_map_valid)

lemma fat_count_from_card:
  assumes "2 \<le> i"
  shows "fat_count_from tbl i n = Inr (n + of_nat (card (free_from tbl i)))"
  using assms
proof (induction "Suc (max_clusters (ft_type tbl)) - i" arbitrary: i n)
  case 0
  then show ?case by (subst fat_count_from.simps) (simp add: free_from_end)
next
  case (Suc k)
  then have i: "i \<le> max_clusters (ft_type tbl)" by simp
  have IH: "fat_count_from tbl (i + 1) m = Inr (m + of_nat (card (free_from tbl (i + 1))))" for m
    using Suc.hyps(1) [of "i + 1" m] Suc.hyps(2) Suc.prems by simp
  show ?case
  proof (cases rule: scan_cases [OF Suc.prems i])
    case 1
    then show ?thesis using i IH [of "n + 1"] by (subst fat_count_from.simps) (simp add: algebra_simps)
  next
    case (2 e)
    then show ?thesis using i IH [of n] by (subst fat_count_from.simps) (cases e; simp)
  next
    case 3
    then show ?thesis using i by (subst fat_count_from.simps) simp
  qed
qed

text \<open>A new table starts with the right count.\<close>

lemma fat_table_new_inv: "fat_inv (fat_table_new t d)"
proof -
  let ?tbl = "\<lparr>ft_type = t, ft_data = d, ft_free = 0\<rparr>"
  have "fat_count_free ?tbl = Inr (of_nat (card (free_clusters ?tbl)))"
    by (simp add: fat_count_free_def fat_count_from_card free_from_2)
  moreover have "free_clusters (fat_table_new t d) = free_clusters ?tbl"
    by (simp add: free_clusters_def fat_map_def fat_get_def fat_table_new_def Let_def)
  ultimately show ?thesis using free_count_bound [of ?tbl]
    by (simp add: fat_inv_def fat_table_new_def Let_def unat_of_nat)
qed

lemma fat_alloc_from_result:
  assumes "2 \<le> i" and inv: "fat_inv tbl"
  shows "if free_from tbl i = {} then fat_alloc_from tbl i = (Inl OutOfBounds, tbl)
    else \<exists>c tbl'. fat_alloc_from tbl i = (Inr c, tbl') \<and> c \<in> free_clusters tbl
      \<and> fat_map tbl' = (fat_map tbl)(c \<mapsto> EndOfChain) \<and> same_table tbl tbl' \<and> fat_inv tbl'"
  using assms(1)
proof (induction "Suc (max_clusters (ft_type tbl)) - i" arbitrary: i)
  case 0
  then show ?case by (subst fat_alloc_from.simps) (simp add: free_from_end)
next
  case (Suc k)
  then have i: "i \<le> max_clusters (ft_type tbl)" by simp
  show ?case
  proof (cases rule: scan_cases [OF Suc.prems i])
    case 1
    then have "fat_map tbl (of_nat i) = Some Free" by (simp add: fat_get_map)
    from fat_set_map [OF this inv, of EndOfChain] obtain tbl' where
      "fat_set tbl (of_nat i) EndOfChain = (Inr (), tbl')" "fat_map tbl' = (fat_map tbl)(of_nat i \<mapsto> EndOfChain)"
      "same_table tbl tbl'" "fat_inv tbl'" by auto
    then show ?thesis using 1 i by (subst fat_alloc_from.simps) simp
  next
    case (2 e)
    have "fat_alloc_from tbl i = fat_alloc_from tbl (i + 1)"
      using 2 i by (subst fat_alloc_from.simps) (cases e; simp)
    moreover have "k = Suc (max_clusters (ft_type tbl)) - (i + 1)" "2 \<le> i + 1" using Suc.hyps(2) Suc.prems by simp_all
    note Suc.hyps(1) [OF this]
    ultimately show ?thesis using 2(3) by (simp only:)
  next
    case 3
    then show ?thesis using i by (subst fat_alloc_from.simps) simp
  qed
qed

lemma fat_alloc_cluster_result:
  assumes "fat_inv tbl"
  shows "if free_clusters tbl = {} then fat_alloc_cluster tbl = (Inl OutOfBounds, tbl)
    else \<exists>c tbl'. fat_alloc_cluster tbl = (Inr c, tbl') \<and> c \<in> free_clusters tbl
      \<and> fat_map tbl' = (fat_map tbl)(c \<mapsto> EndOfChain) \<and> same_table tbl tbl' \<and> fat_inv tbl'"
proof -
  have "ft_free tbl = 0 \<longleftrightarrow> free_clusters tbl = {}"
    using assms by (simp add: fat_inv_def word_unat_eq_iff)
  then show ?thesis using fat_alloc_from_result [OF _ assms, of 2] by (simp add: fat_alloc_cluster_def free_from_2)
qed

section \<open>Chains\<close>

fun linked :: "(cluster \<Rightarrow> fat_entry option) \<Rightarrow> cluster list \<Rightarrow> bool" where
  "linked m [] \<longleftrightarrow> False"
| "linked m [c] \<longleftrightarrow> m c = Some EndOfChain"
| "linked m (c # d # cs) \<longleftrightarrow> m c = Some (Next d) \<and> linked m (d # cs)"

lemma linked_cong: "linked m cs \<Longrightarrow> (\<And>c. c \<in> set cs \<Longrightarrow> m' c = m c) \<Longrightarrow> linked m' cs"
  by (induction m cs rule: linked.induct) auto

text \<open>Every cluster of the table can be pointed to: the table ends below the reserved numbers.\<close>

definition pointable :: "fat_table \<Rightarrow> bool" where
  "pointable tbl \<longleftrightarrow> (\<forall>c. fat_map tbl c \<noteq> None \<longrightarrow> unat c < first_reserved (ft_type tbl))"

lemma pointable_same: "same_table tbl tbl' \<Longrightarrow> pointable tbl' = pointable tbl"
  using same_table_dom [of tbl tbl'] by (simp add: pointable_def same_table_def)

lemma pointable_small: "length (ft_data tbl) \<le> first_reserved (ft_type tbl) \<Longrightarrow> pointable tbl"
  using codec.fits_bound [of "ft_type tbl"] fat_map_dom [of tbl] by (fastforce simp: pointable_def)

lemma pointable_Next: "pointable tbl \<Longrightarrow> fat_map tbl c \<noteq> None \<Longrightarrow> fat_canon (ft_type tbl) (Next c) = Next c"
proof (rule fat_canon_Next)
  assume "pointable tbl" "fat_map tbl c \<noteq> None"
  then show "unat c < first_reserved (ft_type tbl)" by (simp add: pointable_def)
  show "c \<noteq> 0" using \<open>fat_map tbl c \<noteq> None\<close> fat_map_valid [of tbl c] by (auto simp: word_unat_eq_iff)
qed

lemma fat_alloc_links_result:
  assumes "fat_inv tbl" "pointable tbl" "fat_map tbl prev = Some EndOfChain" "n \<le> card (free_clusters tbl)"
  shows "\<exists>tbl' cs. fat_alloc_links tbl prev n = (Inr (), tbl') \<and> length cs = n \<and> distinct (prev # cs)
    \<and> set cs \<subseteq> free_clusters tbl \<and> linked (fat_map tbl') (prev # cs)
    \<and> (\<forall>x. x \<notin> set (prev # cs) \<longrightarrow> fat_map tbl' x = fat_map tbl x) \<and> same_table tbl tbl' \<and> fat_inv tbl'"
  using assms
proof (induction n arbitrary: tbl prev)
  case 0
  then show ?case by (intro exI [of _ tbl] exI [of _ "[]"]) simp
next
  case (Suc n)
  have "free_clusters tbl \<noteq> {}" using Suc.prems(4) by auto
  then obtain c tbl1 where a: "fat_alloc_cluster tbl = (Inr c, tbl1)" "c \<in> free_clusters tbl"
    "fat_map tbl1 = (fat_map tbl)(c \<mapsto> EndOfChain)" "same_table tbl tbl1" "fat_inv tbl1"
    using fat_alloc_cluster_result [OF Suc.prems(1)] by auto
  have cp: "c \<noteq> prev" using a(2) Suc.prems(3) by (auto simp: free_clusters_def)
  have p1: "pointable tbl1" using a(4) Suc.prems(2) pointable_same by blast
  have "fat_map tbl1 prev = Some EndOfChain" using a(3) cp Suc.prems(3) by simp
  moreover have cn: "fat_canon (ft_type tbl1) (Next c) = Next c" using pointable_Next [OF p1] a(3) by simp
  ultimately obtain tbl2 where b: "fat_set tbl1 prev (Next c) = (Inr (), tbl2)"
    "fat_map tbl2 = (fat_map tbl1)(prev \<mapsto> Next c)" "same_table tbl1 tbl2" "fat_inv tbl2"
    using fat_set_map [of tbl1 prev EndOfChain "Next c"] a(5) by auto
  have f: "free_clusters tbl2 = free_clusters tbl - {c}"
    using a(3) b(2) cp Suc.prems(3) by (auto simp: free_clusters_def)
  then have "n \<le> card (free_clusters tbl2)" using Suc.prems(4) a(2) by simp
  moreover have "pointable tbl2" "fat_map tbl2 c = Some EndOfChain" using p1 b(2,3) pointable_same a(3) cp by auto
  ultimately obtain tbl' cs where r: "fat_alloc_links tbl2 c n = (Inr (), tbl')" "length cs = n" "distinct (c # cs)"
    "set cs \<subseteq> free_clusters tbl2" "linked (fat_map tbl') (c # cs)"
    "\<forall>x. x \<notin> set (c # cs) \<longrightarrow> fat_map tbl' x = fat_map tbl2 x" "same_table tbl2 tbl'" "fat_inv tbl'"
    using Suc.IH [OF b(4)] by blast
  have np: "prev \<notin> set (c # cs)" using cp r(4) f Suc.prems(3) by (auto simp: free_clusters_def)
  then have "linked (fat_map tbl') (prev # c # cs)" using r(5,6) b(2) by simp
  moreover have "fat_map tbl' x = fat_map tbl x" if "x \<notin> set (prev # c # cs)" for x
    using that r(6) a(3) b(2) by simp
  moreover have "same_table tbl tbl'" using a(4) b(3) r(7) same_table_trans by blast
  ultimately show ?case using a(1,2) b(1) r f np
    by (intro exI [of _ tbl'] exI [of _ "c # cs"]) auto
qed

text \<open>The chain that an allocation builds, as one step on the map.\<close>

lemma fat_alloc_chain_result:
  assumes inv: "fat_inv tbl" "pointable tbl" and n: "0 < n" "n \<le> card (free_clusters tbl)"
  shows "\<exists>first tbl' cs. fat_alloc_chain tbl n = (Inr first, tbl') \<and> length (first # cs) = n \<and> distinct (first # cs)
    \<and> set (first # cs) \<subseteq> free_clusters tbl \<and> linked (fat_map tbl') (first # cs)
    \<and> (\<forall>x. x \<notin> set (first # cs) \<longrightarrow> fat_map tbl' x = fat_map tbl x) \<and> same_table tbl tbl' \<and> fat_inv tbl'"
proof -
  have "free_clusters tbl \<noteq> {}" using n by auto
  then obtain c tbl1 where a: "fat_alloc_cluster tbl = (Inr c, tbl1)" "c \<in> free_clusters tbl"
    "fat_map tbl1 = (fat_map tbl)(c \<mapsto> EndOfChain)" "same_table tbl tbl1" "fat_inv tbl1"
    using fat_alloc_cluster_result [OF inv(1)] by auto
  have f: "free_clusters tbl1 = free_clusters tbl - {c}" using a(3) by (auto simp: free_clusters_def)
  then have "n - 1 \<le> card (free_clusters tbl1)" using n a(2) by simp
  moreover have "pointable tbl1" using a(4) inv(2) pointable_same by blast
  moreover have "fat_map tbl1 c = Some EndOfChain" using a(3) by simp
  ultimately obtain tbl' cs where r: "fat_alloc_links tbl1 c (n - 1) = (Inr (), tbl')" "length cs = n - 1" "distinct (c # cs)"
    "set cs \<subseteq> free_clusters tbl1" "linked (fat_map tbl') (c # cs)"
    "\<forall>x. x \<notin> set (c # cs) \<longrightarrow> fat_map tbl' x = fat_map tbl1 x" "same_table tbl1 tbl'" "fat_inv tbl'"
    using fat_alloc_links_result [OF a(5)] by blast
  have "fat_alloc_chain tbl n = (Inr c, tbl')"
    using n inv(1) a(1) r(1) by (simp add: fat_alloc_chain_def fat_inv_def)
  moreover have "length (c # cs) = n" using r(2) n(1) by simp
  moreover have "set (c # cs) \<subseteq> free_clusters tbl" using r(4) f a(2) by auto
  moreover have "\<forall>x. x \<notin> set (c # cs) \<longrightarrow> fat_map tbl' x = fat_map tbl x" using r(6) a(3) by simp
  moreover have "same_table tbl tbl'" using a(4) r(7) same_table_trans by blast
  ultimately show ?thesis using r(3,5,8) by blast
qed



lemma linked_head: "linked m (c # cs) \<Longrightarrow> m c = (case cs of [] \<Rightarrow> Some EndOfChain | d # _ \<Rightarrow> Some (Next d))"
  by (cases cs) auto












lemma fat_free_links_linked:
  assumes "linked (fat_map tbl) cs" "distinct cs" "fat_inv tbl"
  shows "\<exists>tbl'. fat_free_links tbl (hd cs) = Some (Inr (), tbl') \<and> same_table tbl tbl' \<and> fat_inv tbl'
    \<and> (\<forall>x. fat_map tbl' x = (if x \<in> set cs then Some Free else fat_map tbl x))"
  using assms
proof (induction cs arbitrary: tbl)
  case (Cons c cs)
  obtain e where m: "fat_map tbl c = Some e" using Cons.prems(1) by (cases cs) auto
  then have c: "\<not> cluster_is_free c" using fat_map_valid [OF m] by (auto simp: cluster_is_free_def)
  obtain tbl1 where t: "fat_set tbl c Free = (Inr (), tbl1)" "fat_map tbl1 = (fat_map tbl)(c \<mapsto> Free)"
    "same_table tbl tbl1" "fat_inv tbl1" using fat_set_map [OF m Cons.prems(3), of Free] by auto
  have g: "fat_get tbl c = Inr e" using m by (simp add: fat_get_map)
  show ?case
  proof (cases cs)
    case Nil
    then have "e = EndOfChain" using Cons.prems(1) m by simp
    then have "fat_free_links tbl c = Some (Inr (), tbl1)" using c g t(1) by (subst fat_free_links.simps) simp
    then show ?thesis using t Nil by simp
  next
    case (Cons d ds)
    then have e: "e = Next d" "linked (fat_map tbl) cs" using Cons.prems(1) m by auto
    have "linked (fat_map tbl1) cs" using e(2) Cons.prems(2) t(2) by (auto intro: linked_cong)
    moreover have "distinct cs" using Cons.prems(2) by simp
    ultimately obtain tbl' where r: "fat_free_links tbl1 (hd cs) = Some (Inr (), tbl')" "same_table tbl1 tbl'" "fat_inv tbl'"
      "\<forall>x. fat_map tbl' x = (if x \<in> set cs then Some Free else fat_map tbl1 x)" using Cons.IH t(4) by blast
    have "fat_free_links tbl c = fat_free_links tbl1 d" using c g e(1) t(1) by (subst fat_free_links.simps) simp
    moreover have "fat_map tbl' x = (if x \<in> set (c # cs) then Some Free else fat_map tbl x)" for x using r(4) t(2) by simp
    ultimately show ?thesis using r(1-3) Cons t(3) same_table_trans by auto
  qed
qed simp

lemma chain_collect_linked: "linked (fat_map tbl) cs \<Longrightarrow> chain_collect tbl (Some (hd cs)) = Some cs"
proof (induction cs)
  case (Cons c cs)
  show ?case
  proof (cases cs)
    case Nil
    then have "fat_get tbl c = Inr EndOfChain" using Cons.prems by (simp add: fat_get_map)
    then have "chain_iter_next tbl (Some c) = Some (c, None)" by (simp add: chain_iter_next_def)
    moreover have "chain_collect tbl None = Some []" by (subst chain_collect.simps) (simp add: chain_iter_next_def)
    ultimately show ?thesis using Nil by (subst chain_collect.simps) simp
  next
    case (Cons d ds)
    then have g: "fat_get tbl c = Inr (Next d)" "linked (fat_map tbl) cs" using Cons.prems by (auto simp: fat_get_map)
    then have "chain_iter_next tbl (Some c) = Some (c, Some d)" by (simp add: chain_iter_next_def)
    then show ?thesis using Cons.IH g(2) Cons by (subst chain_collect.simps) simp
  qed
qed simp

section \<open>Properties\<close>

text \<open>
  Entries of a FAT, for FAT12, FAT16 and FAT32 alike. Writing the entry of a cluster succeeds
  exactly when the entry lies inside the table; then reading it gives the entry back, for every
  kind of entry and for links to clusters below the reserved numbers, and reading any other cluster
  gives what it gave before, also where two 12-bit entries share a byte.
\<close>

theorem fat_entry_roundtrip:
  "(fat_fits t (length d) c \<longleftrightarrow> (\<exists>d'. write_fat_entry t d c e = Inr d')) \<and>
   (\<forall>d'. write_fat_entry t d c e = Inr d' \<longrightarrow> length d' = length d \<and>
      (\<forall>c'. c' \<noteq> c \<longrightarrow> read_fat_entry t d' c' = read_fat_entry t d c') \<and>
      ((\<forall>n. e = Next n \<longrightarrow> n \<noteq> 0 \<and> unat n < first_reserved t) \<longrightarrow> read_fat_entry t d' c = Inr e))"
proof -
  have "read_fat_entry t d' c = Inr e"
    if "write_fat_entry t d c e = Inr d'" "\<forall>n. e = Next n \<longrightarrow> n \<noteq> 0 \<and> unat n < first_reserved t" for d'
    using codec.rd_wr [OF that(1)] that(2) fat_canon_Next by (cases e) simp_all
  moreover have "(\<exists>d'. write_fat_entry t d c e = Inr d') \<longleftrightarrow> fat_fits t (length d) c"
    using codec.wr_length codec.wr_in by blast
  ultimately show ?thesis using codec.wr_length codec.rd_frame by metis
qed

theorem fat_entry_roundtrip_witness:
  "\<exists>d'. write_fat_entry Fat12 (replicate 12 0xFF) 3 (Next 5) = Inr d' \<and> read_fat_entry Fat12 d' 3 = Inr (Next 5) \<and>
     read_fat_entry Fat12 d' 2 = read_fat_entry Fat12 (replicate 12 0xFF) 2"
proof -
  have f: "fat_fits Fat12 (length (replicate 12 (0xFF :: u8))) 3" by (simp add: fat_fits_def fits12_def offset12_def)
  then obtain d' where d: "write_fat_entry Fat12 (replicate 12 0xFF) 3 (Next 5) = Inr d'"
    using fat_entry_roundtrip [of Fat12 "replicate 12 0xFF" 3 "Next 5"] by blast
  have "\<forall>n. Next 5 = Next n \<longrightarrow> n \<noteq> 0 \<and> unat n < first_reserved Fat12" by (auto simp: first_reserved_def)
  then have "read_fat_entry Fat12 d' 3 = Inr (Next 5)"
    using fat_entry_roundtrip [of Fat12 "replicate 12 0xFF" 3 "Next 5"] d by blast
  moreover have "(2 :: cluster) \<noteq> 3" by simp
  then have "read_fat_entry Fat12 d' 2 = read_fat_entry Fat12 (replicate 12 0xFF) 2"
    using fat_entry_roundtrip [of Fat12 "replicate 12 0xFF" 3 "Next 5"] d by blast
  ultimately show ?thesis using d by blast
qed

text \<open>
  C14. Allocating a chain of clusters, as a step on the map of a table whose cached number of free
  clusters is right and that ends below the reserved cluster numbers. It fails with
  \<open>InvalidParameter\<close> for no clusters and with \<open>OutOfBounds\<close> when fewer are free, changing nothing;
  otherwise iterating from the cluster it returns yields exactly as many distinct clusters, all of
  which were free, no other entry changes, and the cached number of free clusters stays right.
\<close>

theorem fat_alloc_chain_correct:
  assumes "fat_inv tbl" "pointable tbl"
  shows "if n = 0 then fat_alloc_chain tbl n = (Inl InvalidParameter, tbl)
    else if card (free_clusters tbl) < n then fat_alloc_chain tbl n = (Inl OutOfBounds, tbl)
    else \<exists>first tbl' cs. fat_alloc_chain tbl n = (Inr first, tbl') \<and> chain_collect tbl' (Some first) = Some cs \<and>
      length cs = n \<and> distinct cs \<and> set cs \<subseteq> free_clusters tbl \<and>
      (\<forall>x. x \<notin> set cs \<longrightarrow> fat_map tbl' x = fat_map tbl x) \<and> fat_inv tbl'"
proof (cases "0 < n \<and> n \<le> card (free_clusters tbl)")
  case True
  then obtain first tbl' cs where r: "fat_alloc_chain tbl n = (Inr first, tbl')" "length (first # cs) = n" "distinct (first # cs)"
    "set (first # cs) \<subseteq> free_clusters tbl" "linked (fat_map tbl') (first # cs)"
    "\<forall>x. x \<notin> set (first # cs) \<longrightarrow> fat_map tbl' x = fat_map tbl x" "fat_inv tbl'"
    using fat_alloc_chain_result [OF assms] by blast
  have "chain_collect tbl' (Some first) = Some (first # cs)" using chain_collect_linked [OF r(5)] by simp
  moreover have c: "n \<noteq> 0" "\<not> card (free_clusters tbl) < n" using True by auto
  ultimately show ?thesis
    unfolding if_not_P [OF c(1)] if_not_P [OF c(2)] using r by (intro exI [of _ first] exI [of _ tbl'] exI [of _ "first # cs"] conjI)
next
  case False
  then show ?thesis using assms(1) by (auto simp: fat_alloc_chain_def fat_inv_def)
qed

text \<open>A FAT16 table of 20 bytes: the clusters 2 to 9 are free.\<close>

definition fat_example :: fat_table where
  "fat_example = fat_table_new Fat16 (replicate 20 0)"

lemma fat_example_ok: "fat_inv fat_example" "pointable fat_example" "card (free_clusters fat_example) = 8"
proof -
  show inv: "fat_inv fat_example" by (simp add: fat_example_def fat_table_new_inv)
  show "pointable fat_example"
    by (rule pointable_small) (simp add: fat_example_def fat_table_new_def Let_def first_reserved_def)
  have "ft_free fat_example = 8" by code_simp
  then show "card (free_clusters fat_example) = 8" using inv by (simp add: fat_inv_def)
qed

theorem fat_alloc_chain_correct_witness:
  "\<exists>first tbl' cs. fat_alloc_chain fat_example 3 = (Inr first, tbl') \<and> chain_collect tbl' (Some first) = Some cs \<and> length cs = 3"
  using fat_alloc_chain_correct [OF fat_example_ok(1,2), of 3] fat_example_ok(3) by auto

text \<open>
  Freeing undoes allocating. After a chain was allocated and freed again, every entry of the
  table and the cached number of free clusters are what they were.
\<close>

theorem fat_alloc_free_roundtrip:
  assumes "fat_inv tbl" "pointable tbl" "fat_alloc_chain tbl n = (Inr first, tbl')"
  shows "\<exists>tbl''. fat_free_chain tbl' first = Some (Inr (), tbl'') \<and> fat_map tbl'' = fat_map tbl \<and> ft_free tbl'' = ft_free tbl"
proof -
  have n: "0 < n" "n \<le> card (free_clusters tbl)"
    using assms(1,3) by (auto simp: fat_alloc_chain_def fat_inv_def split: if_splits)
  obtain cs where r: "distinct (first # cs)" "set (first # cs) \<subseteq> free_clusters tbl" "linked (fat_map tbl') (first # cs)"
    "\<forall>x. x \<notin> set (first # cs) \<longrightarrow> fat_map tbl' x = fat_map tbl x" "same_table tbl tbl'" "fat_inv tbl'"
    using fat_alloc_chain_result [OF assms(1,2) n] assms(3) by auto
  obtain tbl'' where f: "fat_free_links tbl' first = Some (Inr (), tbl'')" "fat_inv tbl''"
    "\<forall>x. fat_map tbl'' x = (if x \<in> set (first # cs) then Some Free else fat_map tbl' x)"
    using fat_free_links_linked [OF r(3,1,6)] by auto
  have "fat_map tbl'' = fat_map tbl" using f(3) r(2,4) by (auto simp: free_clusters_def fun_eq_iff)
  moreover from this have "ft_free tbl'' = ft_free tbl"
    using f(2) assms(1) by (simp add: fat_inv_def free_clusters_def word_unat_eq_iff)
  moreover have "\<exists>e. fat_map tbl' first = Some e" using r(3) by (cases cs) auto
  then have "cluster_is_valid first (ft_type tbl')" using fat_map_dom [of tbl' first] by simp
  ultimately show ?thesis using f(1) by (simp add: fat_free_chain_def)
qed

theorem fat_alloc_free_roundtrip_witness:
  "\<exists>first tbl' tbl''. fat_alloc_chain fat_example 3 = (Inr first, tbl') \<and>
     fat_free_chain tbl' first = Some (Inr (), tbl'') \<and> fat_map tbl'' = fat_map fat_example"
proof -
  obtain first tbl' where a: "fat_alloc_chain fat_example 3 = (Inr first, tbl')"
    using fat_alloc_chain_result [OF fat_example_ok(1,2), of 3] fat_example_ok(3) by auto
  with fat_alloc_free_roundtrip [OF fat_example_ok(1,2) a] show ?thesis by blast
qed

end
