(* ===== verification/Fat_File.thy ===== *)
theory Fat_File
  imports Fat_Table
begin

text \<open>
  Files of kernel/foundry/storage/src/fs/fat/file.rs: a chain of clusters with a cursor. The
  closures that read and write the bytes of a cluster are parameters. Positions and sizes are
  natural numbers; additions and subtractions wrap at the width of the field.
\<close>

record fat_file =
  ff_fat :: fat_table
  ff_first :: cluster
  ff_position :: nat
  ff_size :: nat
  ff_bpc :: nat
  ff_cluster :: cluster
  ff_offset :: nat

definition file_new :: "fat_table \<Rightarrow> cluster \<Rightarrow> nat \<Rightarrow> nat \<Rightarrow> fat_error + fat_file" where
  "file_new tbl first sz bpc =
     (if \<not> cluster_is_valid first (ft_type tbl) \<and> first \<noteq> 0 then Inl InvalidCluster
      else Inr \<lparr>ff_fat = tbl, ff_first = first, ff_position = 0, ff_size = sz, ff_bpc = bpc,
                ff_cluster = first, ff_offset = 0\<rparr>)"

text \<open>
  The loop of \<open>seek\<close>. \<open>None\<close> is a panic (a division by zero, a conversion that does not fit) or a
  loop that does not end.
\<close>

partial_function (option) seek_loop :: "fat_file \<Rightarrow> nat \<Rightarrow> ((fat_error + unit) \<times> fat_file) option" where
  "seek_loop f target =
     (if \<not> ff_position f < target then Some (Inr (), f)
      else let remaining = wrap_sub 64 (ff_bpc f) (ff_offset f)
           in if wrap_add 64 (ff_position f) remaining \<le> target
              then (case fat_get (ff_fat f) (ff_cluster f) of
                      Inl err \<Rightarrow> Some (Inl err, f)
                    | Inr entry \<Rightarrow>
                        (case entry of
                           Next next \<Rightarrow>
                             seek_loop (f\<lparr>ff_cluster := next, ff_offset := 0,
                                          ff_position := wrap_add 64 (ff_position f) remaining\<rparr>) target
                         | EndOfChain \<Rightarrow>
                             (if ff_bpc f = 0 then None
                              else Some (Inr (), f\<lparr>ff_offset := ff_size f mod ff_bpc f, ff_position := ff_size f\<rparr>))
                         | _ \<Rightarrow> Some (Inl InvalidCluster, f)))
              else let delta = target - ff_position f
                   in if delta < 2 ^ 32
                      then Some (Inr (), f\<lparr>ff_offset := wrap_add 32 (ff_offset f) delta,
                                           ff_position := wrap_add 64 (ff_position f) delta\<rparr>)
                      else None)"

definition file_seek :: "fat_file \<Rightarrow> nat \<Rightarrow> ((fat_error + nat) \<times> fat_file) option" where
  "file_seek f position =
     (let target = min position (ff_size f);
          f1 = (if target < ff_position f
                then f\<lparr>ff_cluster := ff_first f, ff_offset := 0, ff_position := 0\<rparr> else f)
      in case seek_loop f1 target of
           None \<Rightarrow> None
         | Some (Inl err, f2) \<Rightarrow> Some (Inl err, f2)
         | Some (Inr _, f2) \<Rightarrow> Some (Inr (ff_position f2), f2))"

text \<open>
  The closure \<open>read_data\<close> fills a slice: \<open>rd c off n\<close> are the \<open>n\<close> bytes at \<open>off\<close> of cluster \<open>c\<close>. The
  bytes read so far are collected in \<open>acc\<close>.
\<close>

partial_function (option) read_loop ::
  "(cluster \<Rightarrow> nat \<Rightarrow> nat \<Rightarrow> fat_error + u8 list) \<Rightarrow> nat \<Rightarrow> fat_file \<Rightarrow> u8 list
     \<Rightarrow> ((fat_error + u8 list) \<times> fat_file) option" where
  "read_loop rd bytes_to_read f acc =
     (if \<not> length acc < bytes_to_read then Some (Inr acc, f)
      else let cluster_remaining = wrap_sub 32 (ff_bpc f) (ff_offset f);
               chunk_size = min (bytes_to_read - length acc) cluster_remaining
           in case rd (ff_cluster f) (ff_offset f) chunk_size of
                Inl err \<Rightarrow> Some (Inl err, f)
              | Inr bs \<Rightarrow>
                  (let acc' = acc @ bs;
                       f1 = f\<lparr>ff_position := wrap_add 64 (ff_position f) chunk_size,
                              ff_offset := wrap_add 32 (ff_offset f) chunk_size\<rparr>
                   in if ff_offset f1 \<ge> ff_bpc f1 \<and> length acc' < bytes_to_read
                      then (case fat_get (ff_fat f1) (ff_cluster f1) of
                              Inl err \<Rightarrow> Some (Inl err, f1)
                            | Inr entry \<Rightarrow>
                                (case entry of
                                   Next next \<Rightarrow>
                                     read_loop rd bytes_to_read (f1\<lparr>ff_cluster := next, ff_offset := 0\<rparr>) acc'
                                 | EndOfChain \<Rightarrow> Some (Inr acc', f1)
                                 | _ \<Rightarrow> Some (Inl InvalidCluster, f1)))
                      else read_loop rd bytes_to_read f1 acc'))"

definition file_read ::
  "(cluster \<Rightarrow> nat \<Rightarrow> nat \<Rightarrow> fat_error + u8 list) \<Rightarrow> fat_file \<Rightarrow> nat \<Rightarrow> ((fat_error + u8 list) \<times> fat_file) option" where
  "file_read rd f buffer_len =
     (if ff_position f \<ge> ff_size f then Some (Inr [], f)
      else read_loop rd (min buffer_len (ff_size f - ff_position f)) f [])"

text \<open>
  The closure \<open>write_data\<close> writes to a device of type \<open>'d\<close>. The result of the loop has the number of
  bytes written, the file and the device.
\<close>

type_synonym 'd writer = "'d \<Rightarrow> cluster \<Rightarrow> nat \<Rightarrow> u8 list \<Rightarrow> (fat_error + unit) \<times> 'd"

partial_function (option) write_loop ::
  "'d writer \<Rightarrow> u8 list \<Rightarrow> nat \<Rightarrow> fat_file \<Rightarrow> 'd \<Rightarrow> ((fat_error + nat) \<times> fat_file \<times> 'd) option" where
  "write_loop wr buffer bytes_written f dev =
     (if \<not> bytes_written < length buffer then Some (Inr bytes_written, f, dev)
      else let cluster_remaining = wrap_sub 32 (ff_bpc f) (ff_offset f);
               chunk_size = min (length buffer - bytes_written) cluster_remaining
           in case wr dev (ff_cluster f) (ff_offset f) (take chunk_size (drop bytes_written buffer)) of
                (Inl err, dev1) \<Rightarrow> Some (Inl err, f, dev1)
              | (Inr _, dev1) \<Rightarrow>
                  (let written = bytes_written + chunk_size;
                       pos = wrap_add 64 (ff_position f) chunk_size;
                       f1 = f\<lparr>ff_position := pos,
                              ff_offset := wrap_add 32 (ff_offset f) chunk_size,
                              ff_size := (if pos > ff_size f then pos else ff_size f)\<rparr>
                   in if ff_offset f1 \<ge> ff_bpc f1 \<and> written < length buffer
                      then (case fat_get (ff_fat f1) (ff_cluster f1) of
                              Inl err \<Rightarrow> Some (Inl err, f1, dev1)
                            | Inr entry \<Rightarrow>
                                (case entry of
                                   Next next \<Rightarrow>
                                     write_loop wr buffer written (f1\<lparr>ff_cluster := next, ff_offset := 0\<rparr>) dev1
                                 | EndOfChain \<Rightarrow>
                                     (case fat_alloc_cluster (ff_fat f1) of
                                        (Inl err, tbl1) \<Rightarrow> Some (Inl err, f1\<lparr>ff_fat := tbl1\<rparr>, dev1)
                                      | (Inr new_cluster, tbl1) \<Rightarrow>
                                          (case fat_set tbl1 (ff_cluster f1) (Next new_cluster) of
                                             (Inl err, tbl2) \<Rightarrow> Some (Inl err, f1\<lparr>ff_fat := tbl2\<rparr>, dev1)
                                           | (Inr _, tbl2) \<Rightarrow>
                                               write_loop wr buffer written
                                                 (f1\<lparr>ff_fat := tbl2, ff_cluster := new_cluster, ff_offset := 0\<rparr>) dev1))
                                 | _ \<Rightarrow> Some (Inl InvalidCluster, f1, dev1)))
                      else write_loop wr buffer written f1 dev1))"

definition file_write ::
  "'d writer \<Rightarrow> fat_file \<Rightarrow> u8 list \<Rightarrow> 'd \<Rightarrow> ((fat_error + nat) \<times> fat_file \<times> 'd) option" where
  "file_write wr f buffer dev =
     (if buffer = [] then Some (Inr 0, f, dev)
      else if ff_first f = 0
      then (case fat_alloc_cluster (ff_fat f) of
              (Inl err, tbl1) \<Rightarrow> Some (Inl err, f\<lparr>ff_fat := tbl1\<rparr>, dev)
            | (Inr c, tbl1) \<Rightarrow> write_loop wr buffer 0 (f\<lparr>ff_fat := tbl1, ff_first := c, ff_cluster := c\<rparr>) dev)
      else write_loop wr buffer 0 f dev)"

definition file_truncate :: "fat_file \<Rightarrow> nat \<Rightarrow> ((fat_error + unit) \<times> fat_file) option" where
  "file_truncate f new_size =
     (if new_size \<ge> ff_size f then Some (Inr (), f)
      else if new_size = 0
      then (if ff_first f \<noteq> 0
            then (case fat_free_chain (ff_fat f) (ff_first f) of
                    None \<Rightarrow> None
                  | Some (Inl err, tbl1) \<Rightarrow> Some (Inl err, f\<lparr>ff_fat := tbl1\<rparr>)
                  | Some (Inr _, tbl1) \<Rightarrow>
                      Some (Inr (), f\<lparr>ff_fat := tbl1, ff_first := 0, ff_cluster := 0, ff_offset := 0,
                                      ff_size := 0, ff_position := 0\<rparr>))
            else Some (Inr (), f\<lparr>ff_size := 0, ff_position := 0\<rparr>))
      else case file_seek f new_size of
             None \<Rightarrow> None
           | Some (Inl err, f1) \<Rightarrow> Some (Inl err, f1)
           | Some (Inr _, f1) \<Rightarrow>
               (case fat_get (ff_fat f1) (ff_cluster f1) of
                  Inl err \<Rightarrow> Some (Inl err, f1)
                | Inr (Next next) \<Rightarrow>
                    (case fat_set (ff_fat f1) (ff_cluster f1) EndOfChain of
                       (Inl err, tbl1) \<Rightarrow> Some (Inl err, f1\<lparr>ff_fat := tbl1\<rparr>)
                     | (Inr _, tbl1) \<Rightarrow>
                         (case fat_free_chain tbl1 next of
                            None \<Rightarrow> None
                          | Some (Inl err, tbl2) \<Rightarrow> Some (Inl err, f1\<lparr>ff_fat := tbl2\<rparr>)
                          | Some (Inr _, tbl2) \<Rightarrow>
                              Some (Inr (), f1\<lparr>ff_fat := tbl2, ff_size := new_size,
                                               ff_position := min (ff_position f1) new_size\<rparr>)))
                | Inr _ \<Rightarrow>
                    Some (Inr (), f1\<lparr>ff_size := new_size, ff_position := min (ff_position f1) new_size\<rparr>)))"

declare seek_loop.simps [code] read_loop.simps [code] write_loop.simps [code]

section \<open>The bytes of a file\<close>

definition content :: "(cluster \<Rightarrow> u8 list) \<Rightarrow> cluster list \<Rightarrow> u8 list" where
  "content blk cs = concat (map blk cs)"

text \<open>The cursor stands in the \<open>k\<close>-th cluster of the chain, at most at its end.\<close>

definition cursor :: "fat_file \<Rightarrow> cluster list \<Rightarrow> bool" where
  "cursor f cs \<longleftrightarrow> (\<exists>k < length cs. ff_cluster f = cs ! k \<and> ff_offset f \<le> ff_bpc f \<and>
     ff_position f = k * ff_bpc f + ff_offset f)"

definition file_ok :: "fat_file \<Rightarrow> cluster list \<Rightarrow> bool" where
  "file_ok f cs \<longleftrightarrow> linked (fat_map (ff_fat f)) cs \<and> distinct cs \<and> ff_first f = hd cs \<and>
     0 < ff_bpc f \<and> ff_bpc f < 2 ^ 32 \<and> ff_size f \<le> length cs * ff_bpc f \<and>
     length cs * ff_bpc f < 2 ^ 63 \<and> cursor f cs"

lemma linked_nth:
  "linked m cs \<Longrightarrow> k < length cs \<Longrightarrow> m (cs ! k) = Some (if Suc k = length cs then EndOfChain else Next (cs ! Suc k))"
proof (induction m cs arbitrary: k rule: linked.induct)
  case (3 m c d cs)
  then show ?case by (cases k) auto
qed auto

lemma content_simps [simp]: "content blk [] = []" "content blk (c # cs) = blk c @ content blk cs"
  by (simp_all add: content_def)

lemma length_content: "(\<And>c. length (blk c) = n) \<Longrightarrow> length (content blk cs) = length cs * n"
  by (induction cs) simp_all

lemma content_nth:
  assumes "\<And>c. length (blk c) = n" "k < length cs" "i < n"
  shows "content blk cs ! (k * n + i) = blk (cs ! k) ! i"
  using assms
proof (induction cs arbitrary: k)
  case (Cons c cs)
  then show ?case by (cases k) (simp_all add: nth_append)
qed simp

lemma content_slice:
  assumes len: "\<And>c. length (blk c) = n" and k: "k < length cs" and m: "off + m \<le> n"
  shows "take m (drop off (blk (cs ! k))) = take m (drop (k * n + off) (content blk cs))"
proof (rule nth_equalityI)
  have "(k + 1) * n \<le> length cs * n" using k by (intro mult_le_mono1) simp
  then show "length (take m (drop off (blk (cs ! k)))) = length (take m (drop (k * n + off) (content blk cs)))"
    using m len by (simp add: length_content [OF len])
  fix i assume "i < length (take m (drop off (blk (cs ! k))))"
  then show "take m (drop off (blk (cs ! k))) ! i = take m (drop (k * n + off) (content blk cs)) ! i"
    using content_nth [OF len k, of "off + i"] m len \<open>(k + 1) * n \<le> length cs * n\<close>
    by (simp add: length_content [OF len] add.assoc)
qed

text \<open>Moving along the chain at the end of a cluster.\<close>

lemma file_next:
  assumes l: "linked (fat_map (ff_fat f)) cs" and k: "k < length cs" "ff_cluster f = cs ! k"
  shows "fat_get (ff_fat f) (ff_cluster f) = Inr (if Suc k = length cs then EndOfChain else Next (cs ! Suc k))"
  using linked_nth [OF l k(1)] k(2) by (simp add: fat_get_map)

section \<open>Reading\<close>

text \<open>What the closure given to \<open>read\<close> must do: give the bytes of the cluster.\<close>

definition reads :: "(cluster \<Rightarrow> nat \<Rightarrow> nat \<Rightarrow> fat_error + u8 list) \<Rightarrow> (cluster \<Rightarrow> u8 list) \<Rightarrow> nat \<Rightarrow> bool" where
  "reads rd blk n \<longleftrightarrow> (\<forall>c off m. off + m \<le> n \<longrightarrow> rd c off m = Inr (take m (drop off (blk c)))) \<and> (\<forall>c. length (blk c) = n)"

lemma read_loop_correct:
  assumes "file_ok f cs" "reads rd blk (ff_bpc f)" "length acc \<le> n" "ff_position f + (n - length acc) \<le> length cs * ff_bpc f"
  shows "\<exists>f'. read_loop rd n f acc = Some (Inr (acc @ take (n - length acc) (drop (ff_position f) (content blk cs))), f')
    \<and> file_ok f' cs \<and> ff_position f' = ff_position f + (n - length acc) \<and> ff_size f' = ff_size f \<and> ff_fat f' = ff_fat f"
  using assms
proof (induction "2 * (n - length acc) + (if ff_offset f = ff_bpc f then 1 else 0)" arbitrary: f acc rule: less_induct)
  case less
  have rd: "off + m \<le> ff_bpc f \<Longrightarrow> rd c off m = Inr (take m (drop off (blk c)))" and len: "length (blk c) = ff_bpc f" for c off m
    using less.prems(2) by (auto simp: reads_def)
  obtain k where k: "k < length cs" "ff_cluster f = cs ! k" "ff_offset f \<le> ff_bpc f" "ff_position f = k * ff_bpc f + ff_offset f"
    using less.prems(1) by (auto simp: file_ok_def cursor_def)
  have b: "0 < ff_bpc f" "ff_bpc f < 2 ^ 32" "length cs * ff_bpc f < 2 ^ 63" "linked (fat_map (ff_fat f)) cs"
    using less.prems(1) by (auto simp: file_ok_def)
  show ?case
  proof (cases "length acc < n")
    case False
    then show ?thesis using less.prems(1,3) by (subst read_loop.simps) simp
  next
    case True
    define m where "m = min (n - length acc) (ff_bpc f - ff_offset f)"
    define f1 where "f1 = f\<lparr>ff_position := ff_position f + m, ff_offset := ff_offset f + m\<rparr>"
    define bs where "bs = take m (drop (ff_offset f) (blk (ff_cluster f)))"
    have m: "ff_offset f + m \<le> ff_bpc f" "m \<le> n - length acc" using k(3) by (auto simp: m_def)
    have lbs: "length bs = m" using m len by (simp add: bs_def)
    have bs: "bs = take m (drop (ff_position f) (content blk cs))"
      using content_slice [of blk "ff_bpc f" k cs "ff_offset f" m] len k m(1) by (simp add: bs_def)
    have w: "wrap_sub 32 (ff_bpc f) (ff_offset f) = ff_bpc f - ff_offset f" "wrap_add 32 (ff_offset f) m = ff_offset f + m"
      "wrap_add 64 (ff_position f) m = ff_position f + m"
      using k(3) b m less.prems(4) by (simp_all add: wrap_sub_eq wrap_add_eq)
    have rdb: "rd (ff_cluster f) (ff_offset f) m = Inr bs" using rd [OF m(1)] by (simp add: bs_def)
    have f1: "ff_bpc f1 = ff_bpc f" "ff_fat f1 = ff_fat f" "ff_cluster f1 = ff_cluster f" by (simp_all add: f1_def)
    have step: "read_loop rd n f acc =
      (if ff_offset f1 \<ge> ff_bpc f1 \<and> length (acc @ bs) < n
       then (case fat_get (ff_fat f1) (ff_cluster f1) of Inl err \<Rightarrow> Some (Inl err, f1) | Inr entry \<Rightarrow>
         (case entry of Next next \<Rightarrow> read_loop rd n (f1\<lparr>ff_cluster := next, ff_offset := 0\<rparr>) (acc @ bs)
          | EndOfChain \<Rightarrow> Some (Inr (acc @ bs), f1) | _ \<Rightarrow> Some (Inl InvalidCluster, f1)))
       else read_loop rd n f1 (acc @ bs))"
      by (subst read_loop.simps)
        (simp only: Let_def w m_def [symmetric] rdb sum.case f1_def [symmetric] True not_True_eq_False if_False)
    have c1: "cursor f1 cs" using k m(1) by (auto simp: cursor_def f1_def)
    have "n - length acc = m + (n - length (acc @ bs))" using m(2) lbs by simp
    then have split: "take (n - length acc) (drop (ff_position f) (content blk cs)) =
      bs @ take (n - length (acc @ bs)) (drop (ff_position f + m) (content blk cs))"
      by (simp only: take_add drop_drop bs add.commute)
    show ?thesis
    proof (cases "ff_offset f1 \<ge> ff_bpc f1 \<and> length (acc @ bs) < n")
      case move: True
      then have off: "ff_offset f + m = ff_bpc f" using m(1) by (simp add: f1_def)
      then have pos: "ff_position f + m = (k + 1) * ff_bpc f" using k(4) by simp
      have "m < n - length acc" using move lbs by auto
      then have more: "(k + 1) * ff_bpc f < length cs * ff_bpc f" unfolding pos [symmetric] using less.prems(4) by linarith
      then have k1: "k + 1 < length cs" by (rule mult_less_cancel2 [THEN iffD1, THEN conjunct2])
      define f2 where "f2 = f1\<lparr>ff_cluster := cs ! (k + 1), ff_offset := 0\<rparr>"
      have s2: "read_loop rd n f acc = read_loop rd n f2 (acc @ bs)"
        using step move file_next [OF b(4) k(1,2)] k1 by (simp add: f2_def f1)
      have p2: "ff_position f2 = ff_position f + m" "ff_bpc f2 = ff_bpc f" "ff_size f2 = ff_size f" "ff_fat f2 = ff_fat f"
        by (simp_all add: f2_def f1_def)
      have ok2: "file_ok f2 cs" using less.prems(1) k1 pos
        by (auto simp: file_ok_def cursor_def f2_def f1_def)
      have dec: "2 * (n - length (acc @ bs)) + (if ff_offset f2 = ff_bpc f2 then 1 else 0)
          < 2 * (n - length acc) + (if ff_offset f = ff_bpc f then 1 else 0)"
        using b(1) move lbs off by (cases "m = 0") (auto simp: f2_def f1_def)
      show ?thesis
        using less.hyps [OF dec ok2] less.prems(2,4) move lbs p2 s2 split m(2) by auto
    next
      case stay: False
      have ok1: "file_ok f1 cs" using less.prems(1) c1 by (auto simp: file_ok_def f1_def)
      have "m = n - length acc"
      proof (rule ccontr)
        assume "m \<noteq> n - length acc"
        then have "m < n - length acc" "ff_offset f + m = ff_bpc f" using k(3) by (auto simp: m_def)
        then show False using stay lbs by (simp add: f1_def)
      qed
      then have "length (acc @ bs) = n" using lbs True by simp
      then have "read_loop rd n f1 (acc @ bs) = Some (Inr (acc @ bs), f1)" by (subst read_loop.simps) simp
      then show ?thesis using step stay ok1 split \<open>length (acc @ bs) = n\<close> \<open>m = n - length acc\<close> by (simp add: f1_def)
    qed
  qed
qed

lemma file_read_correct:
  assumes "file_ok f cs" "reads rd blk (ff_bpc f)"
  shows "\<exists>f'. file_read rd f n = Some (Inr (take n (drop (ff_position f) (take (ff_size f) (content blk cs)))), f')
    \<and> file_ok f' cs \<and> ff_position f' = ff_position f + min n (ff_size f - ff_position f) \<and> ff_size f' = ff_size f"
proof (cases "ff_position f \<ge> ff_size f")
  case True
  then show ?thesis using assms(1) by (simp add: file_read_def)
next
  case False
  let ?n = "min n (ff_size f - ff_position f)"
  have "ff_size f \<le> length cs * ff_bpc f" using assms(1) by (simp add: file_ok_def)
  then have "ff_position f + (?n - length ([] :: u8 list)) \<le> length cs * ff_bpc f" using False by (auto simp: min_def)
  from read_loop_correct [OF assms _ this] obtain f' where
    "read_loop rd ?n f [] = Some (Inr (take ?n (drop (ff_position f) (content blk cs))), f')"
    "file_ok f' cs" "ff_position f' = ff_position f + ?n" "ff_size f' = ff_size f" by auto
  moreover have "take n (drop (ff_position f) (take (ff_size f) (content blk cs))) = take ?n (drop (ff_position f) (content blk cs))"
    by (simp add: drop_take)
  ultimately show ?thesis using False by (simp add: file_read_def)
qed

section \<open>Seeking\<close>

definition same_file :: "fat_file \<Rightarrow> fat_file \<Rightarrow> bool" where
  "same_file f f' \<longleftrightarrow> ff_fat f' = ff_fat f \<and> ff_first f' = ff_first f \<and> ff_size f' = ff_size f \<and> ff_bpc f' = ff_bpc f"

lemma seek_loop_correct:
  assumes "file_ok f cs" "ff_position f \<le> target" "target < length cs * ff_bpc f"
    and "k < length cs" "ff_cluster f = cs ! k" "ff_offset f \<le> ff_bpc f" "ff_position f = k * ff_bpc f + ff_offset f"
  shows "\<exists>f'. seek_loop f target = Some (Inr (), f') \<and> file_ok f' cs \<and> ff_position f' = target \<and> same_file f f'"
  using assms
proof (induction "length cs - k" arbitrary: f k)
  case 0
  then show ?case by simp
next
  case (Suc j)
  have b: "0 < ff_bpc f" "ff_bpc f < 2 ^ 32" "length cs * ff_bpc f < 2 ^ 63" "linked (fat_map (ff_fat f)) cs"
    using Suc.prems(1) by (auto simp: file_ok_def)
  have kb: "(k + 1) * ff_bpc f \<le> length cs * ff_bpc f" using Suc.prems(4) by (intro mult_le_mono1) simp
  then have w: "wrap_sub 64 (ff_bpc f) (ff_offset f) = ff_bpc f - ff_offset f"
    "wrap_add 64 (ff_position f) (ff_bpc f - ff_offset f) = (k + 1) * ff_bpc f"
    using b Suc.prems(6,7) by (simp_all add: wrap_sub_eq wrap_add_def)
  show ?case
  proof (cases "ff_position f < target")
    case False
    then show ?thesis using Suc.prems(1,2) by (subst seek_loop.simps) (simp add: same_file_def)
  next
    case True
    show ?thesis
    proof (cases "(k + 1) * ff_bpc f \<le> target")
      case skip: True
      then have "(k + 1) * ff_bpc f < length cs * ff_bpc f" using Suc.prems(3) by linarith
      then have k1: "k + 1 < length cs" by (rule mult_less_cancel2 [THEN iffD1, THEN conjunct2])
      define f1 where "f1 = f\<lparr>ff_cluster := cs ! (k + 1), ff_offset := 0, ff_position := (k + 1) * ff_bpc f\<rparr>"
      have step: "seek_loop f target = seek_loop f1 target"
        using True skip w file_next [OF b(4) Suc.prems(4,5)] k1 by (subst seek_loop.simps) (simp add: Let_def f1_def)
      have "file_ok f1 cs" using Suc.prems(1) k1 by (auto simp: file_ok_def cursor_def f1_def)
      moreover have "j = length cs - (k + 1)" "ff_position f1 \<le> target" "target < length cs * ff_bpc f1" "ff_cluster f1 = cs ! (k + 1)"
        "ff_offset f1 \<le> ff_bpc f1" "ff_position f1 = (k + 1) * ff_bpc f1 + ff_offset f1"
        using Suc.hyps(2) skip Suc.prems(3) by (simp_all add: f1_def)
      ultimately obtain f' where "seek_loop f1 target = Some (Inr (), f')" "file_ok f' cs" "ff_position f' = target" "same_file f1 f'"
        using Suc.hyps(1) [of "k + 1" f1] k1 by blast
      then show ?thesis using step by (auto simp: same_file_def f1_def)
    next
      case inside: False
      define d where "d = target - ff_position f"
      have d: "ff_offset f + d < ff_bpc f" "ff_position f + d = target" using inside True Suc.prems(6,7) by (auto simp: d_def)
      define f1 where "f1 = f\<lparr>ff_offset := ff_offset f + d, ff_position := target\<rparr>"
      have "wrap_add 32 (ff_offset f) d = ff_offset f + d" "wrap_add 64 (ff_position f) d = target"
        using d b kb Suc.prems(3) by (simp_all add: wrap_add_eq)
      moreover have "d < 2 ^ 32" using d(1) b(2) by simp
      ultimately have "seek_loop f target = Some (Inr (), f1)"
        using True inside w by (subst seek_loop.simps) (simp add: Let_def f1_def d_def)
      moreover have "file_ok f1 cs" using Suc.prems d by (auto simp: file_ok_def cursor_def f1_def)
      ultimately show ?thesis by (auto simp: same_file_def f1_def)
    qed
  qed
qed

lemma file_seek_correct:
  assumes ok: "file_ok f cs" and p: "min p (ff_size f) < length cs * ff_bpc f"
  shows "\<exists>f'. file_seek f p = Some (Inr (min p (ff_size f)), f') \<and> file_ok f' cs \<and> ff_position f' = min p (ff_size f) \<and> same_file f f'"
proof -
  let ?t = "min p (ff_size f)"
  define f1 where "f1 = (if ?t < ff_position f then f\<lparr>ff_cluster := ff_first f, ff_offset := 0, ff_position := 0\<rparr> else f)"
  have ne: "cs \<noteq> []" using ok by (auto simp: file_ok_def)
  then have "\<exists>k < length cs. ff_cluster f1 = cs ! k \<and> ff_offset f1 \<le> ff_bpc f1 \<and> ff_position f1 = k * ff_bpc f1 + ff_offset f1"
    using ok by (cases cs) (auto simp: f1_def file_ok_def cursor_def intro: exI [of _ 0])
  then obtain k where k: "k < length cs" "ff_cluster f1 = cs ! k" "ff_offset f1 \<le> ff_bpc f1" "ff_position f1 = k * ff_bpc f1 + ff_offset f1"
    by blast
  have s: "same_file f f1" "ff_position f1 \<le> ?t" by (auto simp: same_file_def f1_def)
  have ok1: "file_ok f1 cs" using ok k s(1) by (auto simp: file_ok_def same_file_def cursor_def)
  obtain f' where "seek_loop f1 ?t = Some (Inr (), f')" "file_ok f' cs" "ff_position f' = ?t" "same_file f1 f'"
    using seek_loop_correct [OF ok1 s(2) _ k] p s(1) by (auto simp: same_file_def)
  then show ?thesis using s(1) by (auto simp: file_seek_def f1_def [symmetric] Let_def same_file_def)
qed

section \<open>Writing\<close>

lemma content_cong: "(\<And>c. c \<in> set cs \<Longrightarrow> blk' c = blk c) \<Longrightarrow> content blk' cs = content blk cs"
  by (simp add: content_def cong: map_cong)

lemma content_upd:
  assumes "distinct cs" "\<And>c. length (blk c) = n" "k < length cs" "off + length bs \<le> n"
  shows "content (blk(cs ! k := overwrite (blk (cs ! k)) off bs)) cs = overwrite (content blk cs) (k * n + off) bs"
  using assms
proof (induction cs arbitrary: k)
  case (Cons c cs)
  show ?case
  proof (cases k)
    case 0
    have "content (blk(c := overwrite (blk c) off bs)) cs = content blk cs"
      using Cons.prems(1) by (intro content_cong) auto
    then show ?thesis using 0 Cons.prems(2,4) by (simp add: overwrite_append1 del: fun_upd_apply) (simp add: overwrite_append1)
  next
    case (Suc j)
    then have j: "j < length cs" "cs ! j \<noteq> c" using Cons.prems(1,3) by auto
    then have "content (blk(cs ! j := overwrite (blk (cs ! j)) off bs)) (c # cs) = blk c @ overwrite (content blk cs) (j * n + off) bs"
      using Cons.IH [OF _ Cons.prems(2) j(1) Cons.prems(4)] Cons.prems(1) by (simp del: fun_upd_apply) simp
    also have "\<dots> = overwrite (blk c @ content blk cs) (length (blk c) + (j * n + off)) bs" by (simp add: overwrite_append2)
    finally show ?thesis using Suc Cons.prems(2) [of c] by (simp add: add.assoc del: fun_upd_apply)
  qed
qed simp

text \<open>What the closure given to \<open>write\<close> must do: replace the bytes at that place of the cluster.\<close>

definition writes :: "'d writer \<Rightarrow> ('d \<Rightarrow> cluster \<Rightarrow> u8 list) \<Rightarrow> nat \<Rightarrow> bool" where
  "writes wr blk n \<longleftrightarrow> (\<forall>dev c. length (blk dev c) = n) \<and>
     (\<forall>dev c off bs. off + length bs \<le> n \<longrightarrow>
        (\<exists>dev'. wr dev c off bs = (Inr (), dev') \<and> blk dev' = (blk dev)(c := overwrite (blk dev c) off bs)))"

lemma linked_snoc:
  "linked m cs \<Longrightarrow> distinct cs \<Longrightarrow> c \<notin> set cs \<Longrightarrow> linked (m(c \<mapsto> EndOfChain, last cs \<mapsto> Next c)) (cs @ [c])"
proof (induction m cs rule: linked.induct)
  case (3 m a b cs)
  then have "last (b # cs) \<noteq> a" by (metis distinct.simps(2) last_in_set list.discI)
  then show ?case using 3 by (auto split: if_splits)
qed auto

text \<open>Taking a fresh cluster at the end of the chain.\<close>

lemma extend_chain:
  assumes l: "linked (fat_map tbl) cs" "distinct cs" and inv: "fat_inv tbl" "pointable tbl" and free: "free_clusters tbl \<noteq> {}"
  shows "\<exists>c tbl1 tbl2. fat_alloc_cluster tbl = (Inr c, tbl1) \<and> fat_set tbl1 (last cs) (Next c) = (Inr (), tbl2) \<and>
    linked (fat_map tbl2) (cs @ [c]) \<and> distinct (cs @ [c]) \<and> fat_inv tbl2 \<and> pointable tbl2 \<and>
    c \<in> free_clusters tbl \<and> free_clusters tbl2 = free_clusters tbl - {c}"
proof -
  have ne: "cs \<noteq> []" using l by auto
  obtain c tbl1 where a: "fat_alloc_cluster tbl = (Inr c, tbl1)" "c \<in> free_clusters tbl"
    "fat_map tbl1 = (fat_map tbl)(c \<mapsto> EndOfChain)" "same_table tbl tbl1" "fat_inv tbl1"
    using fat_alloc_cluster_result [OF inv(1)] free by auto
  have cs: "fat_map tbl x \<noteq> Some Free \<and> fat_map tbl x \<noteq> None" if "x \<in> set cs" for x
    using that linked_nth [OF l(1)] by (auto simp: in_set_conv_nth split: if_splits)
  have c: "c \<notin> set cs" using cs a(2) by (auto simp: free_clusters_def)
  have lm: "fat_map tbl (last cs) = Some EndOfChain"
    using linked_nth [OF l(1), of "length cs - 1"] ne by (simp add: last_conv_nth)
  have lc: "last cs \<noteq> c" using c ne last_in_set by metis
  have p1: "pointable tbl1" using a(4) inv(2) pointable_same by blast
  then have "fat_canon (ft_type tbl1) (Next c) = Next c" using pointable_Next a(3) by simp
  then obtain tbl2 where b: "fat_set tbl1 (last cs) (Next c) = (Inr (), tbl2)"
    "fat_map tbl2 = (fat_map tbl1)(last cs \<mapsto> Next c)" "same_table tbl1 tbl2" "fat_inv tbl2"
    using fat_set_map [of tbl1 "last cs" EndOfChain "Next c"] a(3,5) lm lc by auto
  have "linked (fat_map tbl2) (cs @ [c])" using linked_snoc [OF l c] b(2) a(3) by simp
  moreover have "free_clusters tbl2 = free_clusters tbl - {c}" using a(3) b(2) lm by (auto simp: free_clusters_def)
  moreover have "pointable tbl2" using p1 b(3) pointable_same by blast
  ultimately show ?thesis using a(1,2) b(1,4) l(2) c by auto
qed

definition write_ready :: "'d writer \<Rightarrow> ('d \<Rightarrow> cluster \<Rightarrow> u8 list) \<Rightarrow> fat_file \<Rightarrow> cluster list \<Rightarrow> nat \<Rightarrow> bool" where
  "write_ready wr blk f cs n \<longleftrightarrow> file_ok f cs \<and> writes wr blk (ff_bpc f) \<and> fat_inv (ff_fat f) \<and> pointable (ff_fat f) \<and>
     ff_position f + n \<le> (length cs + card (free_clusters (ff_fat f))) * ff_bpc f \<and>
     (length cs + card (free_clusters (ff_fat f))) * ff_bpc f < 2 ^ 63"

definition write_measure :: "u8 list \<Rightarrow> nat \<Rightarrow> fat_file \<Rightarrow> nat" where
  "write_measure buf j f = 2 * (length buf - j) + (if ff_offset f = ff_bpc f then 1 else 0)"

text \<open>One round of the loop, which may have added one cluster \<open>cs1\<close> to the chain.\<close>

lemma write_step:
  assumes ready: "write_ready wr blk f cs (length buf - j)" and j: "j < length buf"
  shows "\<exists>m f2 dev1 cs1. write_loop wr buf j f dev = write_loop wr buf (j + m) f2 dev1 \<and> j + m \<le> length buf \<and>
    write_ready wr blk f2 (cs @ cs1) (length buf - (j + m)) \<and> set cs1 \<subseteq> free_clusters (ff_fat f) \<and>
    (\<forall>es. distinct (cs @ es) \<longrightarrow> content (blk dev1) (cs @ es) = overwrite (content (blk dev) (cs @ es)) (ff_position f) (take m (drop j buf))) \<and>
    (\<forall>c. c \<notin> set cs \<longrightarrow> blk dev1 c = blk dev c) \<and> free_clusters (ff_fat f2) \<subseteq> free_clusters (ff_fat f) \<and>
    ff_position f2 = ff_position f + m \<and> ff_size f2 = max (ff_size f) (ff_position f2) \<and> ff_bpc f2 = ff_bpc f \<and>
    write_measure buf (j + m) f2 < write_measure buf j f"
proof -
  have ok: "file_ok f cs" and wr: "writes wr blk (ff_bpc f)" and inv: "fat_inv (ff_fat f)" "pointable (ff_fat f)"
    and room: "ff_position f + (length buf - j) \<le> (length cs + card (free_clusters (ff_fat f))) * ff_bpc f"
      "(length cs + card (free_clusters (ff_fat f))) * ff_bpc f < 2 ^ 63"
    using ready by (simp_all add: write_ready_def)
  obtain k where k: "k < length cs" "ff_cluster f = cs ! k" "ff_offset f \<le> ff_bpc f" "ff_position f = k * ff_bpc f + ff_offset f"
    using ok by (auto simp: file_ok_def cursor_def)
  have b: "0 < ff_bpc f" "ff_bpc f < 2 ^ 32" "length cs * ff_bpc f < 2 ^ 63" "linked (fat_map (ff_fat f)) cs" "distinct cs"
    using ok by (auto simp: file_ok_def)
  define m where "m = min (length buf - j) (ff_bpc f - ff_offset f)"
  define bs where "bs = take m (drop j buf)"
  define pos where "pos = ff_position f + m"
  define f1 where "f1 = f\<lparr>ff_position := pos, ff_offset := ff_offset f + m, ff_size := (if pos > ff_size f then pos else ff_size f)\<rparr>"
  have m: "ff_offset f + m \<le> ff_bpc f" "j + m \<le> length buf" using k(3) j by (auto simp: m_def)
  have lbs: "length bs = m" using m(2) by (simp add: bs_def)
  obtain dev1 where d1: "wr dev (ff_cluster f) (ff_offset f) bs = (Inr (), dev1)"
    "blk dev1 = (blk dev)(ff_cluster f := overwrite (blk dev (ff_cluster f)) (ff_offset f) bs)"
    using wr m(1) lbs unfolding writes_def by metis
  have kb: "(k + 1) * ff_bpc f \<le> length cs * ff_bpc f" using k(1) by (intro mult_le_mono1) simp
  then have posb: "pos \<le> length cs * ff_bpc f" using k(4) m(1) by (simp add: pos_def)
  have w: "wrap_sub 32 (ff_bpc f) (ff_offset f) = ff_bpc f - ff_offset f" "wrap_add 32 (ff_offset f) m = ff_offset f + m"
    "wrap_add 64 (ff_position f) m = pos"
    using k(3) b m posb by (simp_all add: wrap_sub_eq wrap_add_eq pos_def)
  have f1: "ff_bpc f1 = ff_bpc f" "ff_fat f1 = ff_fat f" "ff_cluster f1 = ff_cluster f" "ff_position f1 = pos"
    "ff_size f1 = max (ff_size f) pos" "ff_offset f1 = ff_offset f + m" "ff_first f1 = ff_first f" by (simp_all add: f1_def max_def)
  have written: "\<forall>es. distinct (cs @ es) \<longrightarrow> content (blk dev1) (cs @ es) = overwrite (content (blk dev) (cs @ es)) (ff_position f) (take m (drop j buf))"
  proof (intro allI impI)
    fix es assume "distinct (cs @ es)"
    then show "content (blk dev1) (cs @ es) = overwrite (content (blk dev) (cs @ es)) (ff_position f) (take m (drop j buf))"
      using content_upd [of "cs @ es" "blk dev" "ff_bpc f" k "ff_offset f" bs] wr k m(1) lbs d1(2)
      by (simp add: writes_def nth_append bs_def)
  qed
  have others: "\<forall>c. c \<notin> set cs \<longrightarrow> blk dev1 c = blk dev c" using d1(2) k(1,2) by auto
  have step: "write_loop wr buf j f dev =
    (if ff_offset f1 \<ge> ff_bpc f1 \<and> j + m < length buf
     then (case fat_get (ff_fat f1) (ff_cluster f1) of Inl err \<Rightarrow> Some (Inl err, f1, dev1) | Inr entry \<Rightarrow>
       (case entry of Next next \<Rightarrow> write_loop wr buf (j + m) (f1\<lparr>ff_cluster := next, ff_offset := 0\<rparr>) dev1
        | EndOfChain \<Rightarrow>
            (case fat_alloc_cluster (ff_fat f1) of
               (Inl err, tbl1) \<Rightarrow> Some (Inl err, f1\<lparr>ff_fat := tbl1\<rparr>, dev1)
             | (Inr new_cluster, tbl1) \<Rightarrow>
                 (case fat_set tbl1 (ff_cluster f1) (Next new_cluster) of
                    (Inl err, tbl2) \<Rightarrow> Some (Inl err, f1\<lparr>ff_fat := tbl2\<rparr>, dev1)
                  | (Inr _, tbl2) \<Rightarrow> write_loop wr buf (j + m) (f1\<lparr>ff_fat := tbl2, ff_cluster := new_cluster, ff_offset := 0\<rparr>) dev1))
        | _ \<Rightarrow> Some (Inl InvalidCluster, f1, dev1)))
     else write_loop wr buf (j + m) f1 dev1)"
    by (subst write_loop.simps)
      (simp only: Let_def w m_def [symmetric] bs_def [symmetric] d1(1) prod.case sum.case f1_def [symmetric] j not_True_eq_False if_False)
  have first: "ff_first f = hd cs" "ff_size f \<le> length cs * ff_bpc f" "cs \<noteq> []" using ok k(1) by (auto simp: file_ok_def)
  have left: "pos + (length buf - (j + m)) = ff_position f + (length buf - j)" using m(2) by (simp add: pos_def)
  show ?thesis
  proof (cases "ff_offset f1 \<ge> ff_bpc f1 \<and> j + m < length buf")
    case stay: False
    have "j + m = length buf"
    proof (rule ccontr)
      assume "j + m \<noteq> length buf"
      then have "ff_offset f + m = ff_bpc f" "j + m < length buf" using k(3) m(2) by (auto simp: m_def)
      then show False using stay f1 by simp
    qed
    moreover have "file_ok f1 cs" using ok k m(1) f1 posb by (auto simp: file_ok_def cursor_def pos_def)
    then have "write_ready wr blk f1 (cs @ []) (length buf - (j + m))" using ready f1 left by (simp add: write_ready_def)
    moreover have "write_measure buf (j + m) f1 < write_measure buf j f"
    proof -
      have "1 < 2 * (length buf - j)" using j by linarith
      then show ?thesis using \<open>j + m = length buf\<close> using j by (simp add: write_measure_def)
    qed
    ultimately show ?thesis using step stay f1 written others m(2)
      by (intro exI [of _ m] exI [of _ f1] exI [of _ dev1] exI [of _ "[]"]) (simp add: pos_def)
  next
    case move: True
    then have off: "ff_offset f + m = ff_bpc f" using m(1) f1 by simp
    then have pos: "pos = (k + 1) * ff_bpc f" using k(4) by (simp add: pos_def)
    have dec: "write_measure buf (j + m) f2 < write_measure buf j f" if "ff_offset f2 = 0" "ff_bpc f2 = ff_bpc f" for f2
      using b(1) move off that by (cases "m = 0") (auto simp: write_measure_def)
    show ?thesis
    proof (cases "Suc k = length cs")
      case False
      then have k1: "k + 1 < length cs" using k(1) by simp
      define f2 where "f2 = f1\<lparr>ff_cluster := cs ! (k + 1), ff_offset := 0\<rparr>"
      have s2: "write_loop wr buf j f dev = write_loop wr buf (j + m) f2 dev1"
        using step move file_next [OF b(4) k(1,2)] False by (simp add: f2_def f1)
      have "file_ok f2 cs" using ok k1 pos posb f1 by (auto simp: file_ok_def cursor_def f2_def)
      then have "write_ready wr blk f2 (cs @ []) (length buf - (j + m))" using ready left by (simp add: write_ready_def f2_def f1)
      then show ?thesis using s2 written others m(2) dec [of f2]
        by (intro exI [of _ m] exI [of _ f2] exI [of _ dev1] exI [of _ "[]"]) (simp add: pos_def f2_def f1)
    next
      case True
      have "length cs * ff_bpc f < (length cs + card (free_clusters (ff_fat f))) * ff_bpc f"
      proof -
        have "pos = length cs * ff_bpc f" using pos True by simp
        then show ?thesis using room(1) left move by linarith
      qed
      then have "free_clusters (ff_fat f) \<noteq> {}" by (auto simp: add_mult_distrib)
      from extend_chain [OF b(4,5) inv this] obtain c tbl1 tbl2 where e: "fat_alloc_cluster (ff_fat f) = (Inr c, tbl1)"
        "fat_set tbl1 (last cs) (Next c) = (Inr (), tbl2)" "linked (fat_map tbl2) (cs @ [c])" "distinct (cs @ [c])"
        "fat_inv tbl2" "pointable tbl2" "c \<in> free_clusters (ff_fat f)" "free_clusters tbl2 = free_clusters (ff_fat f) - {c}" by blast
      have last: "cs ! k = last cs" using True first(3) by (simp add: last_conv_nth flip: True)
      define f2 where "f2 = f1\<lparr>ff_fat := tbl2, ff_cluster := c, ff_offset := 0\<rparr>"
      have s2: "write_loop wr buf j f dev = write_loop wr buf (j + m) f2 dev1"
        using step move file_next [OF b(4) k(1,2)] True e(1,2) last k(2) by (simp add: f2_def f1)
      have card: "length (cs @ [c]) + card (free_clusters tbl2) = length cs + card (free_clusters (ff_fat f))"
        using e(7,8) card_Suc_Diff1 [of "free_clusters (ff_fat f)" c] by simp
      have "cursor f2 (cs @ [c])" unfolding cursor_def
        by (rule exI [of _ "length cs"]) (simp add: f2_def f1 pos nth_append True [symmetric])
      moreover have "(length cs + 1) * ff_bpc f < 2 ^ 63"
      proof -
        have "(length cs + 1) * ff_bpc f \<le> (length cs + card (free_clusters (ff_fat f))) * ff_bpc f"
          using card by (intro mult_le_mono1) simp
        then show ?thesis using room(2) by linarith
      qed
      moreover have "max (ff_size f) pos \<le> (length cs + 1) * ff_bpc f" using posb first(2) by simp
      ultimately have "file_ok f2 (cs @ [c])" using e(3,4) b first by (simp add: file_ok_def f2_def f1)
      then have "write_ready wr blk f2 (cs @ [c]) (length buf - (j + m))"
        unfolding write_ready_def using wr e(5,6) room left unfolding card [symmetric] by (simp add: f2_def f1)
      then show ?thesis using s2 written others m(2) dec [of f2] e(7,8)
        by (intro exI [of _ m] exI [of _ f2] exI [of _ dev1] exI [of _ "[c]"]) (simp add: pos_def f2_def f1)
    qed
  qed
qed

lemma write_loop_correct:
  assumes "write_ready wr blk f cs (length buf - j)" "j < length buf"
  shows "\<exists>f' dev' cs'. write_loop wr buf j f dev = Some (Inr (length buf), f', dev') \<and> write_ready wr blk f' (cs @ cs') 0 \<and>
    content (blk dev') (cs @ cs') = overwrite (content (blk dev) (cs @ cs')) (ff_position f) (drop j buf) \<and>
    set cs' \<subseteq> free_clusters (ff_fat f) \<and> (\<forall>c. c \<notin> set (cs @ cs') \<longrightarrow> blk dev' c = blk dev c) \<and>
    ff_position f' = ff_position f + (length buf - j) \<and> ff_size f' = max (ff_size f) (ff_position f') \<and> ff_bpc f' = ff_bpc f"
  using assms
proof (induction "write_measure buf j f" arbitrary: f dev cs j rule: less_induct)
  case less
  obtain m f2 dev1 cs1 where s: "write_loop wr buf j f dev = write_loop wr buf (j + m) f2 dev1" "j + m \<le> length buf"
    "write_ready wr blk f2 (cs @ cs1) (length buf - (j + m))" "set cs1 \<subseteq> free_clusters (ff_fat f)"
    "\<forall>es. distinct (cs @ es) \<longrightarrow> content (blk dev1) (cs @ es) = overwrite (content (blk dev) (cs @ es)) (ff_position f) (take m (drop j buf))"
    "\<forall>c. c \<notin> set cs \<longrightarrow> blk dev1 c = blk dev c" "free_clusters (ff_fat f2) \<subseteq> free_clusters (ff_fat f)"
    "ff_position f2 = ff_position f + m" "ff_size f2 = max (ff_size f) (ff_position f2)" "ff_bpc f2 = ff_bpc f"
    "write_measure buf (j + m) f2 < write_measure buf j f" using write_step [OF less.prems] by blast
  have dis: "distinct (cs @ cs1)" using s(3) by (simp add: write_ready_def file_ok_def)
  show ?case
  proof (cases "j + m < length buf")
    case False
    then have e: "j + m = length buf" using s(2) by simp
    then have "write_loop wr buf (j + m) f2 dev1 = Some (Inr (length buf), f2, dev1)" by (subst write_loop.simps) simp
    moreover have "take m (drop j buf) = drop j buf" using e by simp
    ultimately show ?thesis using s e dis by (intro exI [of _ f2] exI [of _ dev1] exI [of _ cs1]) auto
  next
    case True
    from less.hyps [OF s(11,3) True] obtain f' dev' cs' where r: "write_loop wr buf (j + m) f2 dev1 = Some (Inr (length buf), f', dev')"
      "write_ready wr blk f' ((cs @ cs1) @ cs') 0"
      "content (blk dev') ((cs @ cs1) @ cs') = overwrite (content (blk dev1) ((cs @ cs1) @ cs')) (ff_position f2) (drop (j + m) buf)"
      "set cs' \<subseteq> free_clusters (ff_fat f2)" "\<forall>c. c \<notin> set ((cs @ cs1) @ cs') \<longrightarrow> blk dev' c = blk dev1 c"
      "ff_position f' = ff_position f2 + (length buf - (j + m))" "ff_size f' = max (ff_size f2) (ff_position f')" "ff_bpc f' = ff_bpc f2" by blast
    let ?cs = "cs1 @ cs'"
    have d: "distinct (cs @ ?cs)" using r(2) by (simp add: write_ready_def file_ok_def)
    have len: "length (blk dev c) = ff_bpc f" for c using less.prems(1) by (auto simp: write_ready_def writes_def)
    have "ff_position f \<le> length (content (blk dev) (cs @ ?cs))"
    proof -
      have "ff_position f \<le> length cs * ff_bpc f"
      proof -
        obtain k where "k < length cs" "ff_offset f \<le> ff_bpc f" "ff_position f = k * ff_bpc f + ff_offset f"
          using less.prems(1) by (auto simp: write_ready_def file_ok_def cursor_def)
        moreover from this(1) have "(k + 1) * ff_bpc f \<le> length cs * ff_bpc f" by (intro mult_le_mono1) simp
        ultimately show ?thesis by simp
      qed
      then show ?thesis by (simp add: length_content [of "blk dev", OF len] add_mult_distrib)
    qed
    moreover have "length (take m (drop j buf)) = m" using s(2) by simp
    moreover have "take m (drop j buf) @ drop (j + m) buf = drop j buf" by (metis add.commute append_take_drop_id drop_drop)
    ultimately have "content (blk dev') (cs @ ?cs) = overwrite (content (blk dev) (cs @ ?cs)) (ff_position f) (drop j buf)"
      using r(3) s(5,8) d overwrite_overwrite [of "ff_position f" "content (blk dev) (cs @ ?cs)" "take m (drop j buf)" "drop (j + m) buf"] by simp
    moreover have "set ?cs \<subseteq> free_clusters (ff_fat f)" using s(4,7) r(4) by auto
    moreover have "\<forall>c. c \<notin> set (cs @ ?cs) \<longrightarrow> blk dev' c = blk dev c" using r(5) s(6) by simp
    moreover have "ff_position f' = ff_position f + (length buf - j)" using r(6) s(2,8) by simp
    moreover have "ff_size f' = max (ff_size f) (ff_position f')" using r(6,7) s(9) by (simp add: max_def)
    ultimately show ?thesis using s(1,10) r(1,2,8) by (intro exI [of _ f'] exI [of _ dev'] exI [of _ ?cs]) simp
  qed
qed

section \<open>A file is an array of bytes with a position\<close>

type_synonym byte_file = "u8 list \<times> nat"

definition array_read :: "nat \<Rightarrow> byte_file \<Rightarrow> u8 list \<times> byte_file" where
  "array_read n a = (take n (drop (snd a) (fst a)), (fst a, snd a + min n (length (fst a) - snd a)))"

definition array_write :: "u8 list \<Rightarrow> byte_file \<Rightarrow> byte_file" where
  "array_write buf a = (overwrite (fst a) (snd a) buf, snd a + length buf)"

definition file_abs :: "(cluster \<Rightarrow> u8 list) \<Rightarrow> cluster list \<Rightarrow> fat_file \<Rightarrow> byte_file" where
  "file_abs blk cs f = (take (ff_size f) (content blk cs), ff_position f)"

lemma file_abs_length:
  assumes "file_ok f cs" "\<And>c. length (blk c) = ff_bpc f"
  shows "length (fst (file_abs blk cs f)) = ff_size f"
proof -
  have "length (content blk cs) = length cs * ff_bpc f" using assms(2) by (rule length_content)
  then show ?thesis using assms(1) by (simp add: file_abs_def file_ok_def)
qed

lemma file_write_correct:
  assumes ready: "write_ready wr blk f cs (length buf)" and pos: "ff_position f \<le> ff_size f" and first: "ff_first f \<noteq> 0"
  shows "\<exists>f' dev' cs'. file_write wr f buf dev = Some (Inr (length buf), f', dev') \<and> write_ready wr blk f' (cs @ cs') 0 \<and>
    file_abs (blk dev') (cs @ cs') f' = array_write buf (file_abs (blk dev) cs f) \<and>
    set cs' \<subseteq> free_clusters (ff_fat f) \<and> (\<forall>c. c \<notin> set (cs @ cs') \<longrightarrow> blk dev' c = blk dev c) \<and>
    ff_size f' = max (ff_size f) (ff_position f') \<and> ff_bpc f' = ff_bpc f"
proof (cases "buf = []")
  case True
  then show ?thesis using assms
    by (intro exI [of _ f] exI [of _ dev] exI [of _ "[]"]) (simp add: file_write_def array_write_def file_abs_def)
next
  case False
  then have "write_ready wr blk f cs (length buf - 0)" "0 < length buf" using ready by simp_all
  from write_loop_correct [OF this, of dev] obtain f' dev' cs' where
    r: "write_loop wr buf 0 f dev = Some (Inr (length buf), f', dev')" "write_ready wr blk f' (cs @ cs') 0"
    "content (blk dev') (cs @ cs') = overwrite (content (blk dev) (cs @ cs')) (ff_position f) buf"
    "set cs' \<subseteq> free_clusters (ff_fat f)" "\<forall>c. c \<notin> set (cs @ cs') \<longrightarrow> blk dev' c = blk dev c"
    "ff_position f' = ff_position f + length buf" "ff_size f' = max (ff_size f) (ff_position f')" "ff_bpc f' = ff_bpc f" by auto
  have len: "length (blk d c) = ff_bpc f" for d c using ready by (auto simp: write_ready_def writes_def)
  have "length (content (blk dev) cs) = length cs * ff_bpc f" "length (content (blk dev) (cs @ cs')) = length (cs @ cs') * ff_bpc f"
    by (rule length_content [OF len])+
  moreover have "ff_size f \<le> length cs * ff_bpc f" using ready by (simp add: write_ready_def file_ok_def)
  moreover have "ff_position f + length buf \<le> length (cs @ cs') * ff_bpc f"
    using r(2,6,7,8) by (simp add: write_ready_def file_ok_def)
  moreover have "content (blk dev) (cs @ cs') = content (blk dev) cs @ content (blk dev) cs'" by (simp add: content_def)
  ultimately have "take (ff_size f') (content (blk dev') (cs @ cs')) = overwrite (take (ff_size f) (content (blk dev) cs)) (ff_position f) buf"
    using overwrite_take [of "ff_position f" "ff_size f" "content (blk dev) (cs @ cs')" buf] pos r(3,6,7) by simp
  then have "file_abs (blk dev') (cs @ cs') f' = array_write buf (file_abs (blk dev) cs f)"
    using r(6) by (simp add: file_abs_def array_write_def)
  then show ?thesis using r False first by (auto simp: file_write_def)
qed

section \<open>An example\<close>

text \<open>A table with the chain of the clusters 2 and 3, and a file of two clusters of four bytes.\<close>

definition chain_example :: fat_table where
  "chain_example = fat_table_new Fat16 ([0, 0, 0, 0, 3, 0, 0xFF, 0xFF] @ replicate 12 0)"

definition file_example :: fat_file where
  "file_example = \<lparr>ff_fat = chain_example, ff_first = 2, ff_position = 3, ff_size = 8, ff_bpc = 4, ff_cluster = 2, ff_offset = 3\<rparr>"

definition disk_block :: "nat \<Rightarrow> (cluster \<Rightarrow> u8 list) \<Rightarrow> cluster \<Rightarrow> u8 list" where
  "disk_block n d c = take n (d c @ replicate n 0)"

definition disk_read :: "nat \<Rightarrow> (cluster \<Rightarrow> u8 list) \<Rightarrow> cluster \<Rightarrow> nat \<Rightarrow> nat \<Rightarrow> fat_error + u8 list" where
  "disk_read n d c off m = Inr (take m (drop off (disk_block n d c)))"

definition disk_write :: "nat \<Rightarrow> (cluster \<Rightarrow> u8 list) writer" where
  "disk_write n d c off bs = (Inr (), d(c := overwrite (disk_block n d c) off bs))"

lemma disk_ok: "reads (disk_read n d) (disk_block n d) n" "writes (disk_write n) (disk_block n) n"
proof -
  have len: "length (disk_block n d c) = n" for d c by (simp add: disk_block_def)
  then show "reads (disk_read n d) (disk_block n d) n" by (simp add: reads_def disk_read_def)
  have "disk_block n (d(c := overwrite (disk_block n d c) off bs)) = (disk_block n d)(c := overwrite (disk_block n d c) off bs)"
    if "off + length bs \<le> n" for d c off bs
    using that len [of d c] length_overwrite [of off bs "disk_block n d c"] by (simp add: disk_block_def fun_eq_iff)
  then show "writes (disk_write n) (disk_block n) n" using len by (simp add: writes_def disk_write_def)
qed

lemma file_example_ok:
  "file_ok file_example [2, 3]" "write_ready (disk_write 4) (disk_block 4) file_example [2, 3] 7"
proof -
  have "linked (fat_map chain_example) [2, 3]" by code_simp
  then show ok: "file_ok file_example [2, 3]"
    by (auto simp: file_ok_def cursor_def file_example_def)
  have inv: "fat_inv chain_example" by (simp add: chain_example_def fat_table_new_inv)
  moreover have "pointable chain_example"
    by (rule pointable_small) (simp add: chain_example_def fat_table_new_def Let_def first_reserved_def)
  moreover have "ft_free chain_example = 6" by code_simp
  then have "card (free_clusters chain_example) = 6" using inv by (simp add: fat_inv_def)
  ultimately show "write_ready (disk_write 4) (disk_block 4) file_example [2, 3] 7"
    using ok disk_ok(2) by (simp add: write_ready_def file_example_def)
qed

text \<open>
  C16. Reading a file is reading an array of bytes. On a file whose cursor stands on its chain,
  \<open>read\<close> returns the bytes that the array read returns at the position of the file, over as many
  clusters as they take, and moves the position as the array read does. The cursor stands on the
  chain again.
\<close>

theorem file_read_refines:
  assumes "file_ok f cs" "reads rd blk (ff_bpc f)"
  shows "\<exists>f'. file_read rd f n = Some (Inr (fst (array_read n (file_abs blk cs f))), f') \<and>
    file_abs blk cs f' = snd (array_read n (file_abs blk cs f)) \<and> file_ok f' cs"
proof -
  have "length (fst (file_abs blk cs f)) = ff_size f" using assms by (intro file_abs_length) (auto simp: reads_def)
  then show ?thesis using file_read_correct [OF assms, of n] by (auto simp: array_read_def file_abs_def)
qed

theorem file_read_refines_witness:
  "\<exists>f'. file_read (disk_read 4 (\<lambda>c. if c = 2 then [9, 8, 7, 6] else [1, 2, 3, 4])) file_example 4 = Some (Inr [6, 1, 2, 3], f')"
proof -
  have "fst (array_read 4 (file_abs (disk_block 4 (\<lambda>c. if c = 2 then [9, 8, 7, 6] else [1, 2, 3, 4])) [2, 3] file_example)) = [6, 1, 2, 3]"
    by (simp add: array_read_def file_abs_def content_def disk_block_def file_example_def numeral_eq_Suc)
  moreover have "ff_bpc file_example = 4" by (simp add: file_example_def)
  ultimately show ?thesis
    using file_read_refines [OF file_example_ok(1), of "disk_read 4 (\<lambda>c. if c = 2 then [9, 8, 7, 6] else [1, 2, 3, 4])" "disk_block 4 (\<lambda>c. if c = 2 then [9, 8, 7, 6] else [1, 2, 3, 4])" 4]
      disk_ok(1) by auto
qed

text \<open>
  C4. Writing a file is writing into an array of bytes. The file has a first cluster, its cursor stands on
  its chain at the place that its position names, and the position is not past the end; the table has the right count of
  free clusters, enough of them for the buffer, and no cluster whose number is reserved; the closure writes
  the bytes it is given. Then \<open>write\<close> writes the whole buffer at the position of the file, extends the file and its
  chain with free clusters where it runs past the end, and leaves the bytes of every cluster outside
  the chain as they were. The cursor stands on the extended chain again.
\<close>

theorem file_write_refines:
  assumes "write_ready wr blk f cs (length buf)" "ff_position f \<le> ff_size f" "ff_first f \<noteq> 0"
  shows "\<exists>f' dev' cs'. file_write wr f buf dev = Some (Inr (length buf), f', dev') \<and>
    file_abs (blk dev') (cs @ cs') f' = array_write buf (file_abs (blk dev) cs f) \<and>
    file_ok f' (cs @ cs') \<and> set cs' \<subseteq> free_clusters (ff_fat f) \<and> fat_inv (ff_fat f') \<and>
    (\<forall>c. c \<notin> set (cs @ cs') \<longrightarrow> blk dev' c = blk dev c)"
  using file_write_correct [OF assms, of dev] unfolding write_ready_def by blast

theorem file_write_refines_witness:
  "\<exists>f' dev' cs'. file_write (disk_write 4) file_example [1, 2, 3, 4, 5, 6, 7] (\<lambda>_. []) = Some (Inr 7, f', dev') \<and>
    file_abs (disk_block 4 dev') ([2, 3] @ cs') f' = ([0, 0, 0, 1, 2, 3, 4, 5, 6, 7], 10)"
proof -
  let ?d = "\<lambda>_ :: cluster. [] :: u8 list"
  have "array_write [1, 2, 3, 4, 5, 6, 7] (file_abs (disk_block 4 ?d) [2, 3] file_example) = ([0, 0, 0, 1, 2, 3, 4, 5, 6, 7], 10)"
    by (simp add: array_write_def overwrite_def file_abs_def content_def disk_block_def file_example_def numeral_eq_Suc)
  moreover have "write_ready (disk_write 4) (disk_block 4) file_example [2, 3] (length [1, 2, 3, 4, 5, 6, 7 :: u8])"
    "ff_position file_example \<le> ff_size file_example" "ff_first file_example \<noteq> 0"
    using file_example_ok(2) by (simp_all add: file_example_def numeral_eq_Suc)
  from file_write_refines [OF this, of ?d] have
    "\<exists>f' dev' cs'. file_write (disk_write 4) file_example [1, 2, 3, 4, 5, 6, 7] ?d = Some (Inr 7, f', dev') \<and>
      file_abs (disk_block 4 dev') ([2, 3] @ cs') f' = array_write [1, 2, 3, 4, 5, 6, 7] (file_abs (disk_block 4 ?d) [2, 3] file_example)"
    by auto
  ultimately show ?thesis by simp
qed

text \<open>
  C27. What was written is read back. For a file with a first cluster whose cursor stands on its chain at
  the place that its position names, at most at the end of the file, on a table that counts its free
  clusters right, has enough of them and none with a reserved number, and with closures that read and
  write what they are told: after a write of a buffer that is not empty, a seek back to the
  position of the write and a read of as many bytes return the buffer.
\<close>

theorem file_write_read_roundtrip:
  assumes ready: "write_ready wr blk f cs (length buf)" "ff_position f \<le> ff_size f" "ff_first f \<noteq> 0"
    and rd: "\<And>d. reads (rd d) (blk d) (ff_bpc f)" and buf: "buf \<noteq> []"
  shows "\<exists>f1 dev1 f2 f3. file_write wr f buf dev = Some (Inr (length buf), f1, dev1) \<and>
    file_seek f1 (ff_position f) = Some (Inr (ff_position f), f2) \<and>
    file_read (rd dev1) f2 (length buf) = Some (Inr buf, f3)"
proof -
  obtain f1 dev1 cs1 where w: "file_write wr f buf dev = Some (Inr (length buf), f1, dev1)" "write_ready wr blk f1 (cs @ cs1) 0"
    "file_abs (blk dev1) (cs @ cs1) f1 = array_write buf (file_abs (blk dev) cs f)"
    "ff_size f1 = max (ff_size f) (ff_position f1)" "ff_bpc f1 = ff_bpc f"
    using file_write_correct [OF ready, of dev] by blast
  let ?p = "ff_position f" and ?cs = "cs @ cs1"
  have ok: "file_ok f1 ?cs" using w(2) by (simp add: write_ready_def)
  have p1: "ff_position f1 = ?p + length buf"
    and cont: "take (ff_size f1) (content (blk dev1) ?cs) = overwrite (take (ff_size f) (content (blk dev) cs)) ?p buf"
    using w(3) by (simp_all add: file_abs_def array_write_def)
  have "min ?p (ff_size f1) = ?p" "?p < ff_size f1" using w(4) p1 buf by (auto simp: less_max_iff_disj)
  moreover have "ff_size f1 \<le> length ?cs * ff_bpc f1" using ok by (simp add: file_ok_def)
  ultimately obtain f2 where s: "file_seek f1 ?p = Some (Inr ?p, f2)" "file_ok f2 ?cs" "ff_position f2 = ?p" "same_file f1 f2"
    using file_seek_correct [OF ok, of ?p] by auto
  have "reads (rd dev1) (blk dev1) (ff_bpc f2)" using rd [of dev1] s(4) w(5) by (simp add: same_file_def)
  moreover have "length (fst (file_abs (blk dev) cs f)) = ff_size f"
    using ready(1) by (intro file_abs_length) (auto simp: write_ready_def writes_def)
  then have "take (length buf) (drop ?p (take (ff_size f1) (content (blk dev1) ?cs))) = buf"
    using cont ready(2) by (simp add: overwrite_def file_abs_def)
  ultimately obtain f3 where "file_read (rd dev1) f2 (length buf) = Some (Inr buf, f3)"
    using file_read_correct [OF s(2), of "rd dev1" "blk dev1" "length buf"] s(3,4) by (auto simp: same_file_def)
  then show ?thesis using w(1) s(1) by blast
qed

theorem file_write_read_roundtrip_witness:
  "\<exists>f1 dev1 f2 f3. file_write (disk_write 4) file_example [1, 2, 3, 4, 5, 6, 7] (\<lambda>_. []) = Some (Inr 7, f1, dev1) \<and>
    file_seek f1 3 = Some (Inr 3, f2) \<and> file_read (disk_read 4 dev1) f2 7 = Some (Inr [1, 2, 3, 4, 5, 6, 7], f3)"
proof -
  have e: "ff_position file_example = 3" "ff_size file_example = 8" "ff_bpc file_example = 4" "ff_first file_example = 2"
    by (simp_all add: file_example_def)
  show ?thesis
    using file_write_read_roundtrip [of "disk_write 4" "disk_block 4" file_example "[2, 3]" "[1, 2, 3, 4, 5, 6, 7]" "disk_read 4" "\<lambda>_. []"]
      file_example_ok(2) disk_ok(1) by (simp add: e numeral_eq_Suc)
qed

section \<open>Seeking to the end of a chain that is full\<close>

lemma seek_loop_full:
  assumes "file_ok f cs" "ff_size f = length cs * ff_bpc f" "k < length cs" "ff_cluster f = cs ! k" "ff_offset f \<le> ff_bpc f"
    "ff_position f = k * ff_bpc f + ff_offset f" "ff_position f < ff_size f"
  shows "\<exists>f'. seek_loop f (ff_size f) = Some (Inr (), f') \<and> ff_position f' = ff_size f \<and> ff_cluster f' = last cs \<and> ff_offset f' = 0 \<and>
    same_file f f'"
  using assms
proof (induction "length cs - k" arbitrary: f k)
  case 0
  then show ?case by simp
next
  case (Suc j)
  have b: "0 < ff_bpc f" "ff_bpc f < 2 ^ 32" "length cs * ff_bpc f < 2 ^ 63" "linked (fat_map (ff_fat f)) cs"
    using Suc.prems(1) by (auto simp: file_ok_def)
  have kb: "(k + 1) * ff_bpc f \<le> length cs * ff_bpc f" using Suc.prems(3) by (intro mult_le_mono1) simp
  then have w: "wrap_sub 64 (ff_bpc f) (ff_offset f) = ff_bpc f - ff_offset f"
    "wrap_add 64 (ff_position f) (ff_bpc f - ff_offset f) = (k + 1) * ff_bpc f"
    using b Suc.prems(5,6) by (simp_all add: wrap_sub_eq wrap_add_def)
  show ?case
  proof (cases "Suc k = length cs")
    case True
    then have "last cs = cs ! k" by (metis diff_Suc_1 last_conv_nth length_0_conv nat.distinct(1))
    then show ?thesis using Suc.prems w kb True file_next [OF b(4) Suc.prems(3,4)] b(1)
      by (subst seek_loop.simps) (simp add: Let_def same_file_def)
  next
    case False
    then have k1: "k + 1 < length cs" using Suc.prems(3) by simp
    define f1 where "f1 = f\<lparr>ff_cluster := cs ! (k + 1), ff_offset := 0, ff_position := (k + 1) * ff_bpc f\<rparr>"
    have step: "seek_loop f (ff_size f) = seek_loop f1 (ff_size f1)"
      using Suc.prems(2,7) w kb file_next [OF b(4) Suc.prems(3,4)] k1 by (subst seek_loop.simps) (simp add: Let_def f1_def)
    have "file_ok f1 cs" using Suc.prems(1) k1 by (auto simp: file_ok_def cursor_def f1_def)
    moreover have "(k + 1) * ff_bpc f < length cs * ff_bpc f" using k1 b(1) by (intro mult_less_mono1)
    ultimately have "\<exists>f'. seek_loop f1 (ff_size f1) = Some (Inr (), f') \<and> ff_position f' = ff_size f1 \<and> ff_cluster f' = last cs \<and> ff_offset f' = 0 \<and>
      same_file f1 f'"
      using Suc.hyps(2) Suc.prems(2) k1 by (intro Suc.hyps(1) [of "k + 1"]) (simp_all add: f1_def)
    then show ?thesis using step by (simp add: f1_def same_file_def)
  qed
qed

text \<open>A write that ends in the cluster of the cursor.\<close>

lemma write_one_cluster:
  assumes "writes wr blk (ff_bpc f)" "ff_offset f = 0" "ff_bpc f < 2 ^ 32" "ff_first f \<noteq> 0" "buf \<noteq> []" "length buf \<le> ff_bpc f"
    "ff_position f < 2 ^ 63"
  shows "\<exists>f' dev'. file_write wr f buf dev = Some (Inr (length buf), f', dev') \<and>
    blk dev' = (blk dev)(ff_cluster f := overwrite (blk dev (ff_cluster f)) 0 buf) \<and>
    ff_position f' = ff_position f + length buf \<and> ff_size f' = max (ff_size f) (ff_position f + length buf)"
proof -
  obtain dev1 where w: "wr dev (ff_cluster f) 0 buf = (Inr (), dev1)"
    "blk dev1 = (blk dev)(ff_cluster f := overwrite (blk dev (ff_cluster f)) 0 buf)"
    using assms(1,6) unfolding writes_def by (metis add_0)
  have p: "wrap_sub 32 (ff_bpc f) 0 = ff_bpc f" "wrap_add 64 (ff_position f) (length buf) = ff_position f + length buf"
    using assms(3,6,7) by (simp_all add: wrap_sub_eq wrap_add_def)
  define f1 where "f1 = f\<lparr>ff_position := ff_position f + length buf, ff_offset := wrap_add 32 0 (length buf),
    ff_size := (if ff_position f + length buf > ff_size f then ff_position f + length buf else ff_size f)\<rparr>"
  have "write_loop wr buf 0 f dev = write_loop wr buf (length buf) f1 dev1"
    using assms(2,5,6) w(1) p by (subst write_loop.simps) (simp add: Let_def min_absorb1 f1_def)
  also have "\<dots> = Some (Inr (length buf), f1, dev1)" by (subst write_loop.simps) simp
  finally have "file_write wr f buf dev = Some (Inr (length buf), f1, dev1)" using assms(4,5) by (simp add: file_write_def)
  then show ?thesis using w(2) by (auto simp: f1_def max_def)
qed

text \<open>
  C33. For a file whose size is exactly that of its clusters, a seek from a position before the end to the
  end, or past it, puts the cursor at the start of the last cluster: the position says the end of the file,
  but the write that follows, of at most a cluster and with a closure that writes what it is given, overwrites the last
  cluster from its first byte, while the size of the file grows as if the bytes had been appended.
\<close>

theorem file_seek_full_chain:
  assumes "file_ok f cs" "ff_size f = length cs * ff_bpc f" "ff_position f < ff_size f" "ff_size f \<le> p"
    and "writes wr blk (ff_bpc f)" "buf \<noteq> []" "length buf \<le> ff_bpc f"
  shows "\<exists>f' f'' dev'. file_seek f p = Some (Inr (ff_size f), f') \<and> ff_position f' = ff_size f \<and> ff_cluster f' = last cs \<and> ff_offset f' = 0 \<and>
    file_write wr f' buf dev = Some (Inr (length buf), f'', dev') \<and>
    blk dev' = (blk dev)(last cs := overwrite (blk dev (last cs)) 0 buf) \<and> ff_size f'' = ff_size f + length buf"
proof -
  obtain k where "k < length cs" "ff_cluster f = cs ! k" "ff_offset f \<le> ff_bpc f" "ff_position f = k * ff_bpc f + ff_offset f"
    using assms(1) by (auto simp: file_ok_def cursor_def)
  from seek_loop_full [OF assms(1,2) this assms(3)] obtain f' where f': "seek_loop f (ff_size f) = Some (Inr (), f')"
    "ff_position f' = ff_size f" "ff_cluster f' = last cs" "ff_offset f' = 0" "same_file f f'" by blast
  have b: "ff_bpc f < 2 ^ 32" "ff_size f < 2 ^ 63" "linked (fat_map (ff_fat f)) cs" "ff_first f = hd cs"
    using assms(1) by (auto simp: file_ok_def)
  have "ff_first f \<noteq> 0" using b(3,4) by (induction "fat_map (ff_fat f)" cs rule: linked.induct) (auto dest!: fat_map_valid)
  then obtain f'' dev' where "file_write wr f' buf dev = Some (Inr (length buf), f'', dev')"
    "blk dev' = (blk dev)(last cs := overwrite (blk dev (last cs)) 0 buf)" "ff_size f'' = ff_size f + length buf"
    using write_one_cluster [of wr blk f' buf dev] assms(5-7) b(1,2) f' by (auto simp: same_file_def)
  moreover have "file_seek f p = Some (Inr (ff_size f), f')" using f'(1,2) assms(3,4) by (auto simp: file_seek_def)
  ultimately show ?thesis using f' by blast
qed

theorem file_seek_full_chain_witness:
  "\<exists>f' f'' dev'. file_seek file_example 8 = Some (Inr 8, f') \<and> ff_cluster f' = 3 \<and> ff_offset f' = 0 \<and>
    file_write (disk_write 4) f' [1] (\<lambda>_. []) = Some (Inr 1, f'', dev') \<and> disk_block 4 dev' 3 = [1, 0, 0, 0] \<and> ff_size f'' = 9"
proof -
  have e: "ff_position file_example = 3" "ff_size file_example = 8" "ff_bpc file_example = 4"
    by (simp_all add: file_example_def)
  have "overwrite (disk_block 4 (\<lambda>_. []) 3) 0 [1] = [1, 0, 0, 0]" by (simp add: overwrite_def disk_block_def numeral_eq_Suc)
  then show ?thesis
    using file_seek_full_chain [OF file_example_ok(1), of 8 "disk_write 4" "disk_block 4" "[1]" "\<lambda>_. []"] disk_ok by (auto simp: e)
qed

end
