(* ===== verification/Dos_Date.thy ===== *)
theory Dos_Date
  imports Prelude
begin

text \<open>
  Dates and times of FAT directory entries: kernel/foundry/storage/src/fs/fat/date.rs. A \<open>DosDate\<close> is
  its 16 bits. \<open>None\<close> is a failed assertion or a failed conversion.
\<close>

unbundle bit_operations_syntax

type_synonym dos_date = u16

record date =
  d_year :: u16
  d_month :: u8
  d_day :: u8

definition MIN_YEAR :: u16 where "MIN_YEAR = 1980"
definition MAX_YEAR :: u16 where "MAX_YEAR = 2107"

definition DATE_BASE :: dos_date where "DATE_BASE = 33"

definition date_new :: "u16 \<Rightarrow> u8 \<Rightarrow> u8 \<Rightarrow> date option" where
  "date_new y m d =
     (if \<not> (MIN_YEAR \<le> y \<and> y \<le> MAX_YEAR) then None
      else if \<not> (1 \<le> m \<and> m \<le> 12) then None
      else if \<not> (1 \<le> d \<and> d \<le> 31) then None
      else Some \<lparr>d_year = y, d_month = m, d_day = d\<rparr>)"

definition date_decode :: "dos_date \<Rightarrow> date" where
  "date_decode w =
     \<lparr>d_year = drop_bit 9 w + MIN_YEAR,
      d_month = ucast (drop_bit 5 w AND 0xF),
      d_day = ucast (w AND 0x1F)\<rparr>"

definition date_encode :: "date \<Rightarrow> dos_date" where
  "date_encode d =
     push_bit 9 (d_year d - MIN_YEAR) OR push_bit 5 (ucast (d_month d)) OR ucast (d_day d)"

record time =
  t_hour :: u8
  t_min :: u8
  t_sec :: u8
  t_ms :: u16

record dos_time =
  dos_time_hi_res :: u8
  dos_time_val :: u16

definition TIME_BASE :: dos_time where
  "TIME_BASE = \<lparr>dos_time_hi_res = 0, dos_time_val = 0\<rparr>"

definition dos_time_new :: "u16 \<Rightarrow> u8 \<Rightarrow> dos_time" where
  "dos_time_new t hi = \<lparr>dos_time_hi_res = hi, dos_time_val = t\<rparr>"

definition time_new :: "u8 \<Rightarrow> u8 \<Rightarrow> u8 \<Rightarrow> u16 \<Rightarrow> time option" where
  "time_new h m s n =
     (if h \<le> 23 \<and> m \<le> 59 \<and> s \<le> 59 \<and> n \<le> 999
      then Some \<lparr>t_hour = h, t_min = m, t_sec = s, t_ms = n\<rparr> else None)"

text \<open>The conversions of \<open>decode\<close> to \<open>u8\<close> keep at most seven bits, so they do not fail.\<close>

definition time_decode :: "dos_time \<Rightarrow> time" where
  "time_decode t =
     (let hi = dos_time_hi_res t;
          w = dos_time_val t
      in \<lparr>t_hour = ucast (drop_bit 11 w),
          t_min = ucast (drop_bit 5 w AND 0x3F),
          t_sec = ucast ((w AND 0x1F) * 2 + ucast (hi div 100)),
          t_ms = ucast (hi mod 100) * 10\<rparr>)"

definition time_encode :: "time \<Rightarrow> dos_time option" where
  "time_encode t =
     (let w = push_bit 11 (ucast (t_hour t)) OR push_bit 5 (ucast (t_min t)) OR (ucast (t_sec t) div 2 :: u16)
      in if unat (t_ms t div 10) < 256
         then Some (dos_time_new w (ucast (t_ms t div 10) + (t_sec t mod 2) * 100))
         else None)"

record date_time =
  dt_date :: date
  dt_time :: time

record dos_date_time =
  ddt_date :: dos_date
  ddt_time :: dos_time

definition date_time_decode :: "dos_date_time \<Rightarrow> date_time" where
  "date_time_decode w = \<lparr>dt_date = date_decode (ddt_date w), dt_time = time_decode (ddt_time w)\<rparr>"

definition date_time_encode :: "date_time \<Rightarrow> dos_date_time option" where
  "date_time_encode d =
     (case time_encode (dt_time d) of
        None \<Rightarrow> None
      | Some t \<Rightarrow> Some \<lparr>ddt_date = date_encode (dt_date d), ddt_time = t\<rparr>)"

definition min_date :: "date option" where "min_date = date_new 1980 1 1"

definition min_time :: "time option" where "min_time = time_new 0 0 0 0"

section \<open>Packed fields\<close>

lemma bit_of_ucast: "bit (ucast x :: u16) n \<longleftrightarrow> bit x n" for x :: u8
  using bit_imp_le_length [of x n] by (auto simp: bit_simps)

text \<open>Three fields packed into sixteen bits are read back by shifting and masking.\<close>

lemma packed_fields:
  fixes a b c :: u16
  assumes a: "unat a < 2 ^ (16 - k)" and b: "unat b < 2 ^ (k - 5)" and c: "unat c < 2 ^ 5" and k: "5 \<le> k" "k < 16"
  shows "drop_bit k (push_bit k a OR push_bit 5 b OR c) = a"
    and "drop_bit 5 (push_bit k a OR push_bit 5 b OR c) AND mask (k - 5) = b"
    and "(push_bit k a OR push_bit 5 b OR c) AND mask 5 = c"
proof -
  note bits = bit_below [OF a] bit_below [OF b] bit_below [OF c]
  show "drop_bit k (push_bit k a OR push_bit 5 b OR c) = a"
    using bits k by (intro bit_eqI) (fastforce simp: bit_simps)
  show "drop_bit 5 (push_bit k a OR push_bit 5 b OR c) AND mask (k - 5) = b"
    using bits k by (intro bit_eqI) (fastforce simp: bit_simps)
  show "(push_bit k a OR push_bit 5 b OR c) AND mask 5 = c"
    using bits k by (intro bit_eqI) (fastforce simp: bit_simps)
qed

lemma unpacked_fields:
  fixes w :: u16
  assumes "5 \<le> k" "k < 16"
  shows "push_bit k (drop_bit k w) OR push_bit 5 (drop_bit 5 w AND mask (k - 5)) OR (w AND mask 5) = w"
proof (rule bit_eqI)
  fix n assume "possible_bit TYPE(u16) n"
  then show "bit (push_bit k (drop_bit k w) OR push_bit 5 (drop_bit 5 w AND mask (k - 5)) OR (w AND mask 5)) n = bit w n"
    using assms by (cases "n < 5"; cases "n < k") (auto simp: bit_simps)
qed

lemma masks: "mask 4 = (0xF :: u16)" "mask 5 = (0x1F :: u16)" "mask 6 = (0x3F :: u16)"
  by (simp_all add: mask_eq_exp_minus_1)

lemma ucast_back: "ucast (ucast x :: u16) = x" for x :: u8
  by (rule bit_word_eqI) (simp add: bit_simps)

lemma unat_widen [simp]: "unat (ucast x :: u16) = unat x" for x :: u8
  using unsigned_less [of x, where 'a = nat] by (simp add: unsigned_ucast_eq take_bit_nat_eq_self)

lemma unat_narrow [simp]: "unat (ucast x :: u8) = unat x mod 256" for x :: u16
  by (simp add: unsigned_ucast_eq take_bit_eq_mod)

lemma ucast_forth: "unat x < 256 \<Longrightarrow> ucast (ucast x :: u8) = x" for x :: u16
  by (simp add: word_unat_eq_iff)

section \<open>Round trips\<close>

lemma date_decode_encode:
  assumes "date_new y m d = Some dt"
  shows "date_decode (date_encode dt) = dt"
proof -
  have dt: "dt = \<lparr>d_year = y, d_month = m, d_day = d\<rparr>" and le: "1980 \<le> y" "y \<le> 2107" "m \<le> 12" "d \<le> 31"
    using assms by (auto simp: date_new_def MIN_YEAR_def MAX_YEAR_def split: if_splits)
  have y: "unat (y - 1980) < 2 ^ (16 - 9)"
    using le(1,2) by (simp add: unat_sub word_le_nat_alt)
  have m: "unat (ucast m :: u16) < 2 ^ (9 - 5)" using le(3) by (simp add: word_le_nat_alt)
  have d: "unat (ucast d :: u16) < 2 ^ 5" using le(4) by (simp add: word_le_nat_alt)
  show ?thesis using packed_fields [OF y m d]
    by (simp add: date_decode_def date_encode_def dt MIN_YEAR_def masks ucast_back)
qed

text \<open>Every sixteen bits are the code of what they are decoded to.\<close>

lemma date_encode_decode: "date_encode (date_decode w) = w"
proof -
  have lt: "unat (drop_bit 5 w AND 0xF) < 256" "unat (w AND 0x1F) < 256"
    using word_and_le1 [of "drop_bit 5 w" "0xF"] word_and_le1 [of w "0x1F"] by (simp_all add: word_le_nat_alt)
  show ?thesis using unpacked_fields [of 9 w] lt by (simp add: date_encode_def date_decode_def masks ucast_forth)
qed

lemma time_decode_encode:
  assumes "time_new h m s n = Some t"
  shows "\<exists>w. time_encode t = Some w \<and> time_decode w = t\<lparr>t_ms := n div 10 * 10\<rparr>"
proof -
  have t: "t = \<lparr>t_hour = h, t_min = m, t_sec = s, t_ms = n\<rparr>"
    and le: "unat h \<le> 23" "unat m \<le> 59" "unat s \<le> 59" "unat n \<le> 999"
    using assms by (auto simp: time_new_def word_le_nat_alt split: if_splits)
  define w :: u16 where "w = push_bit 11 (ucast h) OR push_bit 5 (ucast m) OR (ucast s div 2)"
  define hi :: u8 where "hi = ucast (n div 10) + s mod 2 * 100"
  have hi: "unat hi = unat n div 10 + unat s mod 2 * 100"
  proof -
    have "unat (s mod 2 * 100) = unat s mod 2 * 100" by (simp add: unat_word_ariths unat_mod mod_less)
    then show ?thesis using le(4) by (simp add: hi_def unat_word_ariths unat_div)
  qed
  have f: "unat (ucast h :: u16) < 2 ^ (16 - 11)" "unat (ucast m :: u16) < 2 ^ (11 - 5)" "unat (ucast s div 2 :: u16) < 2 ^ 5"
    using le by (simp_all add: unat_div)
  have f2: "drop_bit 11 w = ucast h" "drop_bit 5 w AND 0x3F = ucast m" "w AND 0x1F = ucast s div 2"
    using packed_fields [OF f] by (simp_all add: masks w_def)
  have "(ucast ((ucast s div 2) * 2 + ucast (hi div 100) :: u16) :: u8) = s"
    using le(3,4) hi by (simp add: word_unat_eq_iff unat_word_ariths unat_div)
  moreover have "ucast (hi mod 100) * 10 = n div 10 * 10"
    using le(4) hi by (simp add: word_unat_eq_iff unat_word_ariths unat_div unat_mod)
  ultimately have "time_decode (dos_time_new w hi) = t\<lparr>t_ms := n div 10 * 10\<rparr>"
    by (simp add: time_decode_def dos_time_new_def f2 t ucast_back)
  moreover have "time_encode t = Some (dos_time_new w hi)"
    using le(4) by (simp add: time_encode_def t hi_def w_def unat_div)
  ultimately show ?thesis by blast
qed

text \<open>
  C32. \<open>DateTime::decode\<close> undoes \<open>DateTime::encode\<close>, which never panics, on every date and time that the constructors accept:
  the two words and the high-resolution byte give the date and the time back, the milliseconds rounded
  down to ten.
\<close>

theorem date_time_roundtrip:
  assumes "date_new y mo d = Some dt" "time_new h mi s n = Some t"
  shows "\<exists>w. date_time_encode \<lparr>dt_date = dt, dt_time = t\<rparr> = Some w \<and>
    date_time_decode w = \<lparr>dt_date = dt, dt_time = t\<lparr>t_ms := n div 10 * 10\<rparr>\<rparr>"
  using date_decode_encode [OF assms(1)] time_decode_encode [OF assms(2)]
  by (auto simp: date_time_encode_def date_time_decode_def)

theorem date_time_roundtrip_witness:
  "\<exists>dt t w. date_new 2023 3 15 = Some dt \<and> time_new 14 30 45 678 = Some t \<and>
     date_time_encode \<lparr>dt_date = dt, dt_time = t\<rparr> = Some w \<and>
     date_time_decode w = \<lparr>dt_date = dt, dt_time = t\<lparr>t_ms := 670\<rparr>\<rparr>"
proof -
  obtain dt t where "date_new 2023 3 15 = Some dt" "time_new 14 30 45 678 = Some t"
    by (simp add: date_new_def time_new_def MIN_YEAR_def MAX_YEAR_def)
  with date_time_roundtrip [OF this] show ?thesis by auto
qed

end
