(* ===== verification/Fat_Dirent.thy ===== *)
theory Fat_Dirent
  imports Fat_Entries Dos_Date
begin

text \<open>
  Directory entries: kernel/foundry/storage/src/fs/fat/dirent.rs. Both structures are packed, so an
  entry is also its 32 bytes; arrays are lists, with their lengths in the predicates \<open>dir_entry_wf\<close>
  and \<open>lfn_wf\<close>. A getter that only returns a field is that field. \<open>None\<close> is a panic of a conversion.
\<close>

definition DIR_ENTRY_SIZE :: nat where "DIR_ENTRY_SIZE = 32"

section \<open>Attributes\<close>

definition READ_ONLY :: u8 where "READ_ONLY = 0x01"
definition HIDDEN :: u8 where "HIDDEN = 0x02"
definition SYSTEM :: u8 where "SYSTEM = 0x04"
definition VOLUME_ID :: u8 where "VOLUME_ID = 0x08"
definition DIRECTORY :: u8 where "DIRECTORY = 0x10"
definition ARCHIVE :: u8 where "ARCHIVE = 0x20"
definition LONG_NAME :: u8 where "LONG_NAME = READ_ONLY OR HIDDEN OR SYSTEM OR VOLUME_ID"
definition LONG_NAME_MASK :: u8 where
  "LONG_NAME_MASK = READ_ONLY OR HIDDEN OR SYSTEM OR VOLUME_ID OR DIRECTORY OR ARCHIVE"

definition attr_is_read_only :: "u8 \<Rightarrow> bool" where "attr_is_read_only a \<longleftrightarrow> a AND READ_ONLY \<noteq> 0"
definition attr_is_hidden :: "u8 \<Rightarrow> bool" where "attr_is_hidden a \<longleftrightarrow> a AND HIDDEN \<noteq> 0"
definition attr_is_system :: "u8 \<Rightarrow> bool" where "attr_is_system a \<longleftrightarrow> a AND SYSTEM \<noteq> 0"
definition attr_is_volume_id :: "u8 \<Rightarrow> bool" where "attr_is_volume_id a \<longleftrightarrow> a AND VOLUME_ID \<noteq> 0"
definition attr_is_directory :: "u8 \<Rightarrow> bool" where "attr_is_directory a \<longleftrightarrow> a AND DIRECTORY \<noteq> 0"
definition attr_is_archive :: "u8 \<Rightarrow> bool" where "attr_is_archive a \<longleftrightarrow> a AND ARCHIVE \<noteq> 0"
definition attr_is_long_name :: "u8 \<Rightarrow> bool" where
  "attr_is_long_name a \<longleftrightarrow> a AND LONG_NAME_MASK = LONG_NAME"

section \<open>Short entries\<close>

record dir_entry =
  de_name :: "u8 list"
  de_ext :: "u8 list"
  de_attr :: u8
  de_nt_res :: u8
  de_creation_time :: dos_time
  de_creation_date :: dos_date
  de_last_access_date :: dos_date
  de_first_cluster_high :: u16
  de_write_time :: u16
  de_write_date :: dos_date
  de_first_cluster_low :: u16
  de_file_size :: u32

definition DELETED_ENTRY :: u8 where "DELETED_ENTRY = 0xE5"
definition END_OF_ENTRIES :: u8 where "END_OF_ENTRIES = 0x00"

definition dir_entry_new :: dir_entry where
  "dir_entry_new =
     \<lparr>de_name = replicate 8 0, de_ext = replicate 3 0, de_attr = 0, de_nt_res = 0,
      de_creation_time = TIME_BASE, de_creation_date = DATE_BASE, de_last_access_date = DATE_BASE,
      de_first_cluster_high = 0, de_write_time = 0, de_write_date = DATE_BASE,
      de_first_cluster_low = 0, de_file_size = 0\<rparr>"

definition de_is_free :: "dir_entry \<Rightarrow> bool" where "de_is_free e \<longleftrightarrow> de_name e ! 0 = END_OF_ENTRIES"
definition de_is_deleted :: "dir_entry \<Rightarrow> bool" where "de_is_deleted e \<longleftrightarrow> de_name e ! 0 = DELETED_ENTRY"
definition de_is_valid :: "dir_entry \<Rightarrow> bool" where "de_is_valid e \<longleftrightarrow> \<not> de_is_free e \<and> \<not> de_is_deleted e"
definition de_is_directory :: "dir_entry \<Rightarrow> bool" where "de_is_directory e = attr_is_directory (de_attr e)"
definition de_is_volume_id :: "dir_entry \<Rightarrow> bool" where "de_is_volume_id e = attr_is_volume_id (de_attr e)"
definition de_is_file :: "dir_entry \<Rightarrow> bool" where
  "de_is_file e \<longleftrightarrow> de_is_valid e \<and> \<not> de_is_directory e \<and> \<not> de_is_volume_id e"
definition de_is_long_name :: "dir_entry \<Rightarrow> bool" where "de_is_long_name e = attr_is_long_name (de_attr e)"

definition de_set_attributes :: "dir_entry \<Rightarrow> u8 \<Rightarrow> dir_entry" where "de_set_attributes e a = e\<lparr>de_attr := a\<rparr>"
definition de_set_name :: "dir_entry \<Rightarrow> u8 list \<Rightarrow> dir_entry" where "de_set_name e n = e\<lparr>de_name := n\<rparr>"
definition de_set_extension :: "dir_entry \<Rightarrow> u8 list \<Rightarrow> dir_entry" where "de_set_extension e x = e\<lparr>de_ext := x\<rparr>"
definition de_filename_raw :: "dir_entry \<Rightarrow> u8 list" where "de_filename_raw e = de_name e @ de_ext e"

definition de_first_cluster :: "dir_entry \<Rightarrow> fat_type \<Rightarrow> cluster" where
  "de_first_cluster e t =
     (let low = ucast (de_first_cluster_low e);
          high = (case t of Fat32 \<Rightarrow> push_bit 16 (ucast (de_first_cluster_high e)) | _ \<Rightarrow> 0)
      in low OR high)"

definition de_set_first_cluster :: "dir_entry \<Rightarrow> cluster \<Rightarrow> fat_type \<Rightarrow> dir_entry" where
  "de_set_first_cluster e c t =
     (let e1 = e\<lparr>de_first_cluster_low := ucast (c AND 0xFFFF)\<rparr>
      in if t = Fat32 then e1\<lparr>de_first_cluster_high := ucast (drop_bit 16 c AND 0xFFFF)\<rparr> else e1)"

definition de_set_file_size :: "dir_entry \<Rightarrow> u32 \<Rightarrow> dir_entry" where "de_set_file_size e n = e\<lparr>de_file_size := n\<rparr>"

definition de_creation_datetime :: "dir_entry \<Rightarrow> date_time" where
  "de_creation_datetime e = date_time_decode \<lparr>ddt_date = de_creation_date e, ddt_time = de_creation_time e\<rparr>"

definition de_set_creation_datetime :: "dir_entry \<Rightarrow> date_time \<Rightarrow> dir_entry option" where
  "de_set_creation_datetime e d =
     (case date_time_encode d of
        None \<Rightarrow> None
      | Some w \<Rightarrow> Some (e\<lparr>de_creation_date := ddt_date w, de_creation_time := ddt_time w\<rparr>))"

definition de_get_last_access_date :: "dir_entry \<Rightarrow> date" where
  "de_get_last_access_date e = date_decode (de_last_access_date e)"

definition de_set_last_access_date :: "dir_entry \<Rightarrow> date \<Rightarrow> dir_entry" where
  "de_set_last_access_date e d = e\<lparr>de_last_access_date := date_encode d\<rparr>"

definition de_last_write_datetime :: "dir_entry \<Rightarrow> date_time" where
  "de_last_write_datetime e =
     date_time_decode \<lparr>ddt_date = de_write_date e, ddt_time = dos_time_new (de_write_time e) 0\<rparr>"

definition de_set_last_write_datetime :: "dir_entry \<Rightarrow> date_time \<Rightarrow> dir_entry option" where
  "de_set_last_write_datetime e d =
     (case time_encode (dt_time d) of
        None \<Rightarrow> None
      | Some t \<Rightarrow> Some (e\<lparr>de_write_date := date_encode (dt_date d), de_write_time := dos_time_val t\<rparr>))"

section \<open>Long name entries\<close>

record lfn_entry =
  lfn_seq_num :: u8
  lfn_name1 :: "u8 list"
  lfn_attr :: u8
  lfn_entry_type :: u8
  lfn_checksum :: u8
  lfn_name2 :: "u8 list"
  lfn_first_cluster :: u16
  lfn_name3 :: "u8 list"

definition LAST_ENTRY :: u8 where "LAST_ENTRY = 0x40"
definition CHARS_PER_ENTRY :: nat where "CHARS_PER_ENTRY = 13"

definition lfn_new :: "u8 \<Rightarrow> u8 \<Rightarrow> bool \<Rightarrow> lfn_entry" where
  "lfn_new seq_num checksum is_last =
     \<lparr>lfn_seq_num = (if is_last then seq_num OR LAST_ENTRY else seq_num),
      lfn_name1 = replicate 10 0, lfn_attr = LONG_NAME, lfn_entry_type = 0, lfn_checksum = checksum,
      lfn_name2 = replicate 12 0, lfn_first_cluster = 0, lfn_name3 = replicate 4 0\<rparr>"

definition lfn_is_last :: "lfn_entry \<Rightarrow> bool" where "lfn_is_last l \<longleftrightarrow> lfn_seq_num l AND LAST_ENTRY \<noteq> 0"

definition lfn_get_seq_num :: "lfn_entry \<Rightarrow> u8" where
  "lfn_get_seq_num l = lfn_seq_num l AND NOT LAST_ENTRY"

definition put16 :: "u8 list \<Rightarrow> nat \<Rightarrow> u16 \<Rightarrow> u8 list" where
  "put16 xs idx ch = xs[idx * 2 := ucast ch, idx * 2 + 1 := ucast (drop_bit 8 ch)]"

definition get16 :: "u8 list \<Rightarrow> nat \<Rightarrow> u16" where
  "get16 xs idx = le16 (xs ! (idx * 2)) (xs ! (idx * 2 + 1))"

definition lfn_set_name :: "lfn_entry \<Rightarrow> nat \<Rightarrow> u16 \<Rightarrow> fat_error + lfn_entry" where
  "lfn_set_name l idx ch =
     (if idx \<ge> CHARS_PER_ENTRY then Inl InvalidParameter
      else if idx < 5 then Inr (l\<lparr>lfn_name1 := put16 (lfn_name1 l) idx ch\<rparr>)
      else if idx < 11 then Inr (l\<lparr>lfn_name2 := put16 (lfn_name2 l) (idx - 5) ch\<rparr>)
      else Inr (l\<lparr>lfn_name3 := put16 (lfn_name3 l) (idx - 11) ch\<rparr>))"

definition lfn_get_name :: "lfn_entry \<Rightarrow> nat \<Rightarrow> fat_error + u16" where
  "lfn_get_name l idx =
     (if idx \<ge> CHARS_PER_ENTRY then Inl InvalidParameter
      else if idx < 5 then Inr (get16 (lfn_name1 l) idx)
      else if idx < 11 then Inr (get16 (lfn_name2 l) (idx - 5))
      else Inr (get16 (lfn_name3 l) (idx - 11)))"

definition calc_short_name_checksum :: "u8 list \<Rightarrow> u8" where
  "calc_short_name_checksum name =
     fold (\<lambda>b sum. push_bit 7 (sum AND 1) + drop_bit 1 sum + b) name 0"

section \<open>Entries as bytes\<close>

definition bytes16 :: "u16 \<Rightarrow> u8 list" where
  "bytes16 v = [ucast v, ucast (drop_bit 8 v)]"

definition bytes32 :: "u32 \<Rightarrow> u8 list" where
  "bytes32 v = [ucast v, ucast (drop_bit 8 v), ucast (drop_bit 16 v), ucast (drop_bit 24 v)]"

definition at16 :: "u8 list \<Rightarrow> nat \<Rightarrow> u16" where
  "at16 bs i = le16 (bs ! i) (bs ! (i + 1))"

definition dir_entry_bytes :: "dir_entry \<Rightarrow> u8 list" where
  "dir_entry_bytes e =
     de_name e @ de_ext e @ [de_attr e, de_nt_res e, dos_time_hi_res (de_creation_time e)] @
     bytes16 (dos_time_val (de_creation_time e)) @ bytes16 (de_creation_date e) @
     bytes16 (de_last_access_date e) @ bytes16 (de_first_cluster_high e) @ bytes16 (de_write_time e) @
     bytes16 (de_write_date e) @ bytes16 (de_first_cluster_low e) @ bytes32 (de_file_size e)"

definition dir_entry_of_bytes :: "u8 list \<Rightarrow> dir_entry" where
  "dir_entry_of_bytes bs =
     \<lparr>de_name = take 8 bs, de_ext = take 3 (drop 8 bs), de_attr = bs ! 11, de_nt_res = bs ! 12,
      de_creation_time = \<lparr>dos_time_hi_res = bs ! 13, dos_time_val = at16 bs 14\<rparr>,
      de_creation_date = at16 bs 16, de_last_access_date = at16 bs 18, de_first_cluster_high = at16 bs 20,
      de_write_time = at16 bs 22, de_write_date = at16 bs 24, de_first_cluster_low = at16 bs 26,
      de_file_size = le32 (bs ! 28) (bs ! 29) (bs ! 30) (bs ! 31)\<rparr>"

definition lfn_bytes :: "lfn_entry \<Rightarrow> u8 list" where
  "lfn_bytes l =
     [lfn_seq_num l] @ lfn_name1 l @ [lfn_attr l, lfn_entry_type l, lfn_checksum l] @ lfn_name2 l @
     bytes16 (lfn_first_cluster l) @ lfn_name3 l"

definition lfn_of_bytes :: "u8 list \<Rightarrow> lfn_entry" where
  "lfn_of_bytes bs =
     \<lparr>lfn_seq_num = bs ! 0, lfn_name1 = take 10 (drop 1 bs), lfn_attr = bs ! 11, lfn_entry_type = bs ! 12,
      lfn_checksum = bs ! 13, lfn_name2 = take 12 (drop 14 bs), lfn_first_cluster = at16 bs 26,
      lfn_name3 = take 4 (drop 28 bs)\<rparr>"

definition dir_entry_wf :: "dir_entry \<Rightarrow> bool" where
  "dir_entry_wf e \<longleftrightarrow> length (de_name e) = 8 \<and> length (de_ext e) = 3"

definition lfn_wf :: "lfn_entry \<Rightarrow> bool" where
  "lfn_wf l \<longleftrightarrow> length (lfn_name1 l) = 10 \<and> length (lfn_name2 l) = 12 \<and> length (lfn_name3 l) = 4"

section \<open>Round trips\<close>

lemma le32_of_bytes: "le32 (ucast v) (ucast (drop_bit 8 v)) (ucast (drop_bit 16 v)) (ucast (drop_bit 24 v)) = v"
  by (rule bit_word_eqI) (auto simp: bit_le32 bit_simps)

lemma bytes16_le16: "bytes16 (le16 a b) = [a, b]"
proof -
  have "ucast (le16 a b) = a" "ucast (drop_bit 8 (le16 a b)) = b"
    by (rule bit_word_eqI; auto simp: bit_le16 bit_simps dest: bit_u8)+
  then show ?thesis by (simp add: bytes16_def)
qed

lemma bytes32_le32: "bytes32 (le32 a b c d) = [a, b, c, d]"
proof -
  have "ucast (le32 a b c d) = a" "ucast (drop_bit 8 (le32 a b c d)) = b"
    "ucast (drop_bit 16 (le32 a b c d)) = c" "ucast (drop_bit 24 (le32 a b c d)) = d"
    by (rule bit_word_eqI; auto simp: bit_le32 bit_simps dest: bit_u8)+
  then show ?thesis by (simp add: bytes32_def)
qed

lemma list8: "length xs = 8 \<Longrightarrow> \<exists>a b c d e f g h. xs = [a, b, c, d, e, f, g, h]"
  by (auto simp: numeral_eq_Suc length_Suc_conv)

lemma list3: "length xs = 3 \<Longrightarrow> \<exists>a b c. xs = [a, b, c]"
  by (auto simp: numeral_eq_Suc length_Suc_conv)

lemma dir_entry_bytes_roundtrip:
  assumes "dir_entry_wf e"
  shows "dir_entry_of_bytes (dir_entry_bytes e) = e" and "length (dir_entry_bytes e) = 32"
    and "dir_entry_bytes e ! 0 = de_name e ! 0"
proof -
  obtain a b c d e1 f g h x y z where n: "de_name e = [a, b, c, d, e1, f, g, h]" "de_ext e = [x, y, z]"
    using list8 [of "de_name e"] list3 [of "de_ext e"] assms by (auto simp: dir_entry_wf_def)
  show "dir_entry_of_bytes (dir_entry_bytes e) = e"
    by (rule dir_entry.equality)
      (simp_all add: dir_entry_of_bytes_def dir_entry_bytes_def n bytes16_def bytes32_def at16_def le16_bytes le32_of_bytes)
  show "length (dir_entry_bytes e) = 32" "dir_entry_bytes e ! 0 = de_name e ! 0"
    by (simp_all add: dir_entry_bytes_def n bytes16_def bytes32_def)
qed

lemma lfn_bytes_roundtrip:
  assumes "lfn_wf l"
  shows "lfn_of_bytes (lfn_bytes l) = l" and "length (lfn_bytes l) = 32" and "lfn_bytes l ! 0 = lfn_seq_num l"
  using assms by (simp_all add: lfn_of_bytes_def lfn_bytes_def lfn_wf_def bytes16_def at16_def le16_bytes nth_append)

lemma get16_put16:
  assumes "2 * i + 1 < length xs" "2 * j + 1 < length xs"
  shows "get16 (put16 xs i ch) j = (if j = i then ch else get16 xs j)"
proof -
  have "2 * i + 1 \<noteq> 2 * j" "2 * j + 1 \<noteq> 2 * i" by presburger+
  then show ?thesis using assms by (auto simp: get16_def put16_def nth_list_update le16_bytes mult.commute)
qed

lemma length_put16 [simp]: "length (put16 xs i ch) = length xs"
  by (simp add: put16_def)

lemma lfn_set_get_name:
  assumes "lfn_wf l" "i < 13"
  shows "\<exists>l'. lfn_set_name l i ch = Inr l' \<and> lfn_wf l' \<and> lfn_seq_num l' = lfn_seq_num l \<and> lfn_attr l' = lfn_attr l \<and>
    (\<forall>j < 13. lfn_get_name l' j = (if j = i then Inr ch else lfn_get_name l j))"
proof -
  have "\<forall>j < 13. lfn_get_name (l\<lparr>lfn_name1 := put16 (lfn_name1 l) i ch\<rparr>) j = (if j = i then Inr ch else lfn_get_name l j)" if "i < 5"
    using assms that by (auto simp: lfn_get_name_def CHARS_PER_ENTRY_def lfn_wf_def get16_put16)
  moreover have "\<forall>j < 13. lfn_get_name (l\<lparr>lfn_name2 := put16 (lfn_name2 l) (i - 5) ch\<rparr>) j = (if j = i then Inr ch else lfn_get_name l j)" if "5 \<le> i" "i < 11"
    using assms that by (auto simp: lfn_get_name_def CHARS_PER_ENTRY_def lfn_wf_def get16_put16)
  moreover have "\<forall>j < 13. lfn_get_name (l\<lparr>lfn_name3 := put16 (lfn_name3 l) (i - 11) ch\<rparr>) j = (if j = i then Inr ch else lfn_get_name l j)" if "11 \<le> i"
    using assms that by (auto simp: lfn_get_name_def CHARS_PER_ENTRY_def lfn_wf_def get16_put16)
  ultimately show ?thesis using assms by (auto simp: lfn_set_name_def CHARS_PER_ENTRY_def lfn_wf_def)
qed

lemma first_cluster_set:
  assumes "t = Fat32 \<or> unat c < 2 ^ 16"
  shows "de_first_cluster (de_set_first_cluster e c t) t = c"
proof (cases "t = Fat32")
  case True
  then show ?thesis unfolding de_first_cluster_def de_set_first_cluster_def
    by (auto intro!: bit_word_eqI simp: fat_masks bit_simps)
next
  case False
  then have "\<And>n. bit c n \<Longrightarrow> n < 16" using assms bit_below [of c 16] by auto
  then show ?thesis using False unfolding de_first_cluster_def de_set_first_cluster_def
    by (cases t) (auto intro!: bit_word_eqI simp: fat_masks bit_simps)
qed

end
