(* ===== verification/Fat_Dir.thy ===== *)
theory Fat_Dir
  imports Fat_File Fat_Dirent
begin

text \<open>
  Directories: kernel/foundry/storage/src/fs/fat/dir.rs. A string is the list of its characters as
  \<open>u32\<close>. As for files, the closures that read and write the bytes of a cluster are parameters. \<open>None\<close>
  is a panic or a loop that does not end.
\<close>

type_synonym rust_string = "u32 list"

record directory =
  dir_fat :: fat_table
  dir_first :: cluster
  dir_position :: nat
  dir_bpc :: nat
  dir_cluster :: cluster
  dir_offset :: nat

record directory_entry =
  short_entry :: dir_entry
  long_name :: "rust_string option"

definition directory_new :: "fat_table \<Rightarrow> cluster \<Rightarrow> nat \<Rightarrow> fat_error + directory" where
  "directory_new tbl first bpc =
     (if \<not> cluster_is_valid first (ft_type tbl) \<and> first \<noteq> 0 then Inl InvalidCluster
      else Inr \<lparr>dir_fat = tbl, dir_first = first, dir_position = 0, dir_bpc = bpc,
                dir_cluster = first, dir_offset = 0\<rparr>)"

partial_function (option) dir_seek_loop :: "nat \<Rightarrow> nat \<Rightarrow> directory \<Rightarrow> ((fat_error + nat) \<times> directory) option" where
  "dir_seek_loop entries_per_cluster remaining d =
     (if \<not> 0 < remaining then Some (Inr (dir_position d), d)
      else let entries_in_current = wrap_sub 64 entries_per_cluster (dir_offset d div DIR_ENTRY_SIZE)
           in if remaining \<le> entries_in_current
              then let skip = (remaining * DIR_ENTRY_SIZE) mod 2 ^ 64
                   in if skip < 2 ^ 32
                      then dir_seek_loop entries_per_cluster 0
                             (d\<lparr>dir_offset := wrap_add 32 (dir_offset d) skip,
                                dir_position := wrap_add 64 (dir_position d) remaining\<rparr>)
                      else None
              else let d1 = d\<lparr>dir_position := wrap_add 64 (dir_position d) entries_in_current\<rparr>
                   in case fat_get (dir_fat d1) (dir_cluster d1) of
                        Inl err \<Rightarrow> Some (Inl err, d1)
                      | Inr (Next next) \<Rightarrow>
                          dir_seek_loop entries_per_cluster (remaining - entries_in_current)
                            (d1\<lparr>dir_cluster := next, dir_offset := 0\<rparr>)
                      | Inr EndOfChain \<Rightarrow> Some (Inr (dir_position d1), d1)
                      | Inr _ \<Rightarrow> Some (Inl InvalidCluster, d1))"

definition dir_rewind :: "directory \<Rightarrow> directory" where
  "dir_rewind d = d\<lparr>dir_cluster := dir_first d, dir_offset := 0, dir_position := 0\<rparr>"

definition dir_seek :: "directory \<Rightarrow> nat \<Rightarrow> ((fat_error + nat) \<times> directory) option" where
  "dir_seek d position =
     (let d1 = (if position < dir_position d then dir_rewind d else d);
          entries_to_skip = position - dir_position d1
      in if entries_to_skip = 0 then Some (Inr (dir_position d1), d1)
         else dir_seek_loop (dir_bpc d1 div DIR_ENTRY_SIZE) entries_to_skip d1)"

section \<open>Reading entries\<close>

type_synonym reader = "cluster \<Rightarrow> nat \<Rightarrow> nat \<Rightarrow> fat_error + u8 list"

text \<open>
  After the bytes at the cursor were read or written, the cursor advances by the size of an entry, and
  to the next cluster of the chain where it reaches the end of one.
\<close>

definition dir_advance :: "directory \<Rightarrow> (fat_error + unit) \<times> directory" where
  "dir_advance d =
     (let d1 = d\<lparr>dir_offset := wrap_add 32 (dir_offset d) DIR_ENTRY_SIZE\<rparr>
      in if dir_offset d1 \<ge> dir_bpc d1
         then (case fat_get (dir_fat d1) (dir_cluster d1) of
                 Inl err \<Rightarrow> (Inl err, d1)
               | Inr (Next next) \<Rightarrow> (Inr (), d1\<lparr>dir_cluster := next, dir_offset := 0\<rparr>)
               | Inr EndOfChain \<Rightarrow> (Inr (), d1)
               | Inr _ \<Rightarrow> (Inl InvalidCluster, d1))
         else (Inr (), d1))"

definition read_entry_data :: "reader \<Rightarrow> directory \<Rightarrow> (fat_error + u8 list) \<times> directory" where
  "read_entry_data rd d =
     (case rd (dir_cluster d) (dir_offset d) DIR_ENTRY_SIZE of
        Inl err \<Rightarrow> (Inl err, d)
      | Inr bs \<Rightarrow> (case dir_advance d of (Inl err, d1) \<Rightarrow> (Inl err, d1) | (Inr _, d1) \<Rightarrow> (Inr bs, d1)))"

text \<open>\<open>char::from_u32\<close> of a \<open>u16\<close>: everything but the surrogates is a character.\<close>

definition char_from_u16 :: "u16 \<Rightarrow> u32 option" where
  "char_from_u16 ch = (if 0xD800 \<le> ch \<and> ch \<le> 0xDFFF then None else Some (ucast ch))"

fun lfn_chars :: "lfn_entry \<Rightarrow> nat list \<Rightarrow> rust_string \<Rightarrow> fat_error + rust_string" where
  "lfn_chars l [] result = Inr result"
| "lfn_chars l (i # is) result =
     (case lfn_get_name l i of
        Inl err \<Rightarrow> Inl err
      | Inr ch \<Rightarrow>
          (if ch = 0 then Inr result
           else if ch = 0xFFFF then lfn_chars l is result
           else case char_from_u16 ch of
                  Some c \<Rightarrow> lfn_chars l is (result @ [c])
                | None \<Rightarrow> lfn_chars l is result))"

fun lfn_concat :: "lfn_entry list \<Rightarrow> rust_string \<Rightarrow> fat_error + rust_string" where
  "lfn_concat [] result = Inr result"
| "lfn_concat (l # ls) result =
     (case lfn_chars l [0..<CHARS_PER_ENTRY] result of
        Inl err \<Rightarrow> Inl err
      | Inr result1 \<Rightarrow> lfn_concat ls result1)"

definition build_long_filename :: "lfn_entry list \<Rightarrow> fat_error + rust_string" where
  "build_long_filename entries = lfn_concat (sort_key lfn_get_seq_num entries) []"

partial_function (option) lfn_loop ::
  "reader \<Rightarrow> u8 list \<Rightarrow> lfn_entry list \<Rightarrow> directory \<Rightarrow> ((fat_error + directory_entry option) \<times> directory) option" where
  "lfn_loop rd entry_data lfn_entries d =
     (if \<not> lfn_is_last (last lfn_entries) then Some (Inl InvalidDirEntry, d)
      else case read_entry_data rd d of
             (Inl err, d1) \<Rightarrow> Some (Inl err, d1)
           | (Inr next_entry_data, d1) \<Rightarrow>
               (let next_entry = dir_entry_of_bytes entry_data
                in if de_is_long_name next_entry
                   then lfn_loop rd entry_data (lfn_entries @ [lfn_of_bytes entry_data]) d1
                   else case build_long_filename lfn_entries of
                          Inl err \<Rightarrow> Some (Inl err, d1)
                        | Inr name \<Rightarrow> Some (Inr (Some \<lparr>short_entry = next_entry, long_name = Some name\<rparr>), d1)))"

partial_function (option) read_entry ::
  "reader \<Rightarrow> directory \<Rightarrow> ((fat_error + directory_entry option) \<times> directory) option" where
  "read_entry rd d =
     (case read_entry_data rd d of
        (Inl err, d1) \<Rightarrow> Some (Inl err, d1)
      | (Inr entry_data, d1) \<Rightarrow>
          (if entry_data ! 0 = END_OF_ENTRIES then Some (Inr None, d1)
           else if entry_data ! 0 = DELETED_ENTRY
           then read_entry rd (d1\<lparr>dir_position := wrap_add 64 (dir_position d1) 1\<rparr>)
           else let entry = dir_entry_of_bytes entry_data
                in if de_is_long_name entry
                   then lfn_loop rd entry_data [lfn_of_bytes entry_data] d1
                   else Some (Inr (Some \<lparr>short_entry = entry, long_name = None\<rparr>),
                              d1\<lparr>dir_position := wrap_add 64 (dir_position d1) 1\<rparr>)))"

definition dir_iter_next :: "reader \<Rightarrow> directory \<Rightarrow> ((fat_error + directory_entry) option \<times> directory) option" where
  "dir_iter_next rd d =
     (case read_entry rd d of
        None \<Rightarrow> None
      | Some (Inr (Some e), d1) \<Rightarrow> Some (Some (Inr e), d1)
      | Some (Inr None, d1) \<Rightarrow> Some (None, d1)
      | Some (Inl err, d1) \<Rightarrow> Some (Some (Inl err), d1))"

section \<open>Writing entries\<close>

text \<open>\<open>encode_utf16\<close> of the standard library.\<close>

definition encode_utf16_char :: "u32 \<Rightarrow> u16 list" where
  "encode_utf16_char c =
     (if c < 0x10000 then [ucast c]
      else let u = c - 0x10000
           in [0xD800 OR ucast (drop_bit 10 u), 0xDC00 OR (ucast u AND 0x3FF)])"

definition encode_utf16 :: "rust_string \<Rightarrow> u16 list" where
  "encode_utf16 s = concat (map encode_utf16_char s)"

fun lfn_fill :: "u16 list \<Rightarrow> nat \<Rightarrow> nat list \<Rightarrow> lfn_entry \<Rightarrow> fat_error + lfn_entry" where
  "lfn_fill chars start_idx [] l = Inr l"
| "lfn_fill chars start_idx (j # js) l =
     (let char_idx = start_idx + j;
          ch = (if char_idx < length chars then chars ! char_idx
                else if j < CHARS_PER_ENTRY - 1 then 0
                else 0xFFFF)
      in case lfn_set_name l j ch of
           Inl err \<Rightarrow> Inl err
         | Inr l1 \<Rightarrow> lfn_fill chars start_idx js l1)"

text \<open>The cursor after a long name entry was written: at the end of the chain a cluster is added.\<close>

definition dir_advance_alloc :: "directory \<Rightarrow> (fat_error + unit) \<times> directory" where
  "dir_advance_alloc d =
     (let d1 = d\<lparr>dir_offset := wrap_add 32 (dir_offset d) DIR_ENTRY_SIZE\<rparr>
      in if dir_offset d1 \<ge> dir_bpc d1
         then (case fat_get (dir_fat d1) (dir_cluster d1) of
                 Inl err \<Rightarrow> (Inl err, d1)
               | Inr (Next next) \<Rightarrow> (Inr (), d1\<lparr>dir_cluster := next, dir_offset := 0\<rparr>)
               | Inr EndOfChain \<Rightarrow>
                   (case fat_alloc_cluster (dir_fat d1) of
                      (Inl err, tbl1) \<Rightarrow> (Inl err, d1\<lparr>dir_fat := tbl1\<rparr>)
                    | (Inr new_cluster, tbl1) \<Rightarrow>
                        (case fat_set tbl1 (dir_cluster d1) (Next new_cluster) of
                           (Inl err, tbl2) \<Rightarrow> (Inl err, d1\<lparr>dir_fat := tbl2\<rparr>)
                         | (Inr _, tbl2) \<Rightarrow>
                             (Inr (), d1\<lparr>dir_fat := tbl2, dir_cluster := new_cluster, dir_offset := 0\<rparr>)))
               | Inr _ \<Rightarrow> (Inl InvalidCluster, d1))
         else (Inr (), d1))"

fun write_lfn_entries ::
  "'d writer \<Rightarrow> u16 list \<Rightarrow> u8 \<Rightarrow> nat \<Rightarrow> nat list \<Rightarrow> directory \<Rightarrow> 'd \<Rightarrow> (fat_error + unit) \<times> directory \<times> 'd" where
  "write_lfn_entries wr chars checksum lfn_count [] d dev = (Inr (), d, dev)"
| "write_lfn_entries wr chars checksum lfn_count (i # is) d dev =
     (let seq_num = word_of_nat (lfn_count - i);
          is_last = (i = 0)
      in case lfn_fill chars (i * CHARS_PER_ENTRY) [0..<CHARS_PER_ENTRY] (lfn_new seq_num checksum is_last) of
           Inl err \<Rightarrow> (Inl err, d, dev)
         | Inr lfn_entry \<Rightarrow>
             (case wr dev (dir_cluster d) (dir_offset d) (lfn_bytes lfn_entry) of
                (Inl err, dev1) \<Rightarrow> (Inl err, d, dev1)
              | (Inr _, dev1) \<Rightarrow>
                  (case dir_advance_alloc d of
                     (Inl err, d1) \<Rightarrow> (Inl err, d1, dev1)
                   | (Inr _, d1) \<Rightarrow> write_lfn_entries wr chars checksum lfn_count is d1 dev1)))"

definition write_short :: "'d writer \<Rightarrow> directory \<Rightarrow> dir_entry \<Rightarrow> 'd \<Rightarrow> (fat_error + unit) \<times> directory \<times> 'd" where
  "write_short wr d e dev =
     (case wr dev (dir_cluster d) (dir_offset d) (dir_entry_bytes e) of
        (Inl err, dev1) \<Rightarrow> (Inl err, d, dev1)
      | (Inr _, dev1) \<Rightarrow> (case dir_advance d of (r, d1) \<Rightarrow> (r, d1, dev1)))"

definition write_entry ::
  "'d writer \<Rightarrow> directory \<Rightarrow> directory_entry \<Rightarrow> 'd \<Rightarrow> ((fat_error + unit) \<times> directory \<times> 'd) option" where
  "write_entry wr d entry dev =
     (case long_name entry of
        None \<Rightarrow> Some (write_short wr d (short_entry entry) dev)
      | Some name \<Rightarrow>
          (let chars = encode_utf16 name;
               lfn_count = (length chars + CHARS_PER_ENTRY - 1) div CHARS_PER_ENTRY
           in if lfn_count < 256
              then case write_lfn_entries wr chars (calc_short_name_checksum (de_filename_raw (short_entry entry)))
                          lfn_count [0..<lfn_count] d dev of
                     (Inl err, d1, dev1) \<Rightarrow> Some (Inl err, d1, dev1)
                   | (Inr _, d1, dev1) \<Rightarrow> Some (write_short wr d1 (short_entry entry) dev1)
              else None))"

text \<open>UTF-8 bytes of a character, \<open>to_ascii_uppercase\<close> and \<open>split('.')\<close> of the standard library.\<close>

definition utf8_char :: "u32 \<Rightarrow> u8 list" where
  "utf8_char c =
     (if c < 0x80 then [ucast c]
      else if c < 0x800 then [0xC0 OR ucast (drop_bit 6 c), 0x80 OR (ucast c AND 0x3F)]
      else if c < 0x10000
      then [0xE0 OR ucast (drop_bit 12 c), 0x80 OR (ucast (drop_bit 6 c) AND 0x3F), 0x80 OR (ucast c AND 0x3F)]
      else [0xF0 OR ucast (drop_bit 18 c), 0x80 OR (ucast (drop_bit 12 c) AND 0x3F),
            0x80 OR (ucast (drop_bit 6 c) AND 0x3F), 0x80 OR (ucast c AND 0x3F)])"

definition to_ascii_uppercase :: "u8 \<Rightarrow> u8" where
  "to_ascii_uppercase b = (if 97 \<le> b \<and> b \<le> 122 then b - 32 else b)"

definition split_dot :: "rust_string \<Rightarrow> rust_string \<times> rust_string" where
  "split_dot name =
     (takeWhile (\<lambda>c. c \<noteq> 46) name,
      case dropWhile (\<lambda>c. c \<noteq> 46) name of [] \<Rightarrow> [] | _ # rest \<Rightarrow> takeWhile (\<lambda>c. c \<noteq> 46) rest)"

definition name_buffer :: "nat \<Rightarrow> rust_string \<Rightarrow> u8 list" where
  "name_buffer n part =
     (let bs = map to_ascii_uppercase (take n (concat (map utf8_char part)))
      in bs @ replicate (n - length bs) 32)"

text \<open>\<open>DirectoryEntry::new\<close>: the two buffers are filled, but not stored in the entry.\<close>

definition directory_entry_new :: "rust_string \<Rightarrow> u8 \<Rightarrow> directory_entry option" where
  "directory_entry_new name attributes =
     (let short = de_set_attributes dir_entry_new attributes;
          name_buf = name_buffer 8 (fst (split_dot name));
          ext_buf = name_buffer 3 (snd (split_dot name))
      in case (date_new 2025 1 1, time_new 0 0 0 0) of
           (Some today, Some now) \<Rightarrow>
             (let today_now = \<lparr>dt_date = today, dt_time = now\<rparr>
              in case de_set_creation_datetime short today_now of
                   None \<Rightarrow> None
                 | Some e1 \<Rightarrow>
                     (case de_set_last_write_datetime (de_set_last_access_date e1 today) today_now of
                        None \<Rightarrow> None
                      | Some e2 \<Rightarrow> Some \<lparr>short_entry = e2, long_name = Some name\<rparr>))
         | _ \<Rightarrow> None)"

section \<open>What is written is read back\<close>

text \<open>The cursor stands on an entry of a cluster, and the cluster is in a chain.\<close>

definition dir_ready :: "directory \<Rightarrow> bool" where
  "dir_ready d \<longleftrightarrow> dir_offset d + DIR_ENTRY_SIZE \<le> dir_bpc d \<and> dir_bpc d < 2 ^ 32 \<and>
     (case fat_map (dir_fat d) (dir_cluster d) of Some (Next _) \<Rightarrow> True | Some EndOfChain \<Rightarrow> True | _ \<Rightarrow> False)"

lemma dir_advance_ready: "dir_ready d \<Longrightarrow> \<exists>d1. dir_advance d = (Inr (), d1) \<and> dir_fat d1 = dir_fat d \<and> dir_bpc d1 = dir_bpc d"
  by (auto simp: dir_ready_def dir_advance_def fat_map_def Let_def split: sum.splits fat_entry.splits)

lemma read_entry_data_ready:
  assumes "dir_ready d" "reads rd blk (dir_bpc d)"
  shows "\<exists>d1. read_entry_data rd d = (Inr (take 32 (drop (dir_offset d) (blk (dir_cluster d)))), d1)"
  using assms dir_advance_ready [OF assms(1)]
  by (auto simp: read_entry_data_def reads_def dir_ready_def DIR_ENTRY_SIZE_def)

lemma write_short_ready:
  assumes "dir_ready d" "writes wr blk (dir_bpc d)" "dir_entry_wf e"
  shows "\<exists>d1 dev1. write_short wr d e dev = (Inr (), d1, dev1) \<and>
    take 32 (drop (dir_offset d) (blk dev1 (dir_cluster d))) = dir_entry_bytes e \<and>
    blk dev1 = (blk dev)(dir_cluster d := overwrite (blk dev (dir_cluster d)) (dir_offset d) (dir_entry_bytes e))"
proof -
  note len = dir_entry_bytes_roundtrip(2) [OF assms(3)]
  have off: "dir_offset d + length (dir_entry_bytes e) \<le> dir_bpc d" using assms(1) len by (simp add: dir_ready_def DIR_ENTRY_SIZE_def)
  then obtain dev1 where w: "wr dev (dir_cluster d) (dir_offset d) (dir_entry_bytes e) = (Inr (), dev1)"
    "blk dev1 = (blk dev)(dir_cluster d := overwrite (blk dev (dir_cluster d)) (dir_offset d) (dir_entry_bytes e))"
    using assms(2) unfolding writes_def by blast
  have "length (blk dev (dir_cluster d)) = dir_bpc d" using assms(2) by (simp add: writes_def)
  then have "take 32 (drop (dir_offset d) (blk dev1 (dir_cluster d))) = dir_entry_bytes e"
    using w(2) off len by (simp add: overwrite_def)
  then show ?thesis using w dir_advance_ready [OF assms(1)] by (auto simp: write_short_def)
qed

section \<open>An example\<close>

text \<open>A directory at the start of the chain of the clusters 2 and 3, with two entries in a cluster.\<close>

definition dir_example :: directory where
  "dir_example = \<lparr>dir_fat = chain_example, dir_first = 2, dir_position = 0, dir_bpc = 64, dir_cluster = 2, dir_offset = 0\<rparr>"

definition entry_example :: dir_entry where
  "entry_example = dir_entry_new\<lparr>de_name := [84, 69, 83, 84, 32, 32, 32, 32], de_ext := [84, 88, 84], de_file_size := 12345\<rparr>"

lemma dir_example_ok: "dir_ready dir_example" "dir_bpc dir_example = 64" "dir_cluster dir_example = 2" "dir_offset dir_example = 0"
proof -
  have "fat_map chain_example 2 = Some (Next 3)" by code_simp
  then show "dir_ready dir_example" by (simp add: dir_ready_def dir_example_def DIR_ENTRY_SIZE_def)
qed (simp_all add: dir_example_def)

text \<open>
  C29. A short entry that is in use is read back as it was written: writing it at the cursor of a
  directory and reading at the same cursor returns the entry with every field, through the 32 bytes
  on the disk.
\<close>

theorem dir_entry_write_read:
  assumes "dir_ready d" "writes wr blk (dir_bpc d)" "\<And>dv. reads (rd dv) (blk dv) (dir_bpc d)"
    and "dir_entry_wf e" "de_is_valid e" "\<not> de_is_long_name e"
  shows "\<exists>d1 dev1 d2. write_entry wr d \<lparr>short_entry = e, long_name = None\<rparr> dev = Some (Inr (), d1, dev1) \<and>
    read_entry (rd dev1) d = Some (Inr (Some \<lparr>short_entry = e, long_name = None\<rparr>), d2)"
proof -
  obtain d1 dev1 where w: "write_short wr d e dev = (Inr (), d1, dev1)"
    "take 32 (drop (dir_offset d) (blk dev1 (dir_cluster d))) = dir_entry_bytes e"
    using write_short_ready [OF assms(1,2,4)] by blast
  obtain d2 where "read_entry_data (rd dev1) d = (Inr (dir_entry_bytes e), d2)"
    using read_entry_data_ready [OF assms(1) assms(3) [of dev1]] w(2) by auto
  then have "\<exists>d3. read_entry (rd dev1) d = Some (Inr (Some \<lparr>short_entry = e, long_name = None\<rparr>), d3)"
    using assms(5,6) dir_entry_bytes_roundtrip [OF assms(4)]
    by (subst read_entry.simps) (simp add: de_is_valid_def de_is_free_def de_is_deleted_def Let_def)
  then show ?thesis using w(1) by (auto simp: write_entry_def)
qed

theorem dir_entry_write_read_witness:
  "\<exists>d1 dev1 d2. write_entry (disk_write 64) dir_example \<lparr>short_entry = entry_example, long_name = None\<rparr> (\<lambda>_. []) = Some (Inr (), d1, dev1) \<and>
     read_entry (disk_read 64 dev1) dir_example = Some (Inr (Some \<lparr>short_entry = entry_example, long_name = None\<rparr>), d2)"
proof -
  have "dir_entry_wf entry_example" "de_is_valid entry_example" "\<not> de_is_long_name entry_example" by code_simp+
  then show ?thesis
    using dir_entry_write_read [of dir_example "disk_write 64" "disk_block 64" "disk_read 64" entry_example] dir_example_ok disk_ok by simp
qed

section \<open>Long names\<close>

text \<open>The loop over long name entries ends with an error or not at all.\<close>

lemma lfn_loop_result:
  assumes "lfn_loop rd bs ls d = Some (r, d')" "de_is_long_name (dir_entry_of_bytes bs)"
  shows "\<exists>err. r = Inl err"
proof -
  have "de_is_long_name (dir_entry_of_bytes bs) \<longrightarrow> (\<exists>err. fst (r, d') = Inl err)"
  proof (rule lfn_loop.raw_induct [OF _ assms(1), where P = "\<lambda>rd bs ls d y. de_is_long_name (dir_entry_of_bytes bs) \<longrightarrow> (\<exists>err. fst y = Inl err)"])
    fix f rd bs ls d y
    assume "\<And>rd bs ls d y. f rd bs ls d = Some y \<Longrightarrow> de_is_long_name (dir_entry_of_bytes bs) \<longrightarrow> (\<exists>err. fst y = Inl err)"
      and "(if \<not> lfn_is_last (last ls) then Some (Inl InvalidDirEntry, d)
            else case read_entry_data rd d of
              (Inl err, d1) \<Rightarrow> Some (Inl err, d1)
            | (Inr next_entry_data, d1) \<Rightarrow>
                (let next_entry = dir_entry_of_bytes bs
                 in if de_is_long_name next_entry then f rd bs (ls @ [lfn_of_bytes bs]) d1
                    else case build_long_filename ls of
                      Inl err \<Rightarrow> Some (Inl err, d1)
                    | Inr name \<Rightarrow> Some (Inr (Some \<lparr>short_entry = next_entry, long_name = Some name\<rparr>), d1))) = Some y"
    then show "de_is_long_name (dir_entry_of_bytes bs) \<longrightarrow> (\<exists>err. fst y = Inl err)"
      by (auto simp: Let_def split: if_splits prod.splits sum.splits)
  qed
  then show ?thesis using assms(2) by simp
qed

text \<open>
  C30. No entry with a long name is ever read: when the bytes at the cursor are a long name entry, a
  call of \<open>read_entry\<close> that returns has failed with an error, whatever the following entries are. The
  loop looks at the first entry again instead of the one it has just read.
\<close>

theorem read_entry_long_name:
  assumes "dir_ready d" "reads rd blk (dir_bpc d)"
    and "bs = take 32 (drop (dir_offset d) (blk (dir_cluster d)))"
    and "bs ! 0 \<noteq> END_OF_ENTRIES" "bs ! 0 \<noteq> DELETED_ENTRY" "de_is_long_name (dir_entry_of_bytes bs)"
    and "read_entry rd d = Some (r, d')"
  shows "\<exists>err. r = Inl err"
proof -
  obtain d1 where "read_entry_data rd d = (Inr bs, d1)"
    using read_entry_data_ready [OF assms(1,2)] assms(3) by auto
  then have "lfn_loop rd bs [lfn_of_bytes bs] d1 = Some (r, d')"
    using assms(4-7) by (subst (asm) read_entry.simps) simp
  then show ?thesis using assms(6) by (rule lfn_loop_result)
qed

theorem read_entry_long_name_witness:
  "\<exists>bs r d'. bs = take 32 (drop 0 (disk_block 64 (\<lambda>_. lfn_bytes (lfn_new 1 0 False)) 2)) \<and> de_is_long_name (dir_entry_of_bytes bs) \<and>
     read_entry (disk_read 64 (\<lambda>_. lfn_bytes (lfn_new 1 0 False))) dir_example = Some (r, d') \<and> (\<exists>err. r = Inl err)"
proof -
  let ?dev = "\<lambda>_ :: cluster. lfn_bytes (lfn_new 1 0 False)"
  define bs where "bs = take 32 (drop (dir_offset dir_example) (disk_block 64 ?dev (dir_cluster dir_example)))"
  have bs: "bs ! 0 \<noteq> END_OF_ENTRIES" "bs ! 0 \<noteq> DELETED_ENTRY" "de_is_long_name (dir_entry_of_bytes bs)" "\<not> lfn_is_last (lfn_of_bytes bs)"
    unfolding bs_def dir_example_ok by code_simp+
  have rd: "reads (disk_read 64 ?dev) (disk_block 64 ?dev) (dir_bpc dir_example)" using disk_ok(1) by (simp add: dir_example_ok)
  obtain d1 where "read_entry_data (disk_read 64 ?dev) dir_example = (Inr bs, d1)"
    using read_entry_data_ready [OF dir_example_ok(1) rd] bs_def by auto
  then have r: "read_entry (disk_read 64 ?dev) dir_example = Some (Inl InvalidDirEntry, d1)"
    using bs by (subst read_entry.simps) (simp add: lfn_loop.simps)
  show ?thesis using read_entry_long_name [OF dir_example_ok(1) rd bs_def bs(1-3) r] r bs(3) dir_example_ok bs_def by auto
qed

text \<open>
  C31. An entry made by \<open>DirectoryEntry::new\<close> marks the end of the directory: its short name is never
  filled in, so the entry is free, and once its short entry is on the disk a read at that place
  answers that the directory ends there.
\<close>

theorem directory_entry_new_ends_directory:
  assumes "directory_entry_new name attributes = Some e" "dir_ready d"
    and "writes wr blk (dir_bpc d)" "\<And>dv. reads (rd dv) (blk dv) (dir_bpc d)"
  shows "\<exists>d1 dev1 d2. write_short wr d (short_entry e) dev = (Inr (), d1, dev1) \<and>
    read_entry (rd dev1) d = Some (Inr None, d2)"
proof -
  have e: "de_name (short_entry e) = replicate 8 0" "de_ext (short_entry e) = replicate 3 0"
    using assms(1) by (auto simp: directory_entry_new_def Let_def de_set_creation_datetime_def de_set_last_write_datetime_def
        de_set_last_access_date_def de_set_attributes_def dir_entry_new_def split: option.splits prod.splits)
  then have wf: "dir_entry_wf (short_entry e)" by (simp add: dir_entry_wf_def)
  obtain d1 dev1 where w: "write_short wr d (short_entry e) dev = (Inr (), d1, dev1)"
    "take 32 (drop (dir_offset d) (blk dev1 (dir_cluster d))) = dir_entry_bytes (short_entry e)"
    using write_short_ready [OF assms(2,3) wf] by blast
  obtain d2 where "read_entry_data (rd dev1) d = (Inr (dir_entry_bytes (short_entry e)), d2)"
    using read_entry_data_ready [OF assms(2) assms(4) [of dev1]] w(2) by auto
  then have "read_entry (rd dev1) d = Some (Inr None, d2)"
    using dir_entry_bytes_roundtrip(3) [OF wf] e by (subst read_entry.simps) (simp add: END_OF_ENTRIES_def)
  then show ?thesis using w(1) by blast
qed

theorem directory_entry_new_ends_directory_witness:
  "\<exists>e d1 dev1 d2. directory_entry_new [97, 46, 98] 0 = Some e \<and>
     write_short (disk_write 64) dir_example (short_entry e) (\<lambda>_. []) = (Inr (), d1, dev1) \<and>
     read_entry (disk_read 64 dev1) dir_example = Some (Inr None, d2)"
proof -
  have "directory_entry_new [97, 46, 98] 0 \<noteq> None" by code_simp
  then obtain e where e: "directory_entry_new [97, 46, 98] 0 = Some e" by blast
  show ?thesis
    using directory_entry_new_ends_directory [OF e dir_example_ok(1), of "disk_write 64" "disk_block 64" "disk_read 64"] e dir_example_ok disk_ok by auto
qed

section \<open>Seeking to the border of a cluster\<close>

text \<open>
  A seek to the first entry after a cluster stops at the end of that cluster, where the next read is
  past its last byte, and does not move on to the next cluster of the chain.
\<close>

lemma dir_seek_border:
  assumes "dir_position d = 0" "dir_offset d = 0" "dir_bpc d = n * DIR_ENTRY_SIZE" "0 < n" "dir_bpc d < 2 ^ 32"
  shows "dir_seek d n = Some (Inr n, d\<lparr>dir_offset := dir_bpc d, dir_position := n\<rparr>)"
proof -
  have n: "n * 32 < 2 ^ 32" using assms(3,5) by (simp add: DIR_ENTRY_SIZE_def)
  then have "wrap_sub 64 n 0 = n" "wrap_add 64 0 n = n" "n * 32 mod 2 ^ 64 = n * 32" "wrap_add 32 0 (n * 32) = n * 32"
    by (simp_all add: wrap_sub_eq wrap_add_eq)
  moreover have "dir_seek_loop n 0 d' = Some (Inr (dir_position d'), d')" for d' by (subst dir_seek_loop.simps) simp
  ultimately show ?thesis using assms n
    by (simp add: dir_seek_def Let_def DIR_ENTRY_SIZE_def) (subst dir_seek_loop.simps, simp add: Let_def DIR_ENTRY_SIZE_def)
qed

end
