(* ===== verification/Queues.thy ===== *)
theory Queues
  imports Prelude
begin

text \<open>
  Queues of hyperdrive: the ring buffer (hyperdrive/src/queues/ring.rs) and the queue with sequence
  numbers (hyperdrive/src/queues/mpmc.rs), the latter as one thread runs it. The contract of both is
  the locale \<open>bounded_queue\<close>: a list of at most \<open>cap\<close> elements.

  The const parameter \<open>SIZE\<close> is the length of the buffer. A slot that is \<open>None\<close> is uninitialised;
  popping one is undefined behaviour, the value \<open>Undefined\<close> of the model.
\<close>

section \<open>The contract\<close>

datatype 'a popped = Popped 'a | Empty | Undefined

text \<open>
  The operations of a queue, and the calls of a client: \<open>Push v\<close> is \<open>try_push\<close>. The result of a call is
  \<open>Pushed\<close>, \<open>Full v\<close> (the error with the value that was not stored) or what \<open>pop\<close> returned.
\<close>

datatype 'a call = Push 'a | Pop

datatype 'a answer = Pushed | Full 'a | Got "'a popped"

fun list_call :: "nat \<Rightarrow> 'a list \<Rightarrow> 'a call \<Rightarrow> 'a answer \<times> 'a list" where
  "list_call cap xs (Push v) = (if length xs < cap then (Pushed, xs @ [v]) else (Full v, xs))"
| "list_call cap xs Pop = (case xs of [] \<Rightarrow> (Got Empty, []) | x # ys \<Rightarrow> (Got (Popped x), ys))"

fun run_calls :: "('q \<Rightarrow> 'a call \<Rightarrow> ('a answer \<times> 'q) option) \<Rightarrow> 'q \<Rightarrow> 'a call list \<Rightarrow> ('a answer list \<times> 'q) option" where
  "run_calls f q [] = Some ([], q)"
| "run_calls f q (c # cs) =
     (case f q c of
        None \<Rightarrow> None
      | Some (a, q1) \<Rightarrow> (case run_calls f q1 cs of None \<Rightarrow> None | Some (as, q2) \<Rightarrow> Some (a # as, q2)))"

fun list_run :: "nat \<Rightarrow> 'a list \<Rightarrow> 'a call list \<Rightarrow> 'a answer list \<times> 'a list" where
  "list_run cap xs [] = ([], xs)"
| "list_run cap xs (c # cs) =
     (let (a, ys) = list_call cap xs c; (as, zs) = list_run cap ys cs in (a # as, zs))"

text \<open>
  A queue is given by its call function. The invariant has a budget: the number of calls that are
  still possible before a counter of the implementation reaches its width.
\<close>

locale bounded_queue =
  fixes call :: "'q \<Rightarrow> 'a call \<Rightarrow> ('a answer \<times> 'q) option"
    and inv :: "nat \<Rightarrow> 'q \<Rightarrow> bool" and contents :: "'q \<Rightarrow> 'a list" and cap :: "'q \<Rightarrow> nat"
  assumes call_refines: "inv (Suc n) q \<Longrightarrow>
    \<exists>q'. call q c = Some (fst (list_call (cap q) (contents q) c), q') \<and> inv n q' \<and> cap q' = cap q \<and>
      contents q' = snd (list_call (cap q) (contents q) c)"
begin

lemma run_refines:
  assumes "inv (length cs) q"
  shows "\<exists>q'. run_calls call q cs = Some (fst (list_run (cap q) (contents q) cs), q') \<and>
    contents q' = snd (list_run (cap q) (contents q) cs) \<and> cap q' = cap q"
  using assms
proof (induction cs arbitrary: q)
  case Nil
  then show ?case by simp
next
  case (Cons c cs)
  obtain q1 where q1: "call q c = Some (fst (list_call (cap q) (contents q) c), q1)" "inv (length cs) q1" "cap q1 = cap q"
    "contents q1 = snd (list_call (cap q) (contents q) c)" using call_refines [of "length cs" q c] Cons.prems by auto
  from Cons.IH [OF q1(2)] q1(3,4) obtain q2 where
    "run_calls call q1 cs = Some (fst (list_run (cap q) (contents q1) cs), q2)"
    "contents q2 = snd (list_run (cap q) (contents q1) cs)" "cap q2 = cap q" by auto
  then show ?case using q1 by (auto simp: Let_def split_beta)
qed

end

section \<open>Ring buffer\<close>

record 'a ring =
  ring_buffer :: "'a option list"
  read_index :: nat
  write_index :: nat

definition ring_new :: "nat \<Rightarrow> 'a ring" where
  "ring_new n = \<lparr>ring_buffer = replicate n None, read_index = 0, write_index = 0\<rparr>"

definition ring_capacity :: "'a ring \<Rightarrow> nat" where
  "ring_capacity r = length (ring_buffer r)"

definition ring_len :: "'a ring \<Rightarrow> nat" where
  "ring_len r =
     (if write_index r \<ge> read_index r then write_index r - read_index r
      else ring_capacity r - read_index r + write_index r)"

definition ring_is_empty :: "'a ring \<Rightarrow> bool" where
  "ring_is_empty r \<longleftrightarrow> read_index r = write_index r"

definition next_write_index :: "'a ring \<Rightarrow> nat" where
  "next_write_index r = (write_index r + 1) mod ring_capacity r"

definition next_read_index :: "'a ring \<Rightarrow> nat" where
  "next_read_index r = (read_index r + 1) mod ring_capacity r"

definition ring_is_full :: "'a ring \<Rightarrow> bool" where
  "ring_is_full r \<longleftrightarrow> next_write_index r = read_index r"

definition ring_store :: "'a ring \<Rightarrow> 'a \<Rightarrow> 'a ring" where
  "ring_store r v = r\<lparr>ring_buffer := (ring_buffer r)[write_index r := Some v], write_index := next_write_index r\<rparr>"

text \<open>\<open>push\<close> panics (\<open>None\<close>) when the buffer is full.\<close>

definition ring_push :: "'a ring \<Rightarrow> 'a \<Rightarrow> 'a ring option" where
  "ring_push r v = (if next_write_index r = read_index r then None else Some (ring_store r v))"

definition ring_try_push :: "'a ring \<Rightarrow> 'a \<Rightarrow> ('a + unit) \<times> 'a ring" where
  "ring_try_push r v =
     (if next_write_index r = read_index r then (Inl v, r) else (Inr (), ring_store r v))"

definition ring_pop :: "'a ring \<Rightarrow> 'a popped \<times> 'a ring" where
  "ring_pop r =
     (if ring_is_empty r then (Empty, r)
      else (case ring_buffer r ! read_index r of
              Some v \<Rightarrow> (Popped v, r\<lparr>read_index := next_read_index r\<rparr>)
            | None \<Rightarrow> (Undefined, r\<lparr>read_index := next_read_index r\<rparr>)))"

text \<open>\<open>drop\<close> pops until the ring is empty, and drops what it popped.\<close>

partial_function (option) ring_drop :: "'a ring \<Rightarrow> 'a popped list \<Rightarrow> ('a popped list \<times> 'a ring) option" where
  "ring_drop r dropped =
     (case ring_pop r of
        (Empty, r1) \<Rightarrow> Some (dropped, r1)
      | (v, r1) \<Rightarrow> ring_drop r1 (dropped @ [v]))"

fun ring_call :: "'a ring \<Rightarrow> 'a call \<Rightarrow> ('a answer \<times> 'a ring) option" where
  "ring_call r (Push v) = (case ring_try_push r v of (Inl w, r1) \<Rightarrow> Some (Full w, r1) | (Inr _, r1) \<Rightarrow> Some (Pushed, r1))"
| "ring_call r Pop = (case ring_pop r of (p, r1) \<Rightarrow> Some (Got p, r1))"

subsection \<open>The list of a ring\<close>

definition ring_slot :: "'a ring \<Rightarrow> nat \<Rightarrow> 'a option" where
  "ring_slot r i = ring_buffer r ! ((read_index r + i) mod ring_capacity r)"

definition ring_contents :: "'a ring \<Rightarrow> 'a list" where
  "ring_contents r = map (\<lambda>i. the (ring_slot r i)) [0..<ring_len r]"

definition ring_inv :: "'a ring \<Rightarrow> bool" where
  "ring_inv r \<longleftrightarrow> read_index r < ring_capacity r \<and> write_index r < ring_capacity r \<and>
     (\<forall>i < ring_len r. ring_slot r i \<noteq> None)"

lemma ring_write_index:
  assumes "read_index r < ring_capacity r" "write_index r < ring_capacity r"
  shows "write_index r = (read_index r + ring_len r) mod ring_capacity r" "ring_len r < ring_capacity r"
  using assms by (auto simp: ring_len_def mod_if)

lemma ring_len_unique:
  assumes "read_index r < ring_capacity r" "write_index r = (read_index r + n) mod ring_capacity r" "n < ring_capacity r"
  shows "ring_len r = n"
  using assms by (auto simp: ring_len_def mod_if split: if_splits)

lemma mod_add_inj: "(a + i) mod n = (a + j) mod n \<Longrightarrow> a < n \<Longrightarrow> i < n \<Longrightarrow> j < n \<Longrightarrow> i = j" for i j n :: nat
  by (auto simp: mod_if split: if_splits)

lemma ring_full_iff:
  assumes "ring_inv r"
  shows "next_write_index r = read_index r \<longleftrightarrow> length (ring_contents r) = ring_capacity r - 1"
  using assms by (auto simp: ring_inv_def next_write_index_def ring_contents_def ring_len_def mod_if split: if_splits)

lemma ring_store_props:
  assumes inv: "ring_inv r" and room: "next_write_index r \<noteq> read_index r"
  shows "ring_inv (ring_store r v)" "ring_contents (ring_store r v) = ring_contents r @ [v]"
    "ring_capacity (ring_store r v) = ring_capacity r"
proof -
  let ?n = "ring_len r" and ?r = "ring_store r v"
  have b: "read_index r < ring_capacity r" "write_index r < ring_capacity r" using inv by (auto simp: ring_inv_def)
  note w = ring_write_index [OF b]
  show cap: "ring_capacity ?r = ring_capacity r" by (simp add: ring_store_def ring_capacity_def)
  have nw: "next_write_index r = (read_index r + Suc ?n) mod ring_capacity r"
    using w(1) by (simp add: next_write_index_def mod_Suc_eq)
  then have n: "Suc ?n < ring_capacity r" using room w(2) b(1) by (cases "Suc ?n = ring_capacity r") auto
  have len: "ring_len ?r = Suc ?n"
    by (rule ring_len_unique) (use b n nw cap in \<open>auto simp: ring_store_def\<close>)
  have slot: "ring_slot ?r i = (if i = ?n then Some v else ring_slot r i)" if "i < Suc ?n" for i
  proof -
    have "(read_index r + i) mod ring_capacity r = write_index r \<longleftrightarrow> i = ?n"
      using mod_add_inj [of "read_index r" i "ring_capacity r" ?n] that w b by auto
    then show ?thesis using b(2) cap by (auto simp: ring_slot_def ring_store_def ring_capacity_def)
  qed
  show "ring_inv ?r" using inv len slot cap b nw by (auto simp: ring_inv_def) (auto simp: ring_store_def)
  show "ring_contents ?r = ring_contents r @ [v]" using len slot by (simp add: ring_contents_def)
qed

lemma ring_pop_props:
  assumes inv: "ring_inv r" and ne: "\<not> ring_is_empty r"
  shows "\<exists>x r'. ring_pop r = (Popped x, r') \<and> ring_inv r' \<and> ring_contents r = x # ring_contents r' \<and> ring_capacity r' = ring_capacity r"
proof -
  let ?n = "ring_len r" and ?r = "r\<lparr>read_index := next_read_index r\<rparr>"
  have b: "read_index r < ring_capacity r" "write_index r < ring_capacity r" using inv by (auto simp: ring_inv_def)
  note w = ring_write_index [OF b]
  have n: "0 < ?n" using ne b by (auto simp: ring_is_empty_def ring_len_def split: if_splits)
  have cap: "ring_capacity ?r = ring_capacity r" by (simp add: ring_capacity_def)
  have ri: "read_index ?r = (read_index r + 1) mod ring_capacity r" by (simp add: next_read_index_def)
  have shift: "((read_index r + 1) mod ring_capacity r + i) mod ring_capacity r = (read_index r + Suc i) mod ring_capacity r" for i
    by (simp add: mod_add_left_eq)
  have len: "ring_len ?r = ?n - 1"
    by (rule ring_len_unique) (use b n w cap ri shift [of "?n - 1"] in auto)
  have slot: "ring_slot ?r i = ring_slot r (Suc i)" for i unfolding ring_slot_def ri cap shift by simp
  obtain x where x: "ring_slot r 0 = Some x" using inv n by (auto simp: ring_inv_def)
  have "[0..<?n] = 0 # map Suc [0..<?n - 1]" using n by (simp add: map_Suc_upt upt_conv_Cons)
  then have "ring_contents r = x # ring_contents ?r" using x len slot by (simp add: ring_contents_def)
  moreover have "ring_inv ?r" using inv len slot cap b by (auto simp: ring_inv_def next_read_index_def)
  moreover have "ring_pop r = (Popped x, ?r)" using ne x b(1) by (simp add: ring_pop_def ring_slot_def)
  ultimately show ?thesis using cap by blast
qed

lemma ring_empty_iff: "ring_inv r \<Longrightarrow> ring_is_empty r \<longleftrightarrow> ring_contents r = []"
  by (auto simp: ring_inv_def ring_is_empty_def ring_contents_def ring_len_def split: if_splits)

text \<open>Dropping a ring terminates and drops every element once, the oldest first.\<close>

lemma ring_drop_all:
  assumes "ring_inv r"
  shows "\<exists>r'. ring_drop r dropped = Some (dropped @ map Popped (ring_contents r), r') \<and> ring_is_empty r'"
  using assms
proof (induction "ring_contents r" arbitrary: r dropped)
  case Nil
  then have "ring_is_empty r" using ring_empty_iff [OF Nil.prems] by simp
  moreover from this have "ring_pop r = (Empty, r)" by (simp add: ring_pop_def)
  ultimately show ?case using Nil.hyps [symmetric] by (subst ring_drop.simps) simp
next
  case (Cons x xs)
  then have "\<not> ring_is_empty r" using ring_empty_iff [OF Cons.prems] Cons.hyps(2) [symmetric] by simp
  then obtain r1 where r1: "ring_pop r = (Popped x, r1)" "ring_inv r1" "ring_contents r1 = xs"
    using ring_pop_props [OF Cons.prems] Cons.hyps(2) by (metis list.inject)
  show ?case using Cons.hyps(1) [OF _ r1(2), of "dropped @ [Popped x]"] r1 Cons.hyps(2) [symmetric]
    by (subst ring_drop.simps) simp
qed

interpretation ring_queue: bounded_queue ring_call "\<lambda>_. ring_inv" ring_contents "\<lambda>r. ring_capacity r - 1"
proof
  fix n :: nat and r :: "'a ring" and c
  assume inv: "ring_inv r"
  show "\<exists>q'. ring_call r c = Some (fst (list_call (ring_capacity r - 1) (ring_contents r) c), q') \<and> ring_inv q' \<and>
    ring_capacity q' - 1 = ring_capacity r - 1 \<and> ring_contents q' = snd (list_call (ring_capacity r - 1) (ring_contents r) c)"
  proof (cases c)
    case (Push v)
    have "length (ring_contents r) < ring_capacity r"
      using inv ring_write_index(2) [of r] by (auto simp: ring_contents_def ring_inv_def)
    then have "(length (ring_contents r) < ring_capacity r - 1) \<longleftrightarrow> next_write_index r \<noteq> read_index r"
      using ring_full_iff [OF inv] by auto
    then show ?thesis using Push ring_store_props [OF inv] inv by (simp add: ring_try_push_def)
  next
    case Pop
    show ?thesis
    proof (cases "ring_is_empty r")
      case True
      then show ?thesis using Pop inv ring_empty_iff [OF inv] by (simp add: ring_pop_def)
    next
      case False
      then show ?thesis using Pop ring_pop_props [OF inv] by fastforce
    qed
  qed
qed

lemma ring_new_inv: "0 < n \<Longrightarrow> ring_inv (ring_new n)" "ring_contents (ring_new n) = []" "ring_capacity (ring_new n) = n"
  by (simp_all add: ring_inv_def ring_new_def ring_capacity_def ring_len_def ring_contents_def)

text \<open>
  C20. A ring buffer is a first-in first-out queue of \<open>SIZE - 1\<close> elements. Whatever calls of \<open>try_push\<close>
  and \<open>pop\<close> are made on a new ring, their results are those of the list, uninitialised memory is never
  read, and the elements left in the ring are those left in the list.
\<close>

theorem ring_refines_queue:
  assumes "0 < n"
  shows "\<exists>r. run_calls ring_call (ring_new n) cs = Some (fst (list_run (n - 1) [] cs), r) \<and>
    ring_contents r = snd (list_run (n - 1) [] cs)"
  using ring_queue.run_refines [of "ring_new n" cs] ring_new_inv(1) [OF assms] by (auto simp: ring_new_inv)

theorem ring_refines_queue_witness:
  "\<exists>r. run_calls ring_call (ring_new 3) [Push 1, Push 2, Push 3, Pop, Push 4, Pop, Pop, Pop]
     = Some ([Pushed, Pushed, Full 3, Got (Popped 1), Pushed, Got (Popped 2), Got (Popped (4 :: nat)), Got Empty], r)"
  using ring_refines_queue [of 3 "[Push 1, Push 2, Push 3, Pop, Push 4, Pop, Pop, Pop :: nat call]"] by auto

section \<open>Queue with sequence numbers\<close>

record 'a slot =
  sequence :: nat
  slot_value :: "'a option"

record 'a mpmc =
  mpmc_buffer :: "'a slot list"
  mpmc_read :: nat
  mpmc_write :: nat

definition slot_new :: "nat \<Rightarrow> 'a slot" where
  "slot_new n = \<lparr>sequence = n, slot_value = None\<rparr>"

definition slot_write :: "'a slot \<Rightarrow> 'a \<Rightarrow> nat \<Rightarrow> 'a slot" where
  "slot_write sl v pos = sl\<lparr>slot_value := Some v, sequence := wrap_add 64 pos 1\<rparr>"

text \<open>Reading moves the value out of the slot.\<close>

definition slot_read :: "nat \<Rightarrow> 'a slot \<Rightarrow> nat \<Rightarrow> 'a popped \<times> 'a slot" where
  "slot_read n sl pos =
     ((case slot_value sl of Some v \<Rightarrow> Popped v | None \<Rightarrow> Undefined),
      sl\<lparr>slot_value := None, sequence := wrap_add 64 pos n\<rparr>)"

text \<open>\<open>new\<close> panics (\<open>None\<close>) when the size is 0.\<close>

definition mpmc_new :: "nat \<Rightarrow> 'a mpmc option" where
  "mpmc_new n =
     (if n > 0 then Some \<lparr>mpmc_buffer = map slot_new [0..<n], mpmc_read = 0, mpmc_write = 0\<rparr> else None)"

definition mpmc_size :: "'a mpmc \<Rightarrow> nat" where
  "mpmc_size q = length (mpmc_buffer q)"

definition mpmc_slot :: "'a mpmc \<Rightarrow> nat \<Rightarrow> 'a slot" where
  "mpmc_slot q pos = mpmc_buffer q ! (pos mod mpmc_size q)"

partial_function (option) mpmc_push_loop :: "'a mpmc \<Rightarrow> 'a \<Rightarrow> nat \<Rightarrow> (('a + unit) \<times> 'a mpmc) option" where
  "mpmc_push_loop q v pos =
     (let sl = mpmc_slot q pos;
          seq = sequence sl
      in if seq = pos
         then if mpmc_write q = pos
              then Some (Inr (), q\<lparr>mpmc_write := wrap_add 64 pos 1,
                                   mpmc_buffer := (mpmc_buffer q)[pos mod mpmc_size q := slot_write sl v pos]\<rparr>)
              else mpmc_push_loop q v (mpmc_write q)
         else if seq < pos then Some (Inl v, q)
         else mpmc_push_loop q v (mpmc_write q))"

definition mpmc_try_push :: "'a mpmc \<Rightarrow> 'a \<Rightarrow> (('a + unit) \<times> 'a mpmc) option" where
  "mpmc_try_push q v = mpmc_push_loop q v (mpmc_write q)"

definition mpmc_push :: "'a mpmc \<Rightarrow> 'a \<Rightarrow> 'a mpmc option" where
  "mpmc_push q v = (case mpmc_try_push q v of Some (Inr _, q1) \<Rightarrow> Some q1 | _ \<Rightarrow> None)"

partial_function (option) mpmc_pop_loop :: "'a mpmc \<Rightarrow> nat \<Rightarrow> ('a popped \<times> 'a mpmc) option" where
  "mpmc_pop_loop q pos =
     (let sl = mpmc_slot q pos;
          seq = sequence sl;
          want = wrap_add 64 pos 1
      in if seq = want
         then if mpmc_read q = pos
              then (case slot_read (mpmc_size q) sl pos of
                      (v, sl1) \<Rightarrow> Some (v, q\<lparr>mpmc_read := wrap_add 64 pos 1,
                                             mpmc_buffer := (mpmc_buffer q)[pos mod mpmc_size q := sl1]\<rparr>))
              else mpmc_pop_loop q (mpmc_read q)
         else if seq < want then Some (Empty, q)
         else mpmc_pop_loop q (mpmc_read q))"

definition mpmc_pop :: "'a mpmc \<Rightarrow> ('a popped \<times> 'a mpmc) option" where
  "mpmc_pop q = mpmc_pop_loop q (mpmc_read q)"

definition mpmc_is_empty :: "'a mpmc \<Rightarrow> bool" where
  "mpmc_is_empty q \<longleftrightarrow> mpmc_read q = mpmc_write q"

fun mpmc_call :: "'a mpmc \<Rightarrow> 'a call \<Rightarrow> ('a answer \<times> 'a mpmc) option" where
  "mpmc_call q (Push v) =
     (case mpmc_try_push q v of
        None \<Rightarrow> None
      | Some (Inl w, q1) \<Rightarrow> Some (Full w, q1)
      | Some (Inr _, q1) \<Rightarrow> Some (Pushed, q1))"
| "mpmc_call q Pop = (case mpmc_pop q of None \<Rightarrow> None | Some (p, q1) \<Rightarrow> Some (Got p, q1))"

subsection \<open>The list of a queue\<close>

definition mpmc_contents :: "'a mpmc \<Rightarrow> 'a list" where
  "mpmc_contents q = map (\<lambda>p. the (slot_value (mpmc_slot q p))) [mpmc_read q..<mpmc_write q]"

text \<open>Slots between the indices are filled, the others wait for the write index to come round.\<close>

definition mpmc_inv :: "nat \<Rightarrow> 'a mpmc \<Rightarrow> bool" where
  "mpmc_inv n q \<longleftrightarrow> 2 \<le> mpmc_size q \<and> mpmc_read q \<le> mpmc_write q \<and> mpmc_write q \<le> mpmc_read q + mpmc_size q \<and>
     mpmc_write q + mpmc_size q + n < 2 ^ 64 \<and>
     (\<forall>p \<in> {mpmc_read q..<mpmc_write q}. sequence (mpmc_slot q p) = Suc p \<and> slot_value (mpmc_slot q p) \<noteq> None) \<and>
     (\<forall>p \<in> {mpmc_write q..<mpmc_read q + mpmc_size q}. sequence (mpmc_slot q p) = p)"

lemma window_inj:
  fixes a n :: nat
  assumes "p mod n = p' mod n" "a \<le> p" "p < a + n" "a \<le> p'" "p' < a + n"
  shows "p = p'"
proof -
  have "x = y" if "x \<le> y" "x mod n = y mod n" "a \<le> x" "y < a + n" for x y :: nat
  proof -
    have "n dvd y - x" using that(1,2) mod_eq_dvd_iff_nat [of x y n] by simp
    moreover have "y - x < n" using that by linarith
    ultimately show ?thesis using that(1) by (auto dest: nat_dvd_not_less)
  qed
  then show ?thesis using assms by (metis nat_le_linear)
qed

text \<open>Replacing the slot of position \<open>p\<close> leaves the other positions of a window alone.\<close>

lemma mpmc_slot_upd:
  assumes "0 < mpmc_size q" "a \<le> p" "p < a + mpmc_size q" "a \<le> p'" "p' < a + mpmc_size q"
  shows "(mpmc_buffer q)[p mod mpmc_size q := sl] ! (p' mod mpmc_size q) = (if p' = p then sl else mpmc_slot q p')"
proof -
  have "p mod mpmc_size q < length (mpmc_buffer q)" using assms(1) by (simp add: mpmc_size_def)
  then show ?thesis using window_inj [of p "mpmc_size q" p' a] assms by (auto simp: mpmc_slot_def nth_list_update)
qed

lemma mpmc_try_push_cases:
  "sequence (mpmc_slot q (mpmc_write q)) = mpmc_write q \<Longrightarrow>
     mpmc_try_push q v = Some (Inr (), q\<lparr>mpmc_write := wrap_add 64 (mpmc_write q) 1,
       mpmc_buffer := (mpmc_buffer q)[mpmc_write q mod mpmc_size q := slot_write (mpmc_slot q (mpmc_write q)) v (mpmc_write q)]\<rparr>)"
  "sequence (mpmc_slot q (mpmc_write q)) < mpmc_write q \<Longrightarrow> mpmc_try_push q v = Some (Inl v, q)"
  unfolding mpmc_try_push_def by (subst mpmc_push_loop.simps, simp add: Let_def)+

lemma mpmc_pop_cases:
  "sequence (mpmc_slot q (mpmc_read q)) = wrap_add 64 (mpmc_read q) 1 \<Longrightarrow> slot_value (mpmc_slot q (mpmc_read q)) = Some x \<Longrightarrow>
     mpmc_pop q = Some (Popped x, q\<lparr>mpmc_read := wrap_add 64 (mpmc_read q) 1,
       mpmc_buffer := (mpmc_buffer q)[mpmc_read q mod mpmc_size q :=
         (mpmc_slot q (mpmc_read q))\<lparr>slot_value := None, sequence := wrap_add 64 (mpmc_read q) (mpmc_size q)\<rparr>]\<rparr>)"
  "sequence (mpmc_slot q (mpmc_read q)) < wrap_add 64 (mpmc_read q) 1 \<Longrightarrow> mpmc_pop q = Some (Empty, q)"
  unfolding mpmc_pop_def by (subst mpmc_pop_loop.simps, simp add: Let_def slot_read_def)+

lemma mpmc_push_step:
  assumes inv: "mpmc_inv (Suc n) q"
  shows "\<exists>q'. mpmc_call q (Push v) = Some (fst (list_call (mpmc_size q) (mpmc_contents q) (Push v)), q') \<and> mpmc_inv n q' \<and>
    mpmc_size q' = mpmc_size q \<and> mpmc_contents q' = snd (list_call (mpmc_size q) (mpmc_contents q) (Push v))"
proof -
  let ?s = "mpmc_size q" and ?w = "mpmc_write q" and ?r = "mpmc_read q"
  have b: "2 \<le> ?s" "?r \<le> ?w" "?w \<le> ?r + ?s" "?w + ?s + Suc n < 2 ^ 64"
    and filled: "\<And>p. ?r \<le> p \<Longrightarrow> p < ?w \<Longrightarrow> sequence (mpmc_slot q p) = Suc p \<and> slot_value (mpmc_slot q p) \<noteq> None"
    and waiting: "\<And>p. ?w \<le> p \<Longrightarrow> p < ?r + ?s \<Longrightarrow> sequence (mpmc_slot q p) = p"
    using inv by (auto simp: mpmc_inv_def)
  have len: "length (mpmc_contents q) = ?w - ?r" by (simp add: mpmc_contents_def)
  show ?thesis
  proof (cases "?w < ?r + ?s")
    case True
    define q' where "q' = q\<lparr>mpmc_write := Suc ?w, mpmc_buffer := (mpmc_buffer q)[?w mod ?s := slot_write (mpmc_slot q ?w) v ?w]\<rparr>"
    have wrap: "wrap_add 64 ?w 1 = Suc ?w" using b(4) by (simp add: wrap_add_def)
    have call: "mpmc_call q (Push v) = Some (Pushed, q')"
      using waiting [of ?w] True wrap by (simp add: mpmc_try_push_cases(1) q'_def)
    have s': "mpmc_size q' = ?s" "mpmc_read q' = ?r" "mpmc_write q' = Suc ?w" by (simp_all add: q'_def mpmc_size_def)
    have slot: "mpmc_slot q' p = (if p = ?w then slot_write (mpmc_slot q ?w) v ?w else mpmc_slot q p)" if "?r \<le> p" "p < ?r + ?s" for p
      using mpmc_slot_upd [of q ?r ?w p "slot_write (mpmc_slot q ?w) v ?w"] b True that s'(1) by (simp add: mpmc_slot_def q'_def)
    have "mpmc_inv n q'" unfolding mpmc_inv_def s'
      using b True slot filled waiting wrap by (auto simp: slot_write_def less_Suc_eq)
    moreover have "mpmc_contents q' = mpmc_contents q @ [v]"
      unfolding mpmc_contents_def s' using b True slot by (simp add: slot_write_def)
    ultimately show ?thesis using call len True b s'(1) by auto
  next
    case False
    then have "?w mod ?s = ?r mod ?s" using b(3) by simp
    then have "mpmc_slot q ?w = mpmc_slot q ?r" by (simp add: mpmc_slot_def)
    then have "sequence (mpmc_slot q ?w) < ?w" using filled [of ?r] False b(1) by simp
    then have "mpmc_call q (Push v) = Some (Full v, q)" by (simp add: mpmc_try_push_cases(2))
    moreover have "mpmc_inv n q" using inv by (auto simp: mpmc_inv_def)
    ultimately show ?thesis using len False b(3) by auto
  qed
qed

lemma mpmc_pop_step:
  assumes inv: "mpmc_inv (Suc n) q"
  shows "\<exists>q'. mpmc_call q Pop = Some (fst (list_call (mpmc_size q) (mpmc_contents q) Pop), q') \<and> mpmc_inv n q' \<and>
    mpmc_size q' = mpmc_size q \<and> mpmc_contents q' = snd (list_call (mpmc_size q) (mpmc_contents q) Pop)"
proof -
  let ?s = "mpmc_size q" and ?w = "mpmc_write q" and ?r = "mpmc_read q"
  have b: "2 \<le> ?s" "?r \<le> ?w" "?w \<le> ?r + ?s" "?w + ?s + Suc n < 2 ^ 64"
    and filled: "\<And>p. ?r \<le> p \<Longrightarrow> p < ?w \<Longrightarrow> sequence (mpmc_slot q p) = Suc p \<and> slot_value (mpmc_slot q p) \<noteq> None"
    and waiting: "\<And>p. ?w \<le> p \<Longrightarrow> p < ?r + ?s \<Longrightarrow> sequence (mpmc_slot q p) = p"
    using inv by (auto simp: mpmc_inv_def)
  have wrap: "wrap_add 64 ?r 1 = Suc ?r" "wrap_add 64 ?r ?s = ?r + ?s" using b by (simp_all add: wrap_add_def)
  show ?thesis
  proof (cases "?r < ?w")
    case True
    obtain x where x: "slot_value (mpmc_slot q ?r) = Some x" using filled [of ?r] True by auto
    define sl where "sl = (mpmc_slot q ?r)\<lparr>slot_value := None, sequence := ?r + ?s\<rparr>"
    define q' where "q' = q\<lparr>mpmc_read := Suc ?r, mpmc_buffer := (mpmc_buffer q)[?r mod ?s := sl]\<rparr>"
    have call: "mpmc_call q Pop = Some (Got (Popped x), q')"
      using filled [of ?r] True wrap x by (simp add: mpmc_pop_cases(1) [of q x] q'_def sl_def)
    have s': "mpmc_size q' = ?s" "mpmc_read q' = Suc ?r" "mpmc_write q' = ?w" by (simp_all add: q'_def mpmc_size_def)
    have slot: "mpmc_slot q' p = (if p = ?r then sl else mpmc_slot q p)" if "?r \<le> p" "p < ?r + ?s" for p
      using mpmc_slot_upd [of q ?r ?r p sl] b that s'(1) by (simp add: mpmc_slot_def q'_def)
    have last: "mpmc_slot q' (?r + ?s) = sl" using slot [of ?r] b s'(1) by (simp add: mpmc_slot_def)
    have "mpmc_inv n q'" unfolding mpmc_inv_def s'
      using b True slot last filled waiting by (auto simp: less_Suc_eq sl_def)
    moreover have "[?r..<?w] = ?r # [Suc ?r..<?w]" using True by (simp add: upt_conv_Cons)
    then have "mpmc_contents q = x # mpmc_contents q'"
      unfolding mpmc_contents_def s' using b slot x by simp
    ultimately show ?thesis using call s'(1) by auto
  next
    case False
    then have "sequence (mpmc_slot q ?r) < Suc ?r" using waiting [of ?r] b by simp
    then have "mpmc_call q Pop = Some (Got Empty, q)" using wrap by (simp add: mpmc_pop_cases(2))
    moreover have "mpmc_contents q = []" using False by (simp add: mpmc_contents_def)
    moreover have "mpmc_inv n q" using inv by (auto simp: mpmc_inv_def)
    ultimately show ?thesis by auto
  qed
qed

interpretation mpmc_queue: bounded_queue mpmc_call mpmc_inv mpmc_contents mpmc_size
proof
  fix n and q :: "'a mpmc" and c
  assume "mpmc_inv (Suc n) q"
  then show "\<exists>q'. mpmc_call q c = Some (fst (list_call (mpmc_size q) (mpmc_contents q) c), q') \<and> mpmc_inv n q' \<and>
    mpmc_size q' = mpmc_size q \<and> mpmc_contents q' = snd (list_call (mpmc_size q) (mpmc_contents q) c)"
    by (cases c) (simp_all only: mpmc_push_step mpmc_pop_step)
qed

lemma mpmc_new_inv:
  assumes "2 \<le> s" "s + n < 2 ^ 64" "mpmc_new s = Some q"
  shows "mpmc_inv n q" "mpmc_contents q = []" "mpmc_size q = s"
proof -
  have q: "q = \<lparr>mpmc_buffer = map slot_new [0..<s], mpmc_read = 0, mpmc_write = 0\<rparr>"
    using assms(1,3) by (auto simp: mpmc_new_def split: if_splits)
  show "mpmc_inv n q" "mpmc_contents q = []" "mpmc_size q = s"
    using assms(1,2) by (auto simp: q mpmc_inv_def mpmc_size_def mpmc_slot_def slot_new_def mpmc_contents_def)
qed

text \<open>
  C21. With at least two slots, the queue with sequence numbers is a first-in first-out queue of \<open>SIZE\<close>
  elements: every call returns, with the result of the list, as long as the indices do not reach
  \<open>2 ^ 64\<close>.
\<close>

theorem mpmc_refines_queue:
  assumes "2 \<le> s" "s + length cs < 2 ^ 64" "mpmc_new s = Some q"
  shows "\<exists>q'. run_calls mpmc_call q cs = Some (fst (list_run s [] cs), q') \<and> mpmc_contents q' = snd (list_run s [] cs)"
  using mpmc_queue.run_refines [of cs q] mpmc_new_inv [OF assms] by auto

theorem mpmc_refines_queue_witness:
  "\<exists>q q'. mpmc_new 2 = Some q \<and> run_calls mpmc_call q [Push 1, Push 2, Push 3, Pop, Pop, Pop]
     = Some ([Pushed, Pushed, Full 3, Got (Popped 1), Got (Popped (2 :: nat)), Got Empty], q')"
proof -
  obtain q :: "nat mpmc" where q: "mpmc_new 2 = Some q" by (simp add: mpmc_new_def)
  show ?thesis using mpmc_refines_queue [OF _ _ q, of "[Push 1, Push 2, Push 3, Pop, Pop, Pop]"] q by auto
qed

text \<open>
  C36. With one slot, which the constructor allows, the queue is broken: a second push is accepted
  while the first element is still there and overwrites it, and the next \<open>pop\<close> never returns.
\<close>

theorem mpmc_size_one:
  assumes "mpmc_new 1 = Some q"
  shows "\<exists>q1 q2. mpmc_try_push q a = Some (Inr (), q1) \<and> mpmc_try_push q1 b = Some (Inr (), q2) \<and>
    mpmc_slot q2 0 = \<lparr>sequence = 2, slot_value = Some b\<rparr> \<and> mpmc_pop q2 = None"
proof -
  have q: "q = \<lparr>mpmc_buffer = [slot_new 0], mpmc_read = 0, mpmc_write = 0\<rparr>" using assms by (simp add: mpmc_new_def)
  define q1 q2 where "q1 = \<lparr>mpmc_buffer = [\<lparr>sequence = 1, slot_value = Some a\<rparr>], mpmc_read = 0, mpmc_write = 1\<rparr>"
    and "q2 = \<lparr>mpmc_buffer = [\<lparr>sequence = 2, slot_value = Some b\<rparr>], mpmc_read = 0, mpmc_write = 2\<rparr>"
  have "mpmc_try_push q a = Some (Inr (), q1)"
    using mpmc_try_push_cases(1) [of q a] by (simp add: q q1_def slot_new_def slot_write_def mpmc_slot_def mpmc_size_def wrap_add_def)
  moreover have "mpmc_try_push q1 b = Some (Inr (), q2)"
    using mpmc_try_push_cases(1) [of q1 b] by (simp add: q1_def q2_def slot_write_def mpmc_slot_def mpmc_size_def wrap_add_def)
  moreover have slot: "mpmc_slot q2 p = \<lparr>sequence = 2, slot_value = Some b\<rparr>" for p
    by (simp add: q2_def mpmc_slot_def mpmc_size_def)
  moreover have "mpmc_pop_loop q2 0 = None"
  proof (rule ccontr)
    assume "mpmc_pop_loop q2 0 \<noteq> None"
    then obtain y where y: "mpmc_pop_loop q2 0 = Some y" by blast
    have "q2 = q2 \<and> (0 :: nat) = 0 \<longrightarrow> False"
    proof (rule mpmc_pop_loop.raw_induct [OF _ y, where P = "\<lambda>q' p _. q' = q2 \<and> p = 0 \<longrightarrow> False"], intro impI)
      fix f :: "'a mpmc \<Rightarrow> nat \<Rightarrow> ('a popped \<times> 'a mpmc) option" and q' p y
      assume ih: "\<And>q' p y. f q' p = Some y \<Longrightarrow> q' = q2 \<and> p = 0 \<longrightarrow> False"
        and body: "(let sl = mpmc_slot q' p; seq = sequence sl; want = wrap_add 64 p 1
          in if seq = want
             then if mpmc_read q' = p
                  then (case slot_read (mpmc_size q') sl p of
                    (v, sl1) \<Rightarrow> Some (v, q'\<lparr>mpmc_read := wrap_add 64 p 1, mpmc_buffer := (mpmc_buffer q')[p mod mpmc_size q' := sl1]\<rparr>))
                  else f q' (mpmc_read q')
             else if seq < want then Some (Empty, q') else f q' (mpmc_read q')) = Some y" and at: "q' = q2 \<and> p = 0"
      have "mpmc_read q2 = 0" by (simp add: q2_def)
      then have "f q2 0 = Some y" using body slot at by (simp add: Let_def wrap_add_def)
      then show False using ih by blast
    qed
    then show False by simp
  qed
  then have "mpmc_pop q2 = None" by (simp add: mpmc_pop_def q2_def)
  ultimately show ?thesis by blast
qed

theorem mpmc_size_one_witness:
  "\<exists>q q1 q2. mpmc_new 1 = Some q \<and> mpmc_try_push q (7 :: nat) = Some (Inr (), q1) \<and> mpmc_try_push q1 8 = Some (Inr (), q2) \<and>
     mpmc_pop q2 = None"
proof -
  obtain q :: "nat mpmc" where q: "mpmc_new 1 = Some q" by (simp add: mpmc_new_def)
  show ?thesis using mpmc_size_one [OF q, of 7 8] q by auto
qed

end
