(* ===== verification/Interleave.thy ===== *)
theory Interleave
  imports Prelude "HOL-Library.Code_Target_Nat"
begin

text \<open>
  Programs of several threads. A system is a step function: \<open>step s e\<close> is the state after event \<open>e\<close>,
  one atomic operation of one thread, or \<open>None\<close> when the event cannot happen. Atomic operations are
  interleaved; reorderings that a weaker memory model allows are not modelled.
\<close>

inductive reachable :: "('s \<Rightarrow> 'e \<Rightarrow> 's option) \<Rightarrow> 's \<Rightarrow> 's \<Rightarrow> bool" for step s0 where
  reach_init: "reachable step s0 s0"
| reach_step: "reachable step s0 s \<Longrightarrow> step s e = Some s' \<Longrightarrow> reachable step s0 s'"

fun run_events :: "('s \<Rightarrow> 'e \<Rightarrow> 's option) \<Rightarrow> 's \<Rightarrow> 'e list \<Rightarrow> 's option" where
  "run_events step s [] = Some s"
| "run_events step s (e # es) = (case step s e of None \<Rightarrow> None | Some s' \<Rightarrow> run_events step s' es)"

lemma run_events_reachable:
  assumes "run_events step s es = Some s'" "reachable step s0 s"
  shows "reachable step s0 s'"
  using assms by (induction es arbitrary: s) (auto split: option.splits intro: reach_step)

text \<open>An invariant of a system holds in the first state and is kept by every step.\<close>

locale invariant_system =
  fixes step :: "'s \<Rightarrow> 'e \<Rightarrow> 's option" and s0 :: 's and inv :: "'s \<Rightarrow> bool"
  assumes init: "inv s0" and keep: "inv s \<Longrightarrow> step s e = Some s' \<Longrightarrow> inv s'"
begin

lemma reachable_inv: "reachable step s0 s \<Longrightarrow> inv s"
  by (induction rule: reachable.induct) (auto intro: init keep)

end

text \<open>The number of threads that stand at a place with property \<open>P\<close>.\<close>

definition threads_at :: "nat \<Rightarrow> (nat \<Rightarrow> 'p) \<Rightarrow> ('p \<Rightarrow> bool) \<Rightarrow> nat" where
  "threads_at n f P = card {t. t < n \<and> P (f t)}"

lemma threads_at_upd:
  assumes "t < n"
  shows "threads_at n (f(t := p)) P + (if P (f t) then 1 else 0) = threads_at n f P + (if P p then 1 else 0)"
proof -
  define A where "A = {x. x < n \<and> x \<noteq> t \<and> P (f x)}"
  have "finite A" "t \<notin> A" by (auto simp: A_def)
  moreover have "{x. x < n \<and> P ((f(t := p)) x)} = (if P p then insert t A else A)"
    "{x. x < n \<and> P (f x)} = (if P (f t) then insert t A else A)" using assms by (auto simp: A_def)
  ultimately show ?thesis by (simp only: threads_at_def card_insert_disjoint split: if_split) simp
qed

lemma threads_at_le: "threads_at n f P \<le> n"
  using card_mono [of "{..<n}" "{t. t < n \<and> P (f t)}"] by (auto simp: threads_at_def)

lemma threads_at_0: "threads_at n f P = 0 \<longleftrightarrow> (\<forall>t < n. \<not> P (f t))"
  by (auto simp: threads_at_def)

lemma threads_at_pos: "t < n \<Longrightarrow> P (f t) \<Longrightarrow> 0 < threads_at n f P"
  using threads_at_0 [of n f P] by auto

end
