(* ===== verification/Ticket_Lock.thy ===== *)
theory Ticket_Lock
  imports Interleave
begin

text \<open>
  The ticket lock of hyperdrive/src/locks/ticket.rs, run by \<open>n\<close> threads. It is compared with an
  abstract lock that keeps its waiting threads in a queue.
\<close>

record ticket_lock =
  next_ticket :: u32
  now_serving :: u32

text \<open>What a thread does: nothing, the loop of \<open>lock\<close> with its ticket, or it holds a guard.\<close>

datatype ticket_pc = TIdle | TWait u32 | THold

record ticket_sys =
  tk_lock :: ticket_lock
  tk_pc :: "nat \<Rightarrow> ticket_pc"

definition ticket_new :: ticket_lock where
  "ticket_new = \<lparr>next_ticket = 0, now_serving = 0\<rparr>"

definition ticket_take :: "ticket_lock \<Rightarrow> u32 \<times> ticket_lock" where
  "ticket_take l = (next_ticket l, l\<lparr>next_ticket := next_ticket l + 1\<rparr>)"

definition ticket_ready :: "ticket_lock \<Rightarrow> u32 \<Rightarrow> bool" where
  "ticket_ready l ticket \<longleftrightarrow> now_serving l = ticket"

definition ticket_drop :: "ticket_lock \<Rightarrow> ticket_lock" where
  "ticket_drop l = l\<lparr>now_serving := now_serving l + 1\<rparr>"

definition ticket_step :: "nat \<Rightarrow> ticket_sys \<Rightarrow> nat \<Rightarrow> ticket_sys option" where
  "ticket_step n s t =
     (if t < n
      then Some (case tk_pc s t of
                   TIdle \<Rightarrow> (case ticket_take (tk_lock s) of
                               (ticket, l) \<Rightarrow> s\<lparr>tk_lock := l, tk_pc := (tk_pc s)(t := TWait ticket)\<rparr>)
                 | TWait ticket \<Rightarrow>
                     (if ticket_ready (tk_lock s) ticket then s\<lparr>tk_pc := (tk_pc s)(t := THold)\<rparr> else s)
                 | THold \<Rightarrow> s\<lparr>tk_lock := ticket_drop (tk_lock s), tk_pc := (tk_pc s)(t := TIdle)\<rparr>)
      else None)"

definition ticket_init :: ticket_sys where
  "ticket_init = \<lparr>tk_lock = ticket_new, tk_pc = (\<lambda>_. TIdle)\<rparr>"

section \<open>A lock with a queue\<close>

text \<open>
  The threads that want the lock, in the order in which they came, and whether the first of them has
  it.
\<close>

type_synonym fifo = "nat list \<times> bool"

fun fifo_step :: "fifo \<Rightarrow> nat \<Rightarrow> fifo" where
  "fifo_step (q, held) t =
     (if t \<notin> set q then (q @ [t], held)
      else if t = hd q then (if held then (tl q, False) else (q, True))
      else (q, held))"

text \<open>The thread at place \<open>i\<close> of the queue has the \<open>i\<close>-th ticket after the one that is served.\<close>

definition ticket_rel :: "nat \<Rightarrow> ticket_sys \<Rightarrow> fifo \<Rightarrow> bool" where
  "ticket_rel n s a \<longleftrightarrow> (case a of (q, held) \<Rightarrow>
     distinct q \<and> set q = {t. tk_pc s t \<noteq> TIdle} \<and> set q \<subseteq> {..<n} \<and> (held \<longrightarrow> q \<noteq> []) \<and>
     next_ticket (tk_lock s) = now_serving (tk_lock s) + word_of_nat (length q) \<and>
     (\<forall>i < length q. tk_pc s (q ! i) = (if i = 0 \<and> held then THold else TWait (now_serving (tk_lock s) + word_of_nat i))))"

lemma word_of_nat_32_eq_0: "i < 2 ^ 32 \<Longrightarrow> (word_of_nat i :: u32) = 0 \<longleftrightarrow> i = 0"
  using word_of_nat_eq_0_iff [of i, where 'a = 32] by (auto dest: dvd_imp_le)

lemma ticket_rel_step:
  assumes n: "n \<le> 2 ^ 32" and rel: "ticket_rel n s (q, held)" and t: "t < n"
  shows "\<exists>s'. ticket_step n s t = Some s' \<and> ticket_rel n s' (fifo_step (q, held) t)"
proof -
  let ?l = "tk_lock s" and ?srv = "now_serving (tk_lock s)"
  have d: "distinct q" "set q = {t. tk_pc s t \<noteq> TIdle}" "set q \<subseteq> {..<n}" "held \<longrightarrow> q \<noteq> []"
    "next_ticket ?l = ?srv + word_of_nat (length q)"
    and pc: "\<And>i. i < length q \<Longrightarrow> tk_pc s (q ! i) = (if i = 0 \<and> held then THold else TWait (?srv + word_of_nat i))"
    using rel by (auto simp: ticket_rel_def)
  have len: "length q \<le> n" using card_mono [OF finite_lessThan d(3)] d(1) by (simp add: distinct_card)
  show ?thesis
  proof (cases "t \<in> set q")
    case False
    then have idle: "tk_pc s t = TIdle" using d(2) by auto
    define s' where "s' = s\<lparr>tk_lock := ?l\<lparr>next_ticket := next_ticket ?l + 1\<rparr>, tk_pc := (tk_pc s)(t := TWait (next_ticket ?l))\<rparr>"
    have "tk_pc s' ((q @ [t]) ! i) = (if i = 0 \<and> held then THold else TWait (?srv + word_of_nat i))" if "i < Suc (length q)" for i
    proof (cases "i < length q")
      case True
      then have "q ! i \<noteq> t" using False by (auto simp: in_set_conv_nth)
      then show ?thesis using pc [OF True] True by (simp add: s'_def nth_append)
    next
      case F: False
      then have "i = length q" using that by simp
      then show ?thesis using d(4,5) by (auto simp: s'_def)
    qed
    moreover have "set (q @ [t]) = {t. tk_pc s' t \<noteq> TIdle}" using d(2) by (auto simp: s'_def)
    ultimately have "ticket_rel n s' (q @ [t], held)"
      using d False t by (auto simp: ticket_rel_def s'_def)
    moreover have "ticket_step n s t = Some s'" using t idle by (simp add: ticket_step_def ticket_take_def s'_def)
    ultimately show ?thesis using False by auto
  next
    case True
    then obtain i where i: "i < length q" "t = q ! i" by (auto simp: in_set_conv_nth)
    have hd: "t = hd q \<longleftrightarrow> i = 0" using i d(1) by (cases q) (auto simp: nth_Cons' split: if_splits)
    have ready: "?srv + word_of_nat i = ?srv \<longleftrightarrow> i = 0"
      using word_of_nat_32_eq_0 [of i] i(1) len n by (simp add: add_cancel_right_right)
    show ?thesis
    proof (cases "i = 0")
      case first: True
      then obtain r where q: "q = t # r" using i by (cases q) auto
      show ?thesis
      proof (cases held)
        case True
        define s' where "s' = s\<lparr>tk_lock := ?l\<lparr>now_serving := ?srv + 1\<rparr>, tk_pc := (tk_pc s)(t := TIdle)\<rparr>"
        have "tk_pc s' (r ! j) = TWait (?srv + 1 + word_of_nat j)" if "j < length r" for j
        proof -
          have "r ! j \<noteq> t" using d(1) q that by (auto simp: in_set_conv_nth)
          then show ?thesis using pc [of "Suc j"] that q by (simp add: s'_def add_ac)
        qed
        moreover have "set r = {t. tk_pc s' t \<noteq> TIdle}" using d(1,2) q by (auto simp: s'_def)
        moreover have "distinct r" "set r \<subseteq> {..<n}" "next_ticket (tk_lock s') = now_serving (tk_lock s') + word_of_nat (length r)"
          "now_serving (tk_lock s') = ?srv + 1" using d(1,3,5) q by (simp_all add: s'_def add_ac)
        ultimately have "ticket_rel n s' (r, False)" unfolding ticket_rel_def by simp
        moreover have "ticket_step n s t = Some s'"
          using t pc [OF i(1)] i first True by (simp add: ticket_step_def ticket_drop_def s'_def)
        ultimately show ?thesis using True q by auto
      next
        case False
        define s' where "s' = s\<lparr>tk_pc := (tk_pc s)(t := THold)\<rparr>"
        have "tk_pc s' (q ! j) = (if j = 0 then THold else TWait (?srv + word_of_nat j))" if "j < length q" for j
        proof -
          have "q ! j = t \<longleftrightarrow> j = 0" using d(1) i that first by (metis nth_eq_iff_index_eq)
          then show ?thesis using pc [OF that] False by (simp add: s'_def)
        qed
        moreover have "set q = {t. tk_pc s' t \<noteq> TIdle}" using d(2) q by (auto simp: s'_def)
        ultimately have "ticket_rel n s' (q, True)" using d q by (simp add: ticket_rel_def s'_def)
        moreover have "ticket_step n s t = Some s'"
          using t pc [OF i(1)] i first False ready by (simp add: ticket_step_def ticket_ready_def s'_def)
        ultimately show ?thesis using False True hd first by auto
      qed
    next
      case False
      then have "ticket_step n s t = Some s"
        using t pc [OF i(1)] i ready by (simp add: ticket_step_def ticket_ready_def)
      then show ?thesis using rel True hd False by auto
    qed
  qed
qed

lemma ticket_rel_init: "ticket_rel n ticket_init ([], False)"
  by (simp add: ticket_rel_def ticket_init_def ticket_new_def)

text \<open>What the relation says of a thread.\<close>

lemma ticket_rel_pc:
  assumes "ticket_rel n s (q, held)"
  shows "tk_pc s t = THold \<longleftrightarrow> held \<and> t = hd q" "tk_pc s t = TIdle \<longleftrightarrow> t \<notin> set q"
proof -
  have d: "set q = {t. tk_pc s t \<noteq> TIdle}" "held \<longrightarrow> q \<noteq> []"
    and pc: "\<And>i. i < length q \<Longrightarrow> tk_pc s (q ! i) = (if i = 0 \<and> held then THold else TWait (now_serving (tk_lock s) + word_of_nat i))"
    using assms by (auto simp: ticket_rel_def)
  show "tk_pc s t = TIdle \<longleftrightarrow> t \<notin> set q" using d(1) by auto
  show "tk_pc s t = THold \<longleftrightarrow> held \<and> t = hd q"
  proof
    assume h: "tk_pc s t = THold"
    then have "t \<in> set q" using d(1) by simp
    then obtain i where "i < length q" "q ! i = t" by (auto simp: in_set_conv_nth)
    then show "held \<and> t = hd q" using pc [of i] h by (cases q) (auto split: if_splits)
  next
    assume "held \<and> t = hd q"
    then show "tk_pc s t = THold" using pc [of 0] d(2) by (auto simp: hd_conv_nth)
  qed
qed

section \<open>Schedules\<close>

text \<open>A schedule says which thread, if any, does its next atomic operation at each time.\<close>

fun ticket_run :: "nat \<Rightarrow> (nat \<Rightarrow> nat option) \<Rightarrow> nat \<Rightarrow> ticket_sys" where
  "ticket_run n sch 0 = ticket_init"
| "ticket_run n sch (Suc i) =
     (case sch i of
        None \<Rightarrow> ticket_run n sch i
      | Some t \<Rightarrow> (case ticket_step n (ticket_run n sch i) t of None \<Rightarrow> ticket_run n sch i | Some s \<Rightarrow> s))"

fun fifo_run :: "(nat \<Rightarrow> nat option) \<Rightarrow> nat \<Rightarrow> fifo" where
  "fifo_run sch 0 = ([], False)"
| "fifo_run sch (Suc i) = (case sch i of None \<Rightarrow> fifo_run sch i | Some t \<Rightarrow> fifo_step (fifo_run sch i) t)"

definition schedule_of :: "nat \<Rightarrow> (nat \<Rightarrow> nat option) \<Rightarrow> bool" where
  "schedule_of n sch \<longleftrightarrow> (\<forall>i t. sch i = Some t \<longrightarrow> t < n)"

text \<open>A thread that waits for the lock or holds it is scheduled again: in particular, guards are dropped.\<close>

definition fair :: "nat \<Rightarrow> (nat \<Rightarrow> nat option) \<Rightarrow> bool" where
  "fair n sch \<longleftrightarrow> (\<forall>i t. tk_pc (ticket_run n sch i) t \<noteq> TIdle \<longrightarrow> (\<exists>j \<ge> i. sch j = Some t))"

lemma run_rel:
  assumes "n \<le> 2 ^ 32" "schedule_of n sch"
  shows "ticket_rel n (ticket_run n sch i) (fifo_run sch i)"
proof (induction i)
  case 0
  then show ?case by (simp add: ticket_rel_init)
next
  case (Suc i)
  obtain q held where q: "fifo_run sch i = (q, held)" by fastforce
  show ?case
  proof (cases "sch i")
    case None
    then show ?thesis using Suc by simp
  next
    case (Some t)
    then have "t < n" using assms(2) by (simp add: schedule_of_def)
    then obtain s' where "ticket_step n (ticket_run n sch i) t = Some s'" "ticket_rel n s' (fifo_step (q, held) t)"
      using ticket_rel_step [OF assms(1)] Suc q by metis
    then show ?thesis using Some q by simp
  qed
qed

lemma fifo_run_stable:
  assumes "fifo_run sch i = (q, held)" "q \<noteq> []" "i \<le> j" "\<And>k. i \<le> k \<Longrightarrow> k < j \<Longrightarrow> sch k \<noteq> Some (hd q)"
  shows "\<exists>r. fifo_run sch j = (q @ r, held)"
  using assms(3,4)
proof (induction j rule: nat_induct_at_least)
  case base
  then show ?case using assms(1) by simp
next
  case (Suc j)
  then obtain r where r: "fifo_run sch j = (q @ r, held)" by auto
  show ?case
  proof (cases "sch j")
    case None
    then show ?thesis using r by simp
  next
    case (Some t)
    then have "t \<noteq> hd (q @ r)" using Suc.prems [of j] Suc.hyps assms(2) by simp
    then show ?thesis using r Some by auto
  qed
qed

lemma fifo_eventually:
  assumes fair: "\<And>i t. t \<in> set (fst (fifo_run sch i)) \<Longrightarrow> \<exists>j \<ge> i. sch j = Some t"
    and "fifo_run sch i = (q, held)" "p < length q"
  shows "\<exists>j \<ge> i. snd (fifo_run sch j) \<and> hd (fst (fifo_run sch j)) = q ! p"
  using assms(2,3)
proof (induction "2 * p + (if held then 0 else 1)" arbitrary: i q held p rule: less_induct)
  case less
  show ?case
  proof (cases "p = 0 \<and> held")
    case True
    then show ?thesis using less.prems by (intro exI [of _ i]) (auto simp: hd_conv_nth)
  next
    case False
    have ne: "q \<noteq> []" using less.prems(2) by auto
    then have ex: "\<exists>j. i \<le> j \<and> sch j = Some (hd q)" using fair [of "hd q" i] less.prems(1) by auto
    define j where "j = (LEAST j. i \<le> j \<and> sch j = Some (hd q))"
    have j: "i \<le> j" "sch j = Some (hd q)" using LeastI_ex [OF ex] by (auto simp: j_def)
    have "sch k \<noteq> Some (hd q)" if "i \<le> k" "k < j" for k using not_less_Least [of k] that unfolding j_def by blast
    then obtain r where r: "fifo_run sch j = (q @ r, held)" using fifo_run_stable [OF less.prems(1) ne j(1)] by blast
    show ?thesis
    proof (cases held)
      case True
      then have p: "0 < p" using False by simp
      have "fifo_run sch (Suc j) = (tl q @ r, False)" using r j(2) True ne by auto
      moreover have "p - 1 < length (tl q @ r)" "(tl q @ r) ! (p - 1) = q ! p"
        using p less.prems(2) by (auto simp: nth_append nth_tl)
      moreover have "2 * (p - 1) + (if False then 0 else 1) < 2 * p + (if held then 0 else 1)" using p True by simp
      ultimately obtain j' where "j' \<ge> Suc j" "snd (fifo_run sch j') \<and> hd (fst (fifo_run sch j')) = q ! p"
        using less.hyps [of "p - 1" False "Suc j" "tl q @ r"] by auto
      then show ?thesis using j(1) by (intro exI [of _ j']) simp
    next
      case F: False
      have "fifo_run sch (Suc j) = (q @ r, True)" using r j(2) F ne by auto
      moreover have "p < length (q @ r)" "(q @ r) ! p = q ! p" using less.prems(2) by (auto simp: nth_append)
      moreover have "2 * p + (if True then 0 else 1) < 2 * p + (if held then 0 else 1)" using F by simp
      ultimately obtain j' where "j' \<ge> Suc j" "snd (fifo_run sch j') \<and> hd (fst (fifo_run sch j')) = q ! p"
        using less.hyps [of p True "Suc j" "q @ r"] by auto
      then show ?thesis using j(1) by (intro exI [of _ j']) simp
    qed
  qed
qed

section \<open>Properties\<close>

interpretation ticket: invariant_system "ticket_step n" ticket_init "\<lambda>s. n \<le> 2 ^ 32 \<longrightarrow> (\<exists>q held. ticket_rel n s (q, held))" for n
proof
  show "n \<le> 2 ^ 32 \<longrightarrow> (\<exists>q held. ticket_rel n ticket_init (q, held))" using ticket_rel_init by blast
next
  fix s t s'
  assume inv: "n \<le> 2 ^ 32 \<longrightarrow> (\<exists>q held. ticket_rel n s (q, held))" and st: "ticket_step n s t = Some s'"
  show "n \<le> 2 ^ 32 \<longrightarrow> (\<exists>q held. ticket_rel n s' (q, held))"
  proof
    assume n: "n \<le> 2 ^ 32"
    then obtain q held where rel: "ticket_rel n s (q, held)" using inv by blast
    have "t < n" using st by (simp add: ticket_step_def split: if_splits)
    then have "ticket_rel n s' (fifo_step (q, held) t)" using ticket_rel_step [OF n rel, of t] st by auto
    then show "\<exists>q held. ticket_rel n s' (q, held)" by (cases "fifo_step (q, held) t") auto
  qed
qed

text \<open>
  C9. The ticket lock excludes: with at most \<open>2 ^ 32\<close> threads, however their operations interleave and
  although the tickets wrap around, at most one thread holds a guard.
\<close>

theorem ticket_mutual_exclusion:
  assumes "n \<le> 2 ^ 32" "reachable (ticket_step n) ticket_init s" "tk_pc s t = THold" "tk_pc s t' = THold"
  shows "t = t'"
  using ticket.reachable_inv [OF assms(2)] assms(1,3,4) ticket_rel_pc(1) by metis

theorem ticket_mutual_exclusion_witness:
  "\<exists>s. reachable (ticket_step 2) ticket_init s \<and> tk_pc s 1 = THold \<and> (\<forall>t'. tk_pc s t' = THold \<longleftrightarrow> t' = 1)"
proof -
  obtain s where s: "run_events (ticket_step 2) ticket_init [0, 1, 0, 1, 0, 1] = Some s" "tk_pc s 1 = THold"
    by (simp add: ticket_step_def ticket_init_def ticket_new_def ticket_take_def ticket_ready_def ticket_drop_def)
  have r: "reachable (ticket_step 2) ticket_init s" using run_events_reachable [OF s(1)] by (simp add: reach_init)
  have "t' = 1" if "tk_pc s t' = THold" for t'
    by (rule ticket_mutual_exclusion [OF _ r that s(2)]) simp
  then show ?thesis using r s(2) by (intro exI [of _ s]) blast
qed

text \<open>
  C10. The ticket lock is fair: it is the lock with a queue. At every moment of every schedule, the
  thread that holds the lock is the one that the queue lock has at its head, and the threads that
  want it are those in the queue, in the order in which they called \<open>lock\<close>.
\<close>

theorem ticket_refines_fifo:
  assumes "n \<le> 2 ^ 32" "schedule_of n sch"
  shows "(tk_pc (ticket_run n sch i) t = THold \<longleftrightarrow> snd (fifo_run sch i) \<and> t = hd (fst (fifo_run sch i))) \<and>
    (tk_pc (ticket_run n sch i) t = TIdle \<longleftrightarrow> t \<notin> set (fst (fifo_run sch i)))"
  using run_rel [OF assms, of i] ticket_rel_pc [of n "ticket_run n sch i"] by (cases "fifo_run sch i") auto

theorem ticket_refines_fifo_witness:
  "tk_pc (ticket_run 3 (\<lambda>i. Some (i mod 3)) 4) 0 = THold \<and> fst (fifo_run (\<lambda>i. Some (i mod 3)) 4) = [0, 1, 2]"
proof -
  have "fifo_run (\<lambda>i. Some (i mod 3)) 4 = ([0, 1, 2], True)" by code_simp
  then show ?thesis using ticket_refines_fifo [of 3 "\<lambda>i. Some (i mod 3)" 4 0] by (simp add: schedule_of_def)
qed

text \<open>
  C3. No thread starves: on every fair schedule, a thread that has taken a ticket eventually holds the
  lock.
\<close>

theorem ticket_no_starvation:
  assumes "n \<le> 2 ^ 32" "schedule_of n sch" "fair n sch" "tk_pc (ticket_run n sch i) t \<noteq> TIdle"
  shows "\<exists>j \<ge> i. tk_pc (ticket_run n sch j) t = THold"
proof -
  have pc: "tk_pc (ticket_run n sch i) t = THold \<longleftrightarrow> snd (fifo_run sch i) \<and> t = hd (fst (fifo_run sch i))"
    "tk_pc (ticket_run n sch i) t = TIdle \<longleftrightarrow> t \<notin> set (fst (fifo_run sch i))" for i t
    using run_rel [OF assms(1,2), of i] ticket_rel_pc [of n "ticket_run n sch i"] by (cases "fifo_run sch i"; auto)+
  then have fair: "\<exists>j \<ge> i. sch j = Some t" if "t \<in> set (fst (fifo_run sch i))" for i t
    using assms(3) that unfolding fair_def by blast
  obtain q held where q: "fifo_run sch i = (q, held)" by fastforce
  then obtain p where p: "p < length q" "q ! p = t" using assms(4) pc(2) by (auto simp: in_set_conv_nth)
  from fifo_eventually [OF fair q p(1)] obtain j where "j \<ge> i" "snd (fifo_run sch j)" "hd (fst (fifo_run sch j)) = t"
    using p(2) by auto
  then show ?thesis using pc(1) [of j t] by auto
qed

theorem ticket_no_starvation_witness:
  "\<exists>j \<ge> 2. tk_pc (ticket_run 2 (\<lambda>i. Some (i mod 2)) j) 1 = THold"
proof -
  let ?sch = "\<lambda>i. Some (i mod 2)"
  have sch: "schedule_of 2 ?sch" by (simp add: schedule_of_def)
  have "fair 2 ?sch" unfolding fair_def
  proof (intro allI impI)
    fix i t assume "tk_pc (ticket_run 2 ?sch i) t \<noteq> TIdle"
    moreover have "ticket_rel 2 (ticket_run 2 ?sch i) (fifo_run ?sch i)" using run_rel [OF _ sch] by simp
    ultimately have "t < 2" by (auto simp: ticket_rel_def split: prod.splits)
    then show "\<exists>j \<ge> i. ?sch j = Some t" by (intro exI [of _ "2 * i + t"]) auto
  qed
  moreover have "tk_pc (ticket_run 2 ?sch 2) 1 \<noteq> TIdle"
    by code_simp
  ultimately show ?thesis using ticket_no_starvation [OF _ sch] by simp
qed

end
