(* ===== verification/Rw_Lock.thy ===== *)
theory Rw_Lock
  imports Interleave
begin

text \<open>
  The read-write lock of hyperdrive/src/locks/rw.rs, run by \<open>n\<close> threads. Every atomic operation of
  \<open>AtomicState\<close> is a step. A thread holds at most one guard at a time: one that asks for a second guard
  while it holds the first counts as two threads.
\<close>

record rw_state =
  readers :: u32
  writer :: bool

text \<open>
  Where a thread stands. In \<open>read_lock\<close>: the loop on the writer flag, the increment, the second look at
  the flag, the decrement after it was found set. In \<open>write_lock\<close>: the exchange of the flag and the
  loop on the readers. \<open>Reading\<close> and \<open>Writing\<close> are threads with a guard.
\<close>

datatype rw_pc = RwIdle | RWait | RInc | RCheck | RDec | Reading | WAcquire | WDrain | Writing

record rw_sys =
  rw_lock :: rw_state
  rw_pc_of :: "nat \<Rightarrow> rw_pc"

definition rw_new :: rw_state where
  "rw_new = \<lparr>readers = 0, writer = False\<rparr>"

definition rw_goto :: "rw_sys \<Rightarrow> nat \<Rightarrow> rw_pc \<Rightarrow> rw_sys" where
  "rw_goto s t p = s\<lparr>rw_pc_of := (rw_pc_of s)(t := p)\<rparr>"

definition read_lock_step :: "rw_sys \<Rightarrow> nat \<Rightarrow> rw_sys" where
  "read_lock_step s t =
     (case rw_pc_of s t of
        RWait \<Rightarrow> if writer (rw_lock s) then s else rw_goto s t RInc
      | RInc \<Rightarrow> rw_goto (s\<lparr>rw_lock := (rw_lock s)\<lparr>readers := readers (rw_lock s) + 1\<rparr>\<rparr>) t RCheck
      | RCheck \<Rightarrow> if writer (rw_lock s) then rw_goto s t RDec else rw_goto s t Reading
      | RDec \<Rightarrow> rw_goto (s\<lparr>rw_lock := (rw_lock s)\<lparr>readers := readers (rw_lock s) - 1\<rparr>\<rparr>) t RWait
      | _ \<Rightarrow> s)"

definition read_unlock :: "rw_sys \<Rightarrow> nat \<Rightarrow> rw_sys" where
  "read_unlock s t = rw_goto (s\<lparr>rw_lock := (rw_lock s)\<lparr>readers := readers (rw_lock s) - 1\<rparr>\<rparr>) t RwIdle"

definition write_lock_step :: "rw_sys \<Rightarrow> nat \<Rightarrow> rw_sys" where
  "write_lock_step s t =
     (case rw_pc_of s t of
        WAcquire \<Rightarrow> if writer (rw_lock s) then s
                    else rw_goto (s\<lparr>rw_lock := (rw_lock s)\<lparr>writer := True\<rparr>\<rparr>) t WDrain
      | WDrain \<Rightarrow> if readers (rw_lock s) \<noteq> 0 then s else rw_goto s t Writing
      | _ \<Rightarrow> s)"

definition write_unlock :: "rw_sys \<Rightarrow> nat \<Rightarrow> rw_sys" where
  "write_unlock s t = rw_goto (s\<lparr>rw_lock := (rw_lock s)\<lparr>writer := False\<rparr>\<rparr>) t RwIdle"

text \<open>An event is a thread with, for an idle thread, the method it calls: \<open>write\<close> or \<open>read\<close>.\<close>

definition rw_step :: "nat \<Rightarrow> rw_sys \<Rightarrow> nat \<times> bool \<Rightarrow> rw_sys option" where
  "rw_step n s e =
     (case e of (t, write) \<Rightarrow>
        if t < n
        then Some (case rw_pc_of s t of
                     RwIdle \<Rightarrow> rw_goto s t (if write then WAcquire else RWait)
                   | Reading \<Rightarrow> read_unlock s t
                   | Writing \<Rightarrow> write_unlock s t
                   | WAcquire \<Rightarrow> write_lock_step s t
                   | WDrain \<Rightarrow> write_lock_step s t
                   | _ \<Rightarrow> read_lock_step s t)
        else None)"

definition rw_init :: rw_sys where
  "rw_init = \<lparr>rw_lock = rw_new, rw_pc_of = (\<lambda>_. RwIdle)\<rparr>"

section \<open>The invariant\<close>

definition counted :: "rw_pc \<Rightarrow> bool" where
  "counted p \<longleftrightarrow> p \<in> {RCheck, RDec, Reading}"

definition owner :: "rw_pc \<Rightarrow> bool" where
  "owner p \<longleftrightarrow> p \<in> {WDrain, Writing}"

text \<open>
  The counter is the number of threads that have incremented it; the flag is set while one thread owns
  it; nobody reads while somebody writes.
\<close>

definition rw_inv :: "nat \<Rightarrow> rw_sys \<Rightarrow> bool" where
  "rw_inv n s \<longleftrightarrow> (\<forall>t \<ge> n. rw_pc_of s t = RwIdle) \<and>
     readers (rw_lock s) = word_of_nat (threads_at n (rw_pc_of s) counted) \<and>
     (writer (rw_lock s) \<longleftrightarrow> (\<exists>t. owner (rw_pc_of s t))) \<and>
     (\<forall>t t'. owner (rw_pc_of s t) \<longrightarrow> owner (rw_pc_of s t') \<longrightarrow> t = t') \<and>
     (\<forall>t t'. rw_pc_of s t = Writing \<longrightarrow> rw_pc_of s t' \<noteq> Reading)"

text \<open>What a step to a new place must do to keep the invariant.\<close>

lemma rw_inv_goto:
  assumes inv: "rw_inv n s" and t: "t < n" and s': "rw_pc_of s' = (rw_pc_of s)(t := p)"
    and rd: "readers (rw_lock s') = readers (rw_lock s) + (if counted p then 1 else 0) - (if counted (rw_pc_of s t) then 1 else 0)"
    and wr: "writer (rw_lock s') = (if owner p then True else if owner (rw_pc_of s t) then False else writer (rw_lock s))"
    and own: "owner p \<Longrightarrow> owner (rw_pc_of s t) \<or> \<not> writer (rw_lock s)"
    and excl: "p = Writing \<Longrightarrow> (\<forall>t'. rw_pc_of s t' \<noteq> Reading)" "p = Reading \<Longrightarrow> \<not> writer (rw_lock s)"
  shows "rw_inv n s'"
proof -
  let ?f = "rw_pc_of s"
  have i: "readers (rw_lock s) = word_of_nat (threads_at n ?f counted)" "writer (rw_lock s) \<longleftrightarrow> (\<exists>t. owner (?f t))"
    "\<And>t t'. owner (?f t) \<Longrightarrow> owner (?f t') \<Longrightarrow> t = t'" "\<And>t t'. ?f t = Writing \<Longrightarrow> ?f t' \<noteq> Reading" "\<And>t. n \<le> t \<Longrightarrow> ?f t = RwIdle"
    using inv by (auto simp: rw_inv_def)
  have w: "owner Writing" "\<not> owner Reading" by (simp_all add: owner_def)
  have "(word_of_nat (threads_at n (?f(t := p)) counted) :: u32) + (if counted (?f t) then 1 else 0)
    = word_of_nat (threads_at n ?f counted) + (if counted p then 1 else 0)"
    using arg_cong [OF threads_at_upd [OF t, of ?f p counted], of "word_of_nat :: nat \<Rightarrow> u32"] by (simp del: fun_upd_apply split: if_splits)
  then have "readers (rw_lock s') = word_of_nat (threads_at n (rw_pc_of s') counted)"
    unfolding rd i(1) s' by (simp add: algebra_simps del: fun_upd_apply)
  moreover have "writer (rw_lock s') \<longleftrightarrow> (\<exists>t. owner (rw_pc_of s' t))"
  proof (cases "owner p \<or> owner (?f t)")
    case True
    then show ?thesis unfolding wr s' using i(3) [of t] by auto
  next
    case False
    then have "owner ((?f(t := p)) x) \<longleftrightarrow> owner (?f x)" for x by auto
    then show ?thesis unfolding wr s' using i(2) False by simp
  qed
  moreover have "\<forall>x y. owner (rw_pc_of s' x) \<longrightarrow> owner (rw_pc_of s' y) \<longrightarrow> x = y"
    unfolding s' using i(2,3) own by auto
  moreover have "\<forall>x y. rw_pc_of s' x = Writing \<longrightarrow> rw_pc_of s' y \<noteq> Reading"
  proof -
    have "writer (rw_lock s)" if "?f x = Writing" for x using i(2) w(1) that by metis
    then show ?thesis unfolding s' using i(4) excl by (simp add: fun_upd_apply) blast
  qed
  moreover have "\<forall>x \<ge> n. rw_pc_of s' x = RwIdle" unfolding s' using i(5) t by auto
  ultimately show ?thesis by (simp add: rw_inv_def)
qed

lemma rw_inv_step:
  assumes n: "n < 2 ^ 32" and inv: "rw_inv n s" and st: "rw_step n s (t, write) = Some s'"
  shows "rw_inv n s'"
proof -
  have t: "t < n" using st by (simp add: rw_step_def split: if_splits)
  note defs = rw_step_def read_lock_step_def write_lock_step_def read_unlock_def write_unlock_def rw_goto_def counted_def owner_def
  have owns: "owner (rw_pc_of s x) \<Longrightarrow> writer (rw_lock s)" for x using inv by (auto simp: rw_inv_def)
  have drained: "\<forall>t'. rw_pc_of s t' \<noteq> Reading" if "readers (rw_lock s) = 0"
  proof -
    let ?A = "{x. x < n \<and> counted (rw_pc_of s x)}"
    have "card ?A \<le> n" using card_mono [of "{..<n}" ?A] by auto
    moreover have "(word_of_nat (card ?A) :: u32) = 0" using that inv by (simp add: rw_inv_def threads_at_def)
    then have "2 ^ 32 dvd card ?A" by (simp add: word_of_nat_eq_0_iff)
    ultimately have "card ?A = 0" using n by (meson dvd_imp_le le_less_trans not_gr_zero not_less)
    then have "?A = {}" by simp
    moreover have "x < n" if "rw_pc_of s x = Reading" for x
    proof (rule ccontr)
      assume "\<not> x < n"
      then have "rw_pc_of s x = RwIdle" using inv by (simp add: rw_inv_def)
      then show False using that by simp
    qed
    ultimately show ?thesis by (auto simp: counted_def)
  qed
  show ?thesis
  proof (cases "s' = s")
    case True
    then show ?thesis using inv by simp
  next
    case False
    show ?thesis
    proof (cases "rw_pc_of s t")
      case WDrain
      then have "readers (rw_lock s) = 0" using st False t by (auto simp: defs split: if_splits)
      then show ?thesis using st t WDrain drained owns [of t]
        by (intro rw_inv_goto [OF inv t, of _ Writing]) (auto simp: defs split: if_splits)
    next
      case RwIdle
      define p where "p = (if write then WAcquire else RWait)"
      have "\<not> counted p" "\<not> owner p" "p \<noteq> Writing" "p \<noteq> Reading" by (simp_all add: p_def counted_def owner_def)
      moreover have "s' = rw_goto s t p" using st t RwIdle by (simp add: rw_step_def p_def)
      ultimately show ?thesis using RwIdle by (intro rw_inv_goto [OF inv t, of _ p]) (simp_all add: rw_goto_def counted_def owner_def)
    next
      case RWait
      then show ?thesis using st t False by (intro rw_inv_goto [OF inv t, of _ RInc]) (auto simp: defs split: if_splits)
    next
      case RInc
      then show ?thesis using st t by (intro rw_inv_goto [OF inv t, of _ RCheck]) (auto simp: defs)
    next
      case RCheck
      show ?thesis
      proof (cases "writer (rw_lock s)")
        case True
        then show ?thesis using st t RCheck by (intro rw_inv_goto [OF inv t, of _ RDec]) (auto simp: defs)
      next
        case w: False
        then show ?thesis using st t RCheck by (intro rw_inv_goto [OF inv t, of _ Reading]) (auto simp: defs)
      qed
    next
      case RDec
      then show ?thesis using st t by (intro rw_inv_goto [OF inv t, of _ RWait]) (auto simp: defs)
    next
      case Reading
      then show ?thesis using st t by (intro rw_inv_goto [OF inv t, of _ RwIdle]) (auto simp: defs)
    next
      case WAcquire
      then show ?thesis using st t False by (intro rw_inv_goto [OF inv t, of _ WDrain]) (auto simp: defs split: if_splits)
    next
      case Writing
      then show ?thesis using st t by (intro rw_inv_goto [OF inv t, of _ RwIdle]) (auto simp: defs)
    qed
  qed
qed

interpretation rw: invariant_system "rw_step n" rw_init "\<lambda>s. n < 2 ^ 32 \<longrightarrow> rw_inv n s" for n
proof
  show "n < 2 ^ 32 \<longrightarrow> rw_inv n rw_init"
    by (simp add: rw_inv_def rw_init_def rw_new_def threads_at_def counted_def owner_def)
next
  fix s e s'
  assume "n < 2 ^ 32 \<longrightarrow> rw_inv n s" "rw_step n s e = Some s'"
  then show "n < 2 ^ 32 \<longrightarrow> rw_inv n s'" using rw_inv_step by (cases e) blast
qed

text \<open>
  C11. The read-write lock excludes: with fewer than \<open>2 ^ 32\<close> threads, while a thread has the write guard no
  other thread has a write guard and no thread has a read guard, for every interleaving of the
  atomic operations.
\<close>

theorem rw_exclusion:
  assumes "n < 2 ^ 32" "reachable (rw_step n) rw_init s" "rw_pc_of s t = Writing"
  shows "(rw_pc_of s t' = Writing \<longrightarrow> t' = t) \<and> rw_pc_of s t' \<noteq> Reading"
  using rw.reachable_inv [OF assms(2)] assms(1,3) by (auto simp: rw_inv_def owner_def)

theorem rw_exclusion_witness:
  "\<exists>s. reachable (rw_step 2) rw_init s \<and> rw_pc_of s 0 = Writing \<and> rw_pc_of s 1 = RCheck \<and> (\<forall>t'. rw_pc_of s t' \<noteq> Reading)"
proof -
  obtain s where s: "run_events (rw_step 2) rw_init [(1, False), (1, False), (0, True), (0, True), (0, True), (1, False)] = Some s"
    "rw_pc_of s 0 = Writing" "rw_pc_of s 1 = RCheck"
    by (simp add: rw_step_def rw_init_def rw_new_def read_lock_step_def write_lock_step_def rw_goto_def)
  have r: "reachable (rw_step 2) rw_init s" using run_events_reachable [OF s(1)] by (simp add: reach_init)
  have "rw_pc_of s t' \<noteq> Reading" for t' using rw_exclusion [OF _ r s(2), of t'] by simp
  then show ?thesis using r s(2,3) by (intro exI [of _ s]) blast
qed

end
