(* ===== verification/Once_Cell.thy ===== *)
theory Once_Cell
  imports Interleave
begin

text \<open>
  One-time initialisation, hyperdrive/src/once.rs, run by several threads.
\<close>

section \<open>States\<close>

datatype once_st = Initialized | Initializing | Uninitialized | Poisoned

definition as_u8 :: "once_st \<Rightarrow> u8" where
  "as_u8 st = (case st of Initialized \<Rightarrow> 0 | Initializing \<Rightarrow> 1 | Uninitialized \<Rightarrow> 2 | Poisoned \<Rightarrow> 3)"

definition from_u8 :: "u8 \<Rightarrow> once_st option" where
  "from_u8 v =
     (if v = 0 then Some Initialized else if v = 1 then Some Initializing
      else if v = 2 then Some Uninitialized else if v = 3 then Some Poisoned else None)"

lemma from_as_u8 [simp]: "from_u8 (as_u8 st) = Some st"
  by (cases st) (simp_all add: from_u8_def as_u8_def)

text \<open>\<open>value = None\<close> is uninitialised memory.\<close>

record 'a once =
  once_state :: u8
  once_value :: "'a option"

definition once_uninit :: "'a once" where
  "once_uninit = \<lparr>once_state = as_u8 Uninitialized, once_value = None\<rparr>"

definition once_from_init :: "'a \<Rightarrow> 'a once" where
  "once_from_init v = \<lparr>once_state = as_u8 Initialized, once_value = Some v\<rparr>"

text \<open>\<open>load\<close> converts without a check; a number that is no state would be undefined behaviour (\<open>None\<close>).\<close>

definition once_load :: "'a once \<Rightarrow> once_st option" where
  "once_load c = from_u8 (once_state c)"

definition once_store :: "'a once \<Rightarrow> once_st \<Rightarrow> 'a once" where
  "once_store c st = c\<lparr>once_state := as_u8 st\<rparr>"

definition once_compare_exchange :: "'a once \<Rightarrow> once_st \<Rightarrow> once_st \<Rightarrow> (once_st option + once_st) \<times> 'a once" where
  "once_compare_exchange c cur new =
     (if once_state c = as_u8 cur then (Inr cur, once_store c new) else (Inl (from_u8 (once_state c)), c))"

definition is_initialized :: "'a once \<Rightarrow> bool" where "is_initialized c \<longleftrightarrow> once_load c = Some Initialized"
definition is_poisoned :: "'a once \<Rightarrow> bool" where "is_poisoned c \<longleftrightarrow> once_load c = Some Poisoned"

definition poison :: "'a once \<Rightarrow> 'a once" where "poison c = once_store c Poisoned"

section \<open>Threads\<close>

text \<open>
  What \<open>get\<close> returned: \<open>None\<close>, a reference to a value, or a reference to uninitialised memory. A thread
  is in \<open>call_once\<close> (before the exchange, in the initialiser, writing the value, storing the state) or
  in \<open>get\<close> (the first load, the loop, the load after it), or it has panicked.
\<close>

datatype 'a got = GotNone | GotRef 'a | GotUndefined

datatype 'a once_pc =
    OIdle | OCall | ORun | OWrite 'a | OStore | OPanic | OGet | OSpin | OReload | OGot "'a got"

record 'a once_sys =
  cell :: "'a once"
  once_pc_of :: "nat \<Rightarrow> 'a once_pc"
  once_runs :: "nat list"

definition once_goto :: "'a once_sys \<Rightarrow> nat \<Rightarrow> 'a once_pc \<Rightarrow> 'a once_sys" where
  "once_goto s t p = s\<lparr>once_pc_of := (once_pc_of s)(t := p)\<rparr>"

definition once_ref :: "'a once \<Rightarrow> 'a got" where
  "once_ref c = (case once_value c of Some v \<Rightarrow> GotRef v | None \<Rightarrow> GotUndefined)"

text \<open>
  \<open>call_once\<close> in thread \<open>t\<close>, whose initialiser returns \<open>init t\<close>, or panics when that is \<open>None\<close>; the guard
  then poisons the cell. \<open>once_runs\<close> records the threads that ran their initialiser.
\<close>

definition call_once_step :: "(nat \<Rightarrow> 'a option) \<Rightarrow> 'a once_sys \<Rightarrow> nat \<Rightarrow> 'a once_sys" where
  "call_once_step init s t =
     (case once_pc_of s t of
        OCall \<Rightarrow>
          (case once_compare_exchange (cell s) Uninitialized Initializing of
             (Inr _, c) \<Rightarrow> once_goto (s\<lparr>cell := c, once_runs := once_runs s @ [t]\<rparr>) t ORun
           | (Inl _, c) \<Rightarrow> once_goto s t OIdle)
      | ORun \<Rightarrow>
          (case init t of
             Some v \<Rightarrow> once_goto s t (OWrite v)
           | None \<Rightarrow> once_goto (s\<lparr>cell := poison (cell s)\<rparr>) t OPanic)
      | OWrite v \<Rightarrow> once_goto (s\<lparr>cell := (cell s)\<lparr>once_value := Some v\<rparr>\<rparr>) t OStore
      | OStore \<Rightarrow> once_goto (s\<lparr>cell := once_store (cell s) Initialized\<rparr>) t OIdle
      | _ \<Rightarrow> s)"

definition get_step :: "'a once_sys \<Rightarrow> nat \<Rightarrow> 'a once_sys" where
  "get_step s t =
     (case once_pc_of s t of
        OGet \<Rightarrow>
          (case once_load (cell s) of
             Some Initialized \<Rightarrow> once_goto s t (OGot (once_ref (cell s)))
           | Some Initializing \<Rightarrow> once_goto s t OSpin
           | Some Uninitialized \<Rightarrow> once_goto s t (OGot GotNone)
           | Some Poisoned \<Rightarrow> once_goto s t OPanic
           | None \<Rightarrow> once_goto s t (OGot GotUndefined))
      | OSpin \<Rightarrow> if once_load (cell s) = Some Initializing then s else once_goto s t OReload
      | OReload \<Rightarrow>
          if once_load (cell s) = Some Initialized then once_goto s t (OGot (once_ref (cell s)))
          else once_goto s t OPanic
      | _ \<Rightarrow> s)"

text \<open>An event is a thread with the method that it calls when it is idle: \<open>get\<close> or \<open>call_once\<close>.\<close>

definition once_step :: "(nat \<Rightarrow> 'a option) \<Rightarrow> 'a once_sys \<Rightarrow> nat \<times> bool \<Rightarrow> 'a once_sys option" where
  "once_step init s e =
     (case e of (t, get) \<Rightarrow>
        (case once_pc_of s t of
           OIdle \<Rightarrow> Some (once_goto s t (if get then OGet else OCall))
         | OGot _ \<Rightarrow> Some (once_goto s t OIdle)
         | OPanic \<Rightarrow> None
         | OGet \<Rightarrow> Some (get_step s t)
         | OSpin \<Rightarrow> Some (get_step s t)
         | OReload \<Rightarrow> Some (get_step s t)
         | _ \<Rightarrow> Some (call_once_step init s t)))"

definition once_init :: "'a once_sys" where
  "once_init = \<lparr>cell = once_uninit, once_pc_of = (\<lambda>_. OIdle), once_runs = []\<rparr>"

section \<open>The invariant\<close>

definition initialising :: "'a once_pc \<Rightarrow> bool" where
  "initialising p \<longleftrightarrow> p = ORun \<or> (\<exists>v. p = OWrite v) \<or> p = OStore"

text \<open>The value a thread has a reference to, if it has one.\<close>

definition once_facts :: "(nat \<Rightarrow> 'a option) \<Rightarrow> 'a once_sys \<Rightarrow> once_st \<Rightarrow> bool" where
  "once_facts init s st \<longleftrightarrow>
     (case st of
        Uninitialized \<Rightarrow> once_runs s = [] \<and> (\<forall>t. \<not> initialising (once_pc_of s t))
      | Initializing \<Rightarrow> (\<exists>t0. once_runs s = [t0] \<and> (\<forall>t. initialising (once_pc_of s t) \<longleftrightarrow> t = t0) \<and>
          (\<forall>v. once_pc_of s t0 = OWrite v \<longrightarrow> init t0 = Some v) \<and>
          (once_pc_of s t0 = OStore \<longrightarrow> init t0 \<noteq> None \<and> once_value (cell s) = init t0))
      | Initialized \<Rightarrow> (\<exists>t0. once_runs s = [t0] \<and> init t0 \<noteq> None \<and> once_value (cell s) = init t0) \<and>
          (\<forall>t. \<not> initialising (once_pc_of s t))
      | Poisoned \<Rightarrow> (\<exists>t0. once_runs s = [t0] \<and> init t0 = None) \<and> (\<forall>t. \<not> initialising (once_pc_of s t)))"

definition once_inv :: "(nat \<Rightarrow> 'a option) \<Rightarrow> 'a once_sys \<Rightarrow> bool" where
  "once_inv init s \<longleftrightarrow> (\<exists>st. once_state (cell s) = as_u8 st \<and> once_facts init s st \<and>
     (\<forall>t r. once_pc_of s t = OGot r \<longrightarrow> r \<noteq> GotUndefined \<and> (\<forall>v. r = GotRef v \<longrightarrow> st = Initialized \<and> once_value (cell s) = Some v)))"

lemma as_u8_inj [simp]: "as_u8 a = as_u8 b \<longleftrightarrow> a = b"
  by (cases a; cases b) (simp_all add: as_u8_def)

lemma once_goto_simps [simp]:
  "cell (once_goto s t p) = cell s" "once_runs (once_goto s t p) = once_runs s"
  "once_pc_of (once_goto s t p) = (once_pc_of s)(t := p)"
  by (simp_all add: once_goto_def)

text \<open>Steps of a thread that is not initialising and leaves the cell alone.\<close>

lemma once_inv_goto:
  assumes inv: "once_inv init s" and old: "\<not> initialising (once_pc_of s t)" and new: "\<not> initialising p"
    and got: "\<And>r. p = OGot r \<Longrightarrow> r \<noteq> GotUndefined \<and>
      (\<forall>v. r = GotRef v \<longrightarrow> once_state (cell s) = as_u8 Initialized \<and> once_value (cell s) = Some v)"
  shows "once_inv init (once_goto s t p)"
proof -
  obtain st where st: "once_state (cell s) = as_u8 st" "once_facts init s st"
    and g: "\<forall>x r. once_pc_of s x = OGot r \<longrightarrow> r \<noteq> GotUndefined \<and> (\<forall>v. r = GotRef v \<longrightarrow> st = Initialized \<and> once_value (cell s) = Some v)"
    using inv by (auto simp: once_inv_def)
  have i: "initialising (((once_pc_of s)(t := p)) x) = initialising (once_pc_of s x)" for x using old new by auto
  have "once_facts init (once_goto s t p) st"
  proof (cases st)
    case Initializing
    then obtain t0 where t0: "once_runs s = [t0]" "\<forall>x. initialising (once_pc_of s x) \<longleftrightarrow> x = t0"
      "\<forall>v. once_pc_of s t0 = OWrite v \<longrightarrow> init t0 = Some v"
      "once_pc_of s t0 = OStore \<longrightarrow> init t0 \<noteq> None \<and> once_value (cell s) = init t0" using st(2) by (auto simp: once_facts_def)
    then have "t0 \<noteq> t" using old by auto
    then show ?thesis unfolding once_facts_def Initializing once_goto_simps i once_st.case
      using t0 by (intro exI [of _ t0]) simp
  qed (use st(2) i in \<open>simp_all add: once_facts_def del: fun_upd_apply\<close>)
  moreover have "\<forall>x r. once_pc_of (once_goto s t p) x = OGot r \<longrightarrow> r \<noteq> GotUndefined \<and>
    (\<forall>v. r = GotRef v \<longrightarrow> st = Initialized \<and> once_value (cell (once_goto s t p)) = Some v)"
    using g got st(1) by simp
  ultimately show ?thesis using st(1) unfolding once_inv_def by (intro exI [of _ st]) simp
qed

text \<open>Steps of the thread that initialises, which change the state to \<open>st'\<close>.\<close>

lemma once_inv_init_step:
  assumes inv: "once_inv init s" and st: "once_state (cell s) \<noteq> as_u8 Initialized"
    and cell': "once_state (cell s') = as_u8 st'" and pc: "once_pc_of s' = (once_pc_of s)(t := p)" "\<And>r. p \<noteq> OGot r"
    and facts: "once_facts init s' st'"
  shows "once_inv init s'"
proof -
  have "once_pc_of s x = OGot r \<Longrightarrow> r = GotNone" for x r
    using inv st by (cases r) (auto simp: once_inv_def)
  then have "once_pc_of s' x = OGot r \<Longrightarrow> r = GotNone" for x r using pc by (auto split: if_splits)
  then show ?thesis using cell' facts unfolding once_inv_def by (intro exI [of _ st']) auto
qed

lemma once_inv_initialising:
  assumes "once_inv init s" "initialising (once_pc_of s t)"
  shows "once_state (cell s) = as_u8 Initializing" "once_runs s = [t]" "\<And>x. initialising (once_pc_of s x) \<longleftrightarrow> x = t"
    "\<And>v. once_pc_of s t = OWrite v \<Longrightarrow> init t = Some v"
    "once_pc_of s t = OStore \<Longrightarrow> init t \<noteq> None \<and> once_value (cell s) = init t"
proof -
  obtain st where st: "once_state (cell s) = as_u8 st" "once_facts init s st" using assms(1) by (auto simp: once_inv_def)
  then have "st = Initializing" using assms(2) by (cases st) (auto simp: once_facts_def)
  then obtain t0 where t0: "once_runs s = [t0]" "\<forall>x. initialising (once_pc_of s x) \<longleftrightarrow> x = t0"
    "\<forall>v. once_pc_of s t0 = OWrite v \<longrightarrow> init t0 = Some v"
    "once_pc_of s t0 = OStore \<longrightarrow> init t0 \<noteq> None \<and> once_value (cell s) = init t0"
    and state: "once_state (cell s) = as_u8 Initializing" using st by (auto simp: once_facts_def)
  then have "t0 = t" using assms(2) by simp
  with t0 state show "once_state (cell s) = as_u8 Initializing" "once_runs s = [t]" "\<And>x. initialising (once_pc_of s x) \<longleftrightarrow> x = t"
    "\<And>v. once_pc_of s t = OWrite v \<Longrightarrow> init t = Some v"
    "once_pc_of s t = OStore \<Longrightarrow> init t \<noteq> None \<and> once_value (cell s) = init t" by simp_all
qed

lemma call_once_inv:
  assumes inv: "once_inv init s" and p: "once_pc_of s t = OCall \<or> initialising (once_pc_of s t)"
  shows "once_inv init (call_once_step init s t)"
proof (cases "once_pc_of s t = OCall")
  case call: True
  then have ni: "\<not> initialising (once_pc_of s t)" by (simp add: initialising_def)
  show ?thesis
  proof (cases "once_state (cell s) = as_u8 Uninitialized")
    case True
    let ?s = "once_goto (s\<lparr>cell := once_store (cell s) Initializing, once_runs := once_runs s @ [t]\<rparr>) t ORun"
    have "once_runs s = [] \<and> (\<forall>x. \<not> initialising (once_pc_of s x))"
      using inv True by (auto simp: once_inv_def once_facts_def)
    then have "once_facts init ?s Initializing" by (auto simp: once_facts_def initialising_def)
    then have "once_inv init ?s"
      using True by (intro once_inv_init_step [OF inv, of _ Initializing t ORun]) (simp_all add: once_store_def)
    then show ?thesis using call True by (simp add: call_once_step_def once_compare_exchange_def)
  next
    case False
    have "once_inv init (once_goto s t OIdle)" using ni by (intro once_inv_goto [OF inv]) (simp_all add: initialising_def)
    then show ?thesis using call False by (simp add: call_once_step_def once_compare_exchange_def)
  qed
next
  case False
  then have i: "initialising (once_pc_of s t)" using p by simp
  note f = once_inv_initialising [OF inv i]
  have ne: "once_state (cell s) \<noteq> as_u8 Initialized" using f(1) by simp
  consider (run) "once_pc_of s t = ORun" | (wr) v where "once_pc_of s t = OWrite v" | (st) "once_pc_of s t = OStore"
    using i by (auto simp: initialising_def)
  then show ?thesis
  proof cases
    case run
    show ?thesis
    proof (cases "init t")
      case None
      then have "once_facts init (call_once_step init s t) Poisoned"
        using run f(2,3) by (auto simp: call_once_step_def once_facts_def initialising_def)
      then show ?thesis using run None
        by (intro once_inv_init_step [OF inv ne, of _ Poisoned t OPanic]) (simp_all add: call_once_step_def poison_def once_store_def)
    next
      case (Some v)
      then have "once_facts init (call_once_step init s t) Initializing"
        using run f(2,3) by (auto simp: call_once_step_def once_facts_def initialising_def)
      then show ?thesis using run Some f(1)
        by (intro once_inv_init_step [OF inv ne, of _ Initializing t "OWrite v"]) (simp_all add: call_once_step_def)
    qed
  next
    case (wr v)
    then have "once_facts init (call_once_step init s t) Initializing"
      using f(2,3) f(4) [OF wr] by (auto simp: call_once_step_def once_facts_def initialising_def)
    then show ?thesis using wr f(1)
      by (intro once_inv_init_step [OF inv ne, of _ Initializing t OStore]) (simp_all add: call_once_step_def)
  next
    case st
    then have "once_facts init (call_once_step init s t) Initialized"
      using f(2,3,5) by (auto simp: call_once_step_def once_facts_def initialising_def once_store_def)
    then show ?thesis using st
      by (intro once_inv_init_step [OF inv ne, of _ Initialized t OIdle]) (simp_all add: call_once_step_def once_store_def)
  qed
qed

lemma get_inv:
  assumes inv: "once_inv init s" and p: "once_pc_of s t \<in> {OGet, OSpin, OReload}"
  shows "once_inv init (get_step s t)"
proof -
  have ni: "\<not> initialising (once_pc_of s t)" using p by (auto simp: initialising_def)
  obtain st where st: "once_state (cell s) = as_u8 st" "once_facts init s st" using inv by (auto simp: once_inv_def)
  have ref: "once_inv init (once_goto s t (OGot (once_ref (cell s))))" if ini: "st = Initialized"
  proof -
    obtain v where "once_value (cell s) = Some v" using st ini by (auto simp: once_facts_def)
    then show ?thesis using st(1) ini
      by (intro once_inv_goto [OF inv ni]) (auto simp: once_ref_def initialising_def)
  qed
  have goto: "once_inv init (once_goto s t p)" if "p \<in> {OSpin, OReload, OPanic, OGot GotNone}" for p
    using that by (intro once_inv_goto [OF inv ni]) (auto simp: initialising_def)
  have load: "once_load (cell s) = Some st" using st(1) by (simp add: once_load_def)
  note g = goto [of OSpin, simplified] goto [of OReload, simplified] goto [of OPanic, simplified] goto [of "OGot GotNone", simplified]
  consider "once_pc_of s t = OGet" | "once_pc_of s t = OSpin" | "once_pc_of s t = OReload" using p by blast
  then show ?thesis using inv ref g load by cases (cases st; simp add: get_step_def)+
qed

interpretation once: invariant_system "once_step init" once_init "once_inv init" for init
proof
  show "once_inv init once_init"
    unfolding once_inv_def by (intro exI [of _ Uninitialized]) (simp add: once_init_def once_uninit_def once_facts_def initialising_def)
next
  fix s e s'
  assume inv: "once_inv init s" and st: "once_step init s e = Some s'"
  obtain t get where e: "e = (t, get)" by fastforce
  show "once_inv init s'"
  proof (cases "once_pc_of s t = OCall \<or> initialising (once_pc_of s t)")
    case True
    then have "s' = call_once_step init s t" using st e by (auto simp: once_step_def initialising_def)
    then show ?thesis using call_once_inv [OF inv True] by simp
  next
    case False
    then consider (get) "once_pc_of s t \<in> {OGet, OSpin, OReload}" | (idle) "once_pc_of s t = OIdle" | (got) r where "once_pc_of s t = OGot r"
      | (panic) "once_pc_of s t = OPanic" by (cases "once_pc_of s t") (auto simp: initialising_def)
    then show ?thesis
    proof cases
      case get
      then show ?thesis using get_inv [OF inv get] st e by (auto simp: once_step_def)
    next
      case idle
      then have "s' = once_goto s t (if get then OGet else OCall)" using st e by (simp add: once_step_def)
      then show ?thesis using False by (auto intro!: once_inv_goto [OF inv] simp: initialising_def)
    next
      case (got r)
      then have "s' = once_goto s t OIdle" using st e by (simp add: once_step_def)
      then show ?thesis using False by (auto intro!: once_inv_goto [OF inv] simp: initialising_def)
    next
      case panic
      then show ?thesis using st e by (simp add: once_step_def)
    qed
  qed
qed

text \<open>
  C13. Initialisation happens once. Whatever threads call \<open>call_once\<close> and \<open>get\<close>, at most one initialiser
  is run, and every reference that \<open>get\<close> returns is to the value which that initialiser returned:
  memory that is not initialised is never handed out.
\<close>

theorem once_runs_once:
  assumes "reachable (once_step init) once_init s"
  shows "length (once_runs s) \<le> 1 \<and>
    (once_pc_of s t = OGot r \<longrightarrow> r = GotNone \<or> (\<exists>t0 v. once_runs s = [t0] \<and> init t0 = Some v \<and> r = GotRef v))"
proof -
  obtain st where st: "once_facts init s st"
    "\<And>t r. once_pc_of s t = OGot r \<Longrightarrow> r \<noteq> GotUndefined \<and> (\<forall>v. r = GotRef v \<longrightarrow> st = Initialized \<and> once_value (cell s) = Some v)"
    using once.reachable_inv [OF assms] by (auto simp: once_inv_def)
  have "length (once_runs s) \<le> 1" using st(1) by (cases st) (auto simp: once_facts_def)
  moreover have "r = GotNone \<or> (\<exists>t0 v. once_runs s = [t0] \<and> init t0 = Some v \<and> r = GotRef v)" if "once_pc_of s t = OGot r"
    using st(2) [OF that] st(1) by (cases r) (auto simp: once_facts_def)
  ultimately show ?thesis by simp
qed

theorem once_runs_once_witness:
  "\<exists>s. reachable (once_step (\<lambda>t. Some (t + 40))) once_init s \<and> once_pc_of s 2 = OGot (GotRef (41 :: nat)) \<and> length (once_runs s) \<le> 1"
proof -
  let ?init = "\<lambda>t. Some (t + 40 :: nat)"
  obtain s where s: "run_events (once_step ?init) once_init
      [(0, False), (1, False), (1, False), (0, False), (2, True), (2, True), (1, False), (1, False), (1, False), (2, True), (2, True)] = Some s"
    "once_pc_of s 2 = OGot (GotRef 41)"
    by (simp add: once_step_def once_init_def once_uninit_def once_goto_def call_once_step_def get_step_def once_compare_exchange_def
        once_store_def once_load_def once_ref_def)
  have r: "reachable (once_step ?init) once_init s" using run_events_reachable [OF s(1)] by (simp add: reach_init)
  then show ?thesis using once_runs_once [OF r] s(2) by blast
qed

end
