(* ===== verification/Barriers.thy ===== *)
theory Barriers
  imports Interleave
begin

text \<open>
  The barriers of hyperdrive/src/sync/barrier.rs, run by \<open>n\<close> threads. Counters are 16-bit values kept as
  natural numbers.
\<close>

section \<open>The barrier that is used once\<close>

record barrier =
  bar_count :: nat
  bar_current :: nat

definition barrier_new :: "nat \<Rightarrow> barrier option" where
  "barrier_new c = (if c > 0 then Some \<lparr>bar_count = c, bar_current = 0\<rparr> else None)"

text \<open>A thread has not called \<open>wait\<close>, is in its loop, has returned or has panicked.\<close>

datatype bar_pc = BarIdle | BarLoop | BarPassed | BarPanic

record bar_sys =
  bar :: barrier
  bar_pc_of :: "nat \<Rightarrow> bar_pc"

definition bar_wait_step :: "nat \<Rightarrow> bar_sys \<Rightarrow> nat \<Rightarrow> bar_sys option" where
  "bar_wait_step n s t =
     (if t < n
      then (case bar_pc_of s t of
              BarIdle \<Rightarrow>
                (let curr = bar_current (bar s);
                     s1 = s\<lparr>bar := (bar s)\<lparr>bar_current := wrap_add 16 curr 1\<rparr>\<rparr>
                 in Some (s1\<lparr>bar_pc_of := (bar_pc_of s)(t := if curr < bar_count (bar s) then BarLoop else BarPanic)\<rparr>))
            | BarLoop \<Rightarrow>
                (if bar_current (bar s) < bar_count (bar s) then Some s
                 else Some (s\<lparr>bar_pc_of := (bar_pc_of s)(t := BarPassed)\<rparr>))
            | _ \<Rightarrow> None)
      else None)"

definition bar_init :: "barrier \<Rightarrow> bar_sys" where
  "bar_init b = \<lparr>bar = b, bar_pc_of = (\<lambda>_. BarIdle)\<rparr>"

section \<open>The barrier that is used again\<close>

record rbarrier =
  rb_count :: nat
  rb_rank :: nat
  rb_current :: nat
  rb_out :: nat

definition rbarrier_new :: "nat \<Rightarrow> rbarrier option" where
  "rbarrier_new c =
     (if c > 0 then Some \<lparr>rb_count = c, rb_rank = 0, rb_current = 0, rb_out = 0\<rparr> else None)"

text \<open>
  The places of \<open>wait\<close>: the increment of the rank, the inner loop of a thread that came late, the
  increment of \<open>current\<close>, the waiting loop, the increment of \<open>out\<close>, and the three stores of the thread
  that resets the barrier.
\<close>

datatype rb_pc = RbIdle | RbRank | RbLate | RbInc | RbWait | RbOut | RbReset1 | RbReset2 | RbReset3

text \<open>
  \<open>arrivals\<close> counts increments of \<open>current\<close>, \<open>departures\<close> the threads that left the waiting loop, and
  \<open>rounds\<close> the resets that were begun. They only observe the run.
\<close>

record rb_sys =
  rb :: rbarrier
  rb_pc_of :: "nat \<Rightarrow> rb_pc"
  arrivals :: nat
  departures :: nat
  rounds :: nat

definition rb_goto :: "rb_sys \<Rightarrow> nat \<Rightarrow> rb_pc \<Rightarrow> rb_sys" where
  "rb_goto s t p = s\<lparr>rb_pc_of := (rb_pc_of s)(t := p)\<rparr>"

definition rb_wait_step :: "nat \<Rightarrow> rb_sys \<Rightarrow> nat \<Rightarrow> rb_sys option" where
  "rb_wait_step n s t =
     (if t < n
      then let b = rb s
           in Some (case rb_pc_of s t of
                RbIdle \<Rightarrow> rb_goto s t RbRank
              | RbRank \<Rightarrow>
                  rb_goto (s\<lparr>rb := b\<lparr>rb_rank := wrap_add 16 (rb_rank b) 1\<rparr>\<rparr>) t
                    (if rb_rank b \<ge> rb_count b then RbLate else RbInc)
              | RbLate \<Rightarrow> if rb_rank b \<ge> rb_count b then s else rb_goto s t RbRank
              | RbInc \<Rightarrow>
                  rb_goto (s\<lparr>rb := b\<lparr>rb_current := wrap_add 16 (rb_current b) 1\<rparr>, arrivals := arrivals s + 1\<rparr>) t RbWait
              | RbWait \<Rightarrow>
                  if rb_current b < rb_count b then s
                  else rb_goto (s\<lparr>departures := departures s + 1\<rparr>) t RbOut
              | RbOut \<Rightarrow>
                  (let s1 = s\<lparr>rb := b\<lparr>rb_out := wrap_add 16 (rb_out b) 1\<rparr>\<rparr>
                   in if rb_out b = rb_count b - 1 then rb_goto (s1\<lparr>rounds := rounds s + 1\<rparr>) t RbReset1
                      else rb_goto s1 t RbIdle)
              | RbReset1 \<Rightarrow> rb_goto (s\<lparr>rb := b\<lparr>rb_current := 0\<rparr>\<rparr>) t RbReset2
              | RbReset2 \<Rightarrow> rb_goto (s\<lparr>rb := b\<lparr>rb_out := 0\<rparr>\<rparr>) t RbReset3
              | RbReset3 \<Rightarrow> rb_goto (s\<lparr>rb := b\<lparr>rb_rank := 0\<rparr>\<rparr>) t RbIdle)
      else None)"

definition rb_init :: "rbarrier \<Rightarrow> rb_sys" where
  "rb_init b = \<lparr>rb = b, rb_pc_of = (\<lambda>_. RbIdle), arrivals = 0, departures = 0, rounds = 0\<rparr>"

section \<open>Nobody passes too early\<close>

definition bar_called :: "bar_pc \<Rightarrow> bool" where "bar_called p \<longleftrightarrow> p \<noteq> BarIdle"

definition bar_inv :: "nat \<Rightarrow> nat \<Rightarrow> bar_sys \<Rightarrow> bool" where
  "bar_inv n c s \<longleftrightarrow> bar_count (bar s) = c \<and> bar_current (bar s) = threads_at n (bar_pc_of s) bar_called \<and>
     (\<forall>t. bar_pc_of s t \<in> {BarPassed, BarPanic} \<longrightarrow> c \<le> threads_at n (bar_pc_of s) bar_called)"

lemma bar_inv_step:
  assumes n: "n < 2 ^ 16" and inv: "bar_inv n c s" and st: "bar_wait_step n s t = Some s'"
  shows "bar_inv n c s'"
proof -
  have t: "t < n" using st by (simp add: bar_wait_step_def split: if_splits)
  let ?k = "threads_at n (bar_pc_of s) bar_called"
  have i: "bar_count (bar s) = c" "bar_current (bar s) = ?k" "\<And>x. bar_pc_of s x \<in> {BarPassed, BarPanic} \<Longrightarrow> c \<le> ?k"
    using inv by (auto simp: bar_inv_def)
  show ?thesis
  proof (cases "bar_pc_of s t")
    case BarIdle
    define p where "p = (if ?k < c then BarLoop else BarPanic)"
    have k: "threads_at n ((bar_pc_of s)(t := p)) bar_called = ?k + 1"
      using threads_at_upd [OF t, of "bar_pc_of s" p bar_called] BarIdle by (simp add: bar_called_def p_def split: if_splits)
    moreover from this have "wrap_add 16 ?k 1 = ?k + 1"
      using threads_at_le [of n "(bar_pc_of s)(t := p)" bar_called] n by (simp add: wrap_add_def)
    moreover have "s' = s\<lparr>bar := (bar s)\<lparr>bar_current := wrap_add 16 ?k 1\<rparr>, bar_pc_of := (bar_pc_of s)(t := p)\<rparr>"
      using st t BarIdle i by (auto simp: bar_wait_step_def p_def Let_def)
    moreover have "c \<le> ?k + 1" if "((bar_pc_of s)(t := p)) x \<in> {BarPassed, BarPanic}" for x
      using that i(3) [of x] by (cases "x = t") (auto simp: p_def split: if_splits)
    ultimately show ?thesis using i(1) by (simp add: bar_inv_def del: fun_upd_apply)
  next
    case BarLoop
    show ?thesis
    proof (cases "bar_current (bar s) < bar_count (bar s)")
      case True
      then show ?thesis using st t BarLoop inv by (simp add: bar_wait_step_def)
    next
      case False
      have "threads_at n ((bar_pc_of s)(t := BarPassed)) bar_called = ?k"
        using threads_at_upd [OF t, of "bar_pc_of s" BarPassed bar_called] BarLoop by (simp add: bar_called_def)
      then show ?thesis using st t BarLoop False i by (auto simp: bar_wait_step_def bar_inv_def simp del: fun_upd_apply)
    qed
  qed (use st t in \<open>simp_all add: bar_wait_step_def\<close>)
qed

interpretation bar: invariant_system "bar_wait_step n" "bar_init b" "\<lambda>s. n < 2 ^ 16 \<and> bar_current b = 0 \<longrightarrow> bar_inv n (bar_count b) s" for n b
proof
  show "n < 2 ^ 16 \<and> bar_current b = 0 \<longrightarrow> bar_inv n (bar_count b) (bar_init b)"
    by (simp add: bar_inv_def bar_init_def threads_at_def bar_called_def)
qed (use bar_inv_step in blast)

text \<open>
  A thread returns from \<open>wait\<close>, or panics because it came too late, only after \<open>count\<close> threads have
  called it.
\<close>

lemma barrier_waits:
  assumes "n < 2 ^ 16" "barrier_new c = Some b" "reachable (bar_wait_step n) (bar_init b) s"
    and "bar_pc_of s t \<in> {BarPassed, BarPanic}"
  shows "c \<le> threads_at n (bar_pc_of s) bar_called"
proof -
  have "bar_current b = 0" "bar_count b = c" using assms(2) by (auto simp: barrier_new_def split: if_splits)
  then show ?thesis using bar.reachable_inv [OF assms(3)] assms(1,4) by (auto simp: bar_inv_def)
qed

definition rb_at :: "nat \<Rightarrow> rb_sys \<Rightarrow> rb_pc \<Rightarrow> nat" where
  "rb_at n s p = threads_at n (rb_pc_of s) (\<lambda>x. x = p)"

text \<open>
  The numbers of an open round, whose threads arrive, wait and leave: \<open>inc\<close>, \<open>wt\<close> and \<open>ot\<close> threads stand
  before the increment of \<open>current\<close>, in the waiting loop and before the increment of \<open>out\<close>; \<open>k\<close> rounds are
  over.
\<close>

definition round_open :: "nat \<Rightarrow> nat \<Rightarrow> nat \<Rightarrow> nat \<Rightarrow> nat \<Rightarrow> nat \<Rightarrow> nat \<Rightarrow> nat \<Rightarrow> nat \<Rightarrow> nat \<Rightarrow> bool" where
  "round_open c rank cur out inc wt ot arr dep k \<longleftrightarrow>
     min rank c = inc + wt + ot + out \<and> cur = wt + ot + out \<and> (0 < ot + out \<longrightarrow> cur = c) \<and> out < c \<and>
     arr = k * c + cur \<and> dep = k * c + ot + out"

text \<open>All threads of a round have left, and one of them is at the store \<open>j\<close> that resets the barrier.\<close>

definition round_closing :: "nat \<Rightarrow> nat \<Rightarrow> nat \<Rightarrow> nat \<Rightarrow> nat \<Rightarrow> nat \<Rightarrow> nat \<Rightarrow> nat \<Rightarrow> nat \<Rightarrow> nat \<Rightarrow> rb_pc \<Rightarrow> bool" where
  "round_closing c rank cur out inc wt ot arr dep k j \<longleftrightarrow>
     inc = 0 \<and> wt = 0 \<and> ot = 0 \<and> c \<le> rank \<and> cur = (if j = RbReset1 then c else 0) \<and>
     out = (if j = RbReset3 then 0 else c) \<and> arr = k * c \<and> dep = k * c"

definition rb_resetting :: "nat \<Rightarrow> rb_sys \<Rightarrow> nat" where
  "rb_resetting n s = threads_at n (rb_pc_of s) (\<lambda>p. p \<in> {RbReset1, RbReset2, RbReset3})"

abbreviation open_now :: "nat \<Rightarrow> rb_sys \<Rightarrow> bool" where
  "open_now n s \<equiv> rb_resetting n s = 0 \<and>
     round_open (rb_count (rb s)) (rb_rank (rb s)) (rb_current (rb s)) (rb_out (rb s))
       (rb_at n s RbInc) (rb_at n s RbWait) (rb_at n s RbOut) (arrivals s) (departures s) (rounds s)"

abbreviation closing_now :: "nat \<Rightarrow> rb_sys \<Rightarrow> rb_pc \<Rightarrow> bool" where
  "closing_now n s j \<equiv> rb_resetting n s = 1 \<and> (\<exists>t < n. rb_pc_of s t = j) \<and> j \<in> {RbReset1, RbReset2, RbReset3} \<and>
     round_closing (rb_count (rb s)) (rb_rank (rb s)) (rb_current (rb s)) (rb_out (rb s))
       (rb_at n s RbInc) (rb_at n s RbWait) (rb_at n s RbOut) (arrivals s) (departures s) (rounds s) j"

definition rb_inv :: "nat \<Rightarrow> nat \<Rightarrow> rb_sys \<Rightarrow> bool" where
  "rb_inv n c s \<longleftrightarrow> rb_count (rb s) = c \<and> 0 < c \<and> rb_rank (rb s) \<le> c + rb_at n s RbLate \<and>
     (open_now n s \<or> (\<exists>j. closing_now n s j))"

text \<open>
  One step of thread \<open>t\<close> that changes the state: the numbers of threads at the places change by its move.
\<close>

lemma rb_move:
  assumes "rb_wait_step n s t = Some s'" "s' \<noteq> s" "p = rb_pc_of s' t"
  shows "t < n" "rb_pc_of s' = (rb_pc_of s)(t := p)" "0 < rb_at n s (rb_pc_of s t)"
    and "rb_at n s' q + (if rb_pc_of s t = q then 1 else 0) = rb_at n s q + (if p = q then 1 else 0)"
    and "rb_resetting n s' + (if rb_pc_of s t \<in> {RbReset1, RbReset2, RbReset3} then 1 else 0)
      = rb_resetting n s + (if p \<in> {RbReset1, RbReset2, RbReset3} then 1 else 0)"
proof -
  show t: "t < n" using assms(1) by (simp add: rb_wait_step_def split: if_splits)
  show "0 < rb_at n s (rb_pc_of s t)" by (simp add: rb_at_def threads_at_pos [OF t])
  show pc: "rb_pc_of s' = (rb_pc_of s)(t := p)"
    using assms t by (auto simp: rb_wait_step_def rb_goto_def Let_def split: rb_pc.splits if_splits)
  show "rb_at n s' q + (if rb_pc_of s t = q then 1 else 0) = rb_at n s q + (if p = q then 1 else 0)"
    unfolding rb_at_def pc using threads_at_upd [OF t, of "rb_pc_of s" p "\<lambda>x. x = q"] by simp
  show "rb_resetting n s' + (if rb_pc_of s t \<in> {RbReset1, RbReset2, RbReset3} then 1 else 0)
      = rb_resetting n s + (if p \<in> {RbReset1, RbReset2, RbReset3} then 1 else 0)"
    unfolding rb_resetting_def pc using threads_at_upd [OF t, of "rb_pc_of s" p "\<lambda>x. x \<in> {RbReset1, RbReset2, RbReset3}"] by simp
qed

text \<open>The rank stays below the width of the counter: a late thread adds to it once in a round.\<close>

lemma rb_rank_step:
  assumes n: "c + n < 2 ^ 16" and st: "rb_wait_step n s t = Some s'" "s' \<noteq> s"
    and inv: "rb_count (rb s) = c" "rb_rank (rb s) \<le> c + rb_at n s RbLate"
  shows "rb_rank (rb s') \<le> c + rb_at n s' RbLate" "rb_count (rb s') = c"
    "rb_pc_of s t = RbRank \<Longrightarrow> rb_rank (rb s') = Suc (rb_rank (rb s))"
proof -
  note t = rb_move(1) [OF st refl] and late = rb_move(4) [OF st refl, of RbLate]
  have le: "rb_at n s' RbLate \<le> n" using threads_at_le by (simp add: rb_at_def)
  show count: "rb_count (rb s') = c"
    using st inv(1) t by (auto simp: rb_wait_step_def rb_goto_def Let_def split: rb_pc.splits if_splits)
  show suc: "rb_rank (rb s') = Suc (rb_rank (rb s))" if "rb_pc_of s t = RbRank"
  proof -
    have "rb_pc_of s' t = (if rb_rank (rb s) \<ge> c then RbLate else RbInc)" "rb_rank (rb s') = wrap_add 16 (rb_rank (rb s)) 1"
      using st t inv(1) that by (auto simp: rb_wait_step_def rb_goto_def Let_def)
    moreover from this have "Suc (rb_rank (rb s)) \<le> c + n" using late le inv(2) that by (auto split: if_splits)
    ultimately show ?thesis using n by (simp add: wrap_add_def)
  qed
  show "rb_rank (rb s') \<le> c + rb_at n s' RbLate"
  proof (cases "rb_pc_of s t = RbRank")
    case True
    then have "rb_pc_of s' t = (if rb_rank (rb s) \<ge> c then RbLate else RbInc)"
      using st t inv(1) by (auto simp: rb_wait_step_def rb_goto_def Let_def)
    then show ?thesis using suc [OF True] late inv(2) True by (auto split: if_splits)
  next
    case False
    then have "rb_rank (rb s') = 0 \<or> rb_rank (rb s') < c \<or> (rb_rank (rb s') = rb_rank (rb s) \<and> rb_pc_of s t \<noteq> RbLate)"
      using st t inv(1) by (auto simp: rb_wait_step_def rb_goto_def Let_def split: rb_pc.splits if_splits)
    then show ?thesis using late inv(2) by auto
  qed
qed

lemmas rb_step_defs = rb_wait_step_def rb_goto_def Let_def

text \<open>How the numbers of an open round change with the steps of its threads.\<close>

lemma round_open_moves:
  assumes "round_open c rank cur out inc wt ot arr dep k"
  shows "round_open c (Suc rank) cur out (if c \<le> rank then inc else Suc inc) wt ot arr dep k"
    and "inc = Suc i \<Longrightarrow> cur < c \<and> round_open c rank (Suc cur) out i (Suc wt) ot (Suc arr) dep k"
    and "wt = Suc w \<Longrightarrow> c \<le> cur \<Longrightarrow> round_open c rank cur out inc w (Suc ot) arr (Suc dep) k"
    and "ot = Suc u \<Longrightarrow> Suc out < c \<Longrightarrow> round_open c rank cur (Suc out) inc wt u arr dep k"
    and "ot = Suc u \<Longrightarrow> Suc out = c \<Longrightarrow> round_closing c rank cur (Suc out) inc wt u arr dep (Suc k) RbReset1"
proof -
  have f: "min rank c = inc + wt + ot + out" "cur = wt + ot + out" "0 < ot + out \<Longrightarrow> cur = c" "out < c"
    "arr = k * c + cur" "dep = k * c + ot + out" using assms by (auto simp: round_open_def)
  show "round_open c (Suc rank) cur out (if c \<le> rank then inc else Suc inc) wt ot arr dep k"
    unfolding round_open_def using f by (auto simp: min_def split: if_splits)
  show "cur < c \<and> round_open c rank (Suc cur) out i (Suc wt) ot (Suc arr) dep k" if "inc = Suc i"
  proof -
    have "cur < c" using f(1,2) that by linarith
    then have "ot + out = 0" using f(3) by linarith
    then show ?thesis unfolding round_open_def using f \<open>cur < c\<close> that by simp
  qed
  show "round_open c rank cur out inc w (Suc ot) arr (Suc dep) k" if "wt = Suc w" "c \<le> cur"
  proof -
    have "cur = c" using f(1,2) that by linarith
    then show ?thesis unfolding round_open_def using f that by simp
  qed
  show "round_open c rank cur (Suc out) inc wt u arr dep k" if "ot = Suc u" "Suc out < c"
    unfolding round_open_def using f that by simp
  show "round_closing c rank cur (Suc out) inc wt u arr dep (Suc k) RbReset1" if "ot = Suc u" "Suc out = c"
  proof -
    have c: "cur = c" using f(3) that by simp
    then have z: "inc = 0" "wt = 0" "u = 0" "c \<le> rank" using f(1,2) that by linarith+
    have "dep = arr" "arr = Suc k * c" using f(5,6) c z that by simp_all
    then show ?thesis unfolding round_closing_def using c z that(2) by simp
  qed
qed

lemma rb_open_step:
  assumes n: "rb_count (rb s) + n < 2 ^ 16" and st: "rb_wait_step n s t = Some s'" "s' \<noteq> s" and mode: "open_now n s"
    and rank: "rb_pc_of s t = RbRank \<Longrightarrow> rb_rank (rb s') = Suc (rb_rank (rb s))"
  shows "open_now n s' \<or> closing_now n s' RbReset1"
proof -
  note t = rb_move(1) [OF st refl] and here = rb_move(3) [OF st refl] and reset = rb_move(5) [OF st refl]
    and moves = rb_move(4) [OF st refl, of RbInc] rb_move(4) [OF st refl, of RbWait] rb_move(4) [OF st refl, of RbOut]
  have r: "rb_resetting n s = 0" and o: "round_open (rb_count (rb s)) (rb_rank (rb s)) (rb_current (rb s)) (rb_out (rb s))
    (rb_at n s RbInc) (rb_at n s RbWait) (rb_at n s RbOut) (arrivals s) (departures s) (rounds s)" using mode by blast+
  have nr: "rb_pc_of s t \<notin> {RbReset1, RbReset2, RbReset3}" using r t by (simp add: rb_resetting_def threads_at_0)
  obtain i where here: "rb_at n s (rb_pc_of s t) = Suc i" using here gr0_implies_Suc by blast
  show ?thesis
  proof (cases "rb_pc_of s t")
    case RbIdle
    then have "s' = rb_goto s t RbRank" using st t by (simp add: rb_step_defs)
    then show ?thesis using RbIdle o r reset moves by (simp add: rb_goto_def)
  next
    case RbRank
    then have "rb_pc_of s' t = (if rb_count (rb s) \<le> rb_rank (rb s) then RbLate else RbInc)"
      "rb_count (rb s') = rb_count (rb s)" "rb_current (rb s') = rb_current (rb s)" "rb_out (rb s') = rb_out (rb s)"
      "arrivals s' = arrivals s" "departures s' = departures s" "rounds s' = rounds s"
      using st t by (auto simp: rb_step_defs)
    then show ?thesis using RbRank r reset moves rank [OF RbRank] round_open_moves(1) [OF o] by (auto split: if_splits)
  next
    case RbLate
    then have "s' = rb_goto s t RbRank" using st t by (auto simp: rb_step_defs split: if_splits)
    then show ?thesis using RbLate o r reset moves by (simp add: rb_goto_def)
  next
    case RbInc
    note m = round_open_moves(2) [OF o here [unfolded RbInc]]
    then have "wrap_add 16 (rb_current (rb s)) 1 = Suc (rb_current (rb s))" using n by (simp add: wrap_add_def)
    then have "rb_pc_of s' t = RbWait" "rb s' = (rb s)\<lparr>rb_current := Suc (rb_current (rb s))\<rparr>"
      "arrivals s' = Suc (arrivals s)" "departures s' = departures s" "rounds s' = rounds s"
      using st t RbInc by (auto simp: rb_step_defs)
    then show ?thesis using RbInc r reset moves m here by simp
  next
    case RbWait
    then have e: "rb_pc_of s' t = RbOut" "rb s' = rb s" "arrivals s' = arrivals s" "departures s' = Suc (departures s)" "rounds s' = rounds s"
      "rb_count (rb s) \<le> rb_current (rb s)"
      using st t by (auto simp: rb_step_defs split: if_splits)
    then show ?thesis using RbWait r reset moves here round_open_moves(3) [OF o here [unfolded RbWait] e(6)] by simp
  next
    case RbOut
    have lt: "rb_out (rb s) < rb_count (rb s)" using o by (simp add: round_open_def)
    then have "wrap_add 16 (rb_out (rb s)) 1 = Suc (rb_out (rb s))" using n by (simp add: wrap_add_def)
    then have e: "rb_pc_of s' t = (if Suc (rb_out (rb s)) = rb_count (rb s) then RbReset1 else RbIdle)"
      "rb s' = (rb s)\<lparr>rb_out := Suc (rb_out (rb s))\<rparr>" "arrivals s' = arrivals s" "departures s' = departures s"
      "rounds s' = (if Suc (rb_out (rb s)) = rb_count (rb s) then Suc (rounds s) else rounds s)"
      using st t RbOut lt by (auto simp: rb_step_defs)
    show ?thesis
    proof (cases "Suc (rb_out (rb s)) = rb_count (rb s)")
      case True
      then have "\<exists>x < n. rb_pc_of s' x = RbReset1" using t e(1) by auto
      then have "closing_now n s' RbReset1"
        using True RbOut e r reset moves here round_open_moves(5) [OF o here [unfolded RbOut] True] by simp
      then show ?thesis by blast
    next
      case False
      then show ?thesis using RbOut e r reset moves here lt round_open_moves(4) [OF o here [unfolded RbOut]] by simp
    qed
  qed (use nr in simp_all)
qed

lemma rb_closing_step:
  assumes st: "rb_wait_step n s t = Some s'" "s' \<noteq> s" and mode: "closing_now n s j" and c: "0 < rb_count (rb s)"
    and rank: "rb_pc_of s t = RbRank \<Longrightarrow> rb_rank (rb s') = Suc (rb_rank (rb s))"
  shows "open_now n s' \<or> (\<exists>j. closing_now n s' j)"
proof -
  note t = rb_move(1) [OF st refl] and here = rb_move(3) [OF st refl] and reset = rb_move(5) [OF st refl] and pc = rb_move(2) [OF st refl]
    and inc = rb_move(4) [OF st refl, of RbInc] and wt = rb_move(4) [OF st refl, of RbWait] and ot = rb_move(4) [OF st refl, of RbOut]
  have o: "rb_resetting n s = 1" "j \<in> {RbReset1, RbReset2, RbReset3}" "round_closing (rb_count (rb s)) (rb_rank (rb s)) (rb_current (rb s)) (rb_out (rb s))
    (rb_at n s RbInc) (rb_at n s RbWait) (rb_at n s RbOut) (arrivals s) (departures s) (rounds s) j" using mode by blast+
  obtain r where r: "r < n" "rb_pc_of s r = j" using mode by blast
  have only: "x = r" if "x < n" "rb_pc_of s x \<in> {RbReset1, RbReset2, RbReset3}" for x
  proof -
    obtain z where z: "{x. x < n \<and> rb_pc_of s x \<in> {RbReset1, RbReset2, RbReset3}} = {z}"
      using o(1) card_1_singletonE unfolding rb_resetting_def threads_at_def by blast
    have "r \<in> {x. x < n \<and> rb_pc_of s x \<in> {RbReset1, RbReset2, RbReset3}}"
      "x \<in> {x. x < n \<and> rb_pc_of s x \<in> {RbReset1, RbReset2, RbReset3}}" using r o(2) that by simp_all
    then show ?thesis unfolding z by simp
  qed
  have zero: "rb_at n s RbInc = 0" "rb_at n s RbWait = 0" "rb_at n s RbOut = 0" "rb_count (rb s) \<le> rb_rank (rb s)"
    using o(3) by (simp_all add: round_closing_def)
  show ?thesis
  proof (cases "rb_pc_of s t \<in> {RbReset1, RbReset2, RbReset3}")
    case False
    then have "r \<noteq> t" using r o(2) by auto
    then have "rb_pc_of s' r = j" using r(2) fun_cong [OF pc, of r] by simp
    then have r': "\<exists>x < n. rb_pc_of s' x = j" using r(1) by blast
    have pcs: "rb_pc_of s t = RbIdle \<or> rb_pc_of s t = RbRank" using here zero False st t
      by (cases "rb_pc_of s t") (auto simp: rb_step_defs split: if_splits)
    then have e: "rb_pc_of s' t = (if rb_pc_of s t = RbIdle then RbRank else RbLate)" "rb_count (rb s') = rb_count (rb s)"
      "rb_current (rb s') = rb_current (rb s)" "rb_out (rb s') = rb_out (rb s)" "rb_rank (rb s) \<le> rb_rank (rb s')"
      "arrivals s' = arrivals s" "departures s' = departures s" "rounds s' = rounds s"
      using st t zero(4) rank by (auto simp: rb_step_defs)
    have "rb_resetting n s' = 1" "rb_at n s' RbInc = 0" "rb_at n s' RbWait = 0" "rb_at n s' RbOut = 0"
      using reset inc wt ot o(1) pcs e(1) zero by (auto split: if_splits)
    then have "closing_now n s' j" using o r' e zero(4) by (simp add: round_closing_def)
    then show ?thesis by blast
  next
    case True
    then have tr: "t = r" using only t by blast
    then have j: "rb_pc_of s t = j" using r by simp
    consider "j = RbReset1" | "j = RbReset2" | "j = RbReset3" using o(2) by blast
    then show ?thesis
    proof cases
      case 1
      then have "rb_pc_of s' t = RbReset2" "rb s' = (rb s)\<lparr>rb_current := 0\<rparr>" "arrivals s' = arrivals s" "departures s' = departures s" "rounds s' = rounds s"
        using st t j by (auto simp: rb_step_defs)
      then have "closing_now n s' RbReset2" using 1 j o reset inc wt ot zero t by (auto simp: round_closing_def)
      then show ?thesis by blast
    next
      case 2
      then have "rb_pc_of s' t = RbReset3" "rb s' = (rb s)\<lparr>rb_out := 0\<rparr>" "arrivals s' = arrivals s" "departures s' = departures s" "rounds s' = rounds s"
        using st t j by (auto simp: rb_step_defs)
      then have "closing_now n s' RbReset3" using 2 j o reset inc wt ot zero t by (auto simp: round_closing_def)
      then show ?thesis by blast
    next
      case 3
      then have "rb_pc_of s' t = RbIdle" "rb s' = (rb s)\<lparr>rb_rank := 0\<rparr>" "arrivals s' = arrivals s" "departures s' = departures s" "rounds s' = rounds s"
        using st t j by (auto simp: rb_step_defs)
      then have "open_now n s'" using 3 j o reset inc wt ot zero t c by (auto simp: round_closing_def round_open_def)
      then show ?thesis by blast
    qed
  qed
qed

lemma rb_inv_step:
  assumes n: "c + n < 2 ^ 16" and inv: "rb_inv n c s" and st: "rb_wait_step n s t = Some s'"
  shows "rb_inv n c s'"
proof (cases "s' = s")
  case False
  have i: "rb_count (rb s) = c" "rb_rank (rb s) \<le> c + rb_at n s RbLate" "0 < c" using inv by (auto simp: rb_inv_def)
  note rank = rb_rank_step [OF n st False i(1,2)]
  have "open_now n s' \<or> (\<exists>j. closing_now n s' j)"
    using inv rb_open_step [OF _ st False _ rank(3)] rb_closing_step [OF st False _ _ rank(3)] n i(1,3) unfolding rb_inv_def by blast
  then show ?thesis using rank(1,2) i(3) unfolding rb_inv_def by blast
qed (use inv in simp)

interpretation rbar: invariant_system "rb_wait_step n" "rb_init b"
  "\<lambda>s. rb_count b + n < 2 ^ 16 \<and> rbarrier_new (rb_count b) = Some b \<longrightarrow> rb_inv n (rb_count b) s" for n b
proof
  show "rb_count b + n < 2 ^ 16 \<and> rbarrier_new (rb_count b) = Some b \<longrightarrow> rb_inv n (rb_count b) (rb_init b)"
  proof
    assume "rb_count b + n < 2 ^ 16 \<and> rbarrier_new (rb_count b) = Some b"
    then have "0 < rb_count b" "rb_rank b = 0" "rb_current b = 0" "rb_out b = 0"
      by (auto simp: rbarrier_new_def split: if_splits) (metis rbarrier.select_convs(2,3,4))+
    then show "rb_inv n (rb_count b) (rb_init b)"
      by (simp add: rb_inv_def rb_init_def rb_at_def rb_resetting_def threads_at_def round_open_def)
  qed
qed (use rb_inv_step in blast)

section \<open>More threads than the rank can count\<close>

text \<open>
  A run in four parts: \<open>c\<close> threads arrive; they leave, thread 0 last, which stays before the increment
  of \<open>out\<close>; \<open>2 ^ 16 - c\<close> threads call \<open>wait\<close> again and come late, so that the rank comes round to zero; one
  more thread calls \<open>wait\<close>.
\<close>

abbreviation rb_state :: "nat \<Rightarrow> nat \<Rightarrow> nat \<Rightarrow> nat \<Rightarrow> (nat \<Rightarrow> rb_pc) \<Rightarrow> nat \<Rightarrow> nat \<Rightarrow> rb_sys" where
  "rb_state c rank cur out f arr dep \<equiv> \<lparr>rb = \<lparr>rb_count = c, rb_rank = rank, rb_current = cur, rb_out = out\<rparr>,
     rb_pc_of = f, arrivals = arr, departures = dep, rounds = 0\<rparr>"

abbreviation rb_run :: "nat \<Rightarrow> nat \<Rightarrow> rb_sys \<Rightarrow> bool" where
  "rb_run n c \<equiv> reachable (rb_wait_step n) (rb_state c 0 0 0 (\<lambda>_. RbIdle) 0 0)"

lemma rb_all_arrive:
  assumes "k \<le> c" "c \<le> n" "c < 2 ^ 16"
  shows "rb_run n c (rb_state c k k 0 (\<lambda>t. if t < k then RbWait else RbIdle) k 0)"
  using assms(1)
proof (induction k)
  case 0
  then show ?case by (simp add: reach_init)
next
  case (Suc k)
  have "(\<lambda>t. if t < k then RbWait else RbIdle)(k := RbWait) = (\<lambda>t. if t < Suc k then RbWait else RbIdle)" by auto
  then have "run_events (rb_wait_step n) (rb_state c k k 0 (\<lambda>t. if t < k then RbWait else RbIdle) k 0) [k, k, k]
    = Some (rb_state c (Suc k) (Suc k) 0 (\<lambda>t. if t < Suc k then RbWait else RbIdle) (Suc k) 0)"
    using assms(2,3) Suc.prems by (simp add: rb_wait_step_def rb_goto_def wrap_add_def)
  then show ?case by (rule run_events_reachable) (use Suc in simp)
qed

lemma rb_all_leave:
  assumes "k < c" "c \<le> n" "c < 2 ^ 16"
  shows "rb_run n c (rb_state c c c k (\<lambda>t. if t = 0 then RbOut else if k < t \<and> t < c then RbWait else RbIdle) c (Suc k))"
  using assms(1)
proof (induction k)
  case 0
  have "(\<lambda>t. if t < c then RbWait else RbIdle)(0 := RbOut) = (\<lambda>t. if t = 0 then RbOut else if 0 < t \<and> t < c then RbWait else RbIdle)" by auto
  then have "run_events (rb_wait_step n) (rb_state c c c 0 (\<lambda>t. if t < c then RbWait else RbIdle) c 0) [0]
    = Some (rb_state c c c 0 (\<lambda>t. if t = 0 then RbOut else if 0 < t \<and> t < c then RbWait else RbIdle) c (Suc 0))"
    using assms(2) 0 by (simp add: rb_wait_step_def rb_goto_def)
  then show ?case by (rule run_events_reachable) (rule rb_all_arrive [OF order_refl assms(2,3)])
next
  case (Suc k)
  let ?f = "\<lambda>k t. if t = 0 then RbOut else if k < t \<and> t < c then RbWait else RbIdle"
  have "(?f k)(Suc k := RbIdle) = ?f (Suc k)" by auto
  then have "run_events (rb_wait_step n) (rb_state c c c k (?f k) c (Suc k)) [Suc k, Suc k] = Some (rb_state c c c (Suc k) (?f (Suc k)) c (Suc (Suc k)))"
    using assms(2,3) Suc.prems by (simp add: rb_wait_step_def rb_goto_def wrap_add_def Let_def)
  then show ?case by (rule run_events_reachable) (use Suc in simp)
qed

lemma rb_late_threads:
  assumes "c + k \<le> 2 ^ 16" "0 < c" "k < n" "c \<le> n" "c < 2 ^ 16"
  shows "rb_run n c (rb_state c ((c + k) mod 2 ^ 16) c (c - 1) (\<lambda>t. if t = 0 then RbOut else if t \<le> k then RbLate else RbIdle) c c)"
  using assms(1,3)
proof (induction k)
  case 0
  have "(\<lambda>t. if t = 0 then RbOut else if c - 1 < t \<and> t < c then RbWait else RbIdle) = (\<lambda>t. if t = 0 then RbOut else if t \<le> 0 then RbLate else RbIdle)" by (auto simp: fun_eq_iff)
  then show ?case using rb_all_leave [of "c - 1" c n] assms(2,4,5) by simp
next
  case (Suc k)
  let ?f = "\<lambda>k t. if t = 0 then RbOut else if t \<le> k then RbLate else RbIdle"
  have "(?f k)(Suc k := RbLate) = ?f (Suc k)" by auto
  then have "run_events (rb_wait_step n) (rb_state c (c + k) c (c - 1) (?f k) c c) [Suc k, Suc k]
      = Some (rb_state c (Suc (c + k) mod 2 ^ 16) c (c - 1) (?f (Suc k)) c c)"
    using Suc.prems by (simp add: rb_wait_step_def rb_goto_def wrap_add_def)
  moreover have "rb_run n c (rb_state c (c + k) c (c - 1) (?f k) c c)" using Suc by simp
  ultimately have "rb_run n c (rb_state c (Suc (c + k) mod 2 ^ 16) c (c - 1) (?f (Suc k)) c c)" by (rule run_events_reachable)
  then show ?case by simp
qed

lemma rb_first_of_next:
  assumes "2 \<le> c" "Suc c < 2 ^ 16" "Suc k < n" and r: "rb_run n c (rb_state c 0 c (c - 1) f c c)" "f (Suc k) = RbIdle"
  shows "\<exists>s. rb_run n c s \<and> arrivals s = Suc c \<and> departures s = Suc c"
proof -
  have "run_events (rb_wait_step n) (rb_state c 0 c (c - 1) f c c) [Suc k, Suc k, Suc k, Suc k]
      = Some (rb_state c 1 (Suc c) (c - 1) (f(Suc k := RbOut)) (Suc c) (Suc c))"
    using assms(1-3) r(2) by (simp add: rb_wait_step_def rb_goto_def wrap_add_def)
  from run_events_reachable [OF this r(1)] show ?thesis
    by (intro exI [of _ "rb_state c 1 (Suc c) (c - 1) (f(Suc k := RbOut)) (Suc c) (Suc c)"] conjI) simp_all
qed

text \<open>
  The rank counts late threads too: with \<open>count + n\<close> above its width it comes round to zero while a
  round is being left, and a thread of the next round passes the barrier alone.
\<close>

lemma rbarrier_rank_overflow:
  assumes "2 \<le> c" "Suc c < 2 ^ 16" "c \<le> n" "2 ^ 16 + 1 < c + n"
  shows "\<exists>b s. rbarrier_new c = Some b \<and> reachable (rb_wait_step n) (rb_init b) s \<and> arrivals s div c * c < departures s"
proof -
  let ?b = "\<lparr>rb_count = c, rb_rank = 0, rb_current = 0, rb_out = 0\<rparr>"
  define k where "k = 2 ^ 16 - c"
  then have k: "c + k = 2 ^ 16" "Suc k < n" using assms by auto
  let ?f = "\<lambda>t. if t = 0 then RbOut else if t \<le> k then RbLate else RbIdle"
  have "rb_run n c (rb_state c ((c + k) mod 2 ^ 16) c (c - 1) ?f c c)"
    by (rule rb_late_threads) (use assms k in auto)
  then have "rb_run n c (rb_state c 0 c (c - 1) ?f c c)" unfolding k(1) by simp
  from rb_first_of_next [OF assms(1,2) k(2) this] obtain s where "rb_run n c s" "arrivals s = Suc c" "departures s = Suc c" by auto
  moreover have "Suc c div c = 1" using assms(1) by (intro div_nat_eqI) auto
  moreover have "rbarrier_new c = Some ?b" "rb_init ?b = rb_state c 0 0 0 (\<lambda>_. RbIdle) 0 0"
    using assms(1) by (simp_all add: rbarrier_new_def rb_init_def)
  ultimately show ?thesis by (intro exI [of _ ?b] exI [of _ s]) simp
qed
section \<open>The property of the reusable barrier\<close>

text \<open>
  C12. No thread leaves the reusable barrier before its round is complete, as long as the count and the
  number of threads that use the barrier have a sum below \<open>2 ^ 16\<close>: whatever the threads do, and
  however often they use the barrier, the number of departures is at most the number of arrivals of
  the rounds that are complete. (With a sum above \<open>2 ^ 16 + 1\<close> the rank overflows and the barrier can be passed early,
  \<open>rbarrier_rank_overflow\<close>.)
\<close>

theorem rbarrier_rounds:
  assumes "rbarrier_new c = Some b" "c + n < 2 ^ 16" "reachable (rb_wait_step n) (rb_init b) s"
  shows "departures s \<le> arrivals s div c * c"
proof -
  have b: "rb_count b = c" "rbarrier_new (rb_count b) = Some b" using assms(1) by (auto simp: rbarrier_new_def split: if_splits)
  then have "rb_inv n c s" using rbar.reachable_inv [OF assms(3)] assms(2) by simp
  then show ?thesis
    by (auto simp: rb_inv_def round_open_def round_closing_def)
qed

theorem rbarrier_rounds_witness:
  "\<exists>b s. rbarrier_new 2 = Some b \<and> reachable (rb_wait_step 3) (rb_init b) s \<and> arrivals s = 3 \<and> departures s = 2 \<and>
     departures s \<le> arrivals s div 2 * 2"
proof -
  let ?b = "\<lparr>rb_count = 2, rb_rank = 0, rb_current = 0, rb_out = 0\<rparr>"
  have b: "rbarrier_new 2 = Some ?b" by (simp add: rbarrier_new_def)
  obtain s where s: "run_events (rb_wait_step 3) (rb_init ?b) [0, 0, 0, 1, 1, 1, 0, 1, 0, 1, 1, 1, 1, 2, 2, 2] = Some s"
    "arrivals s = 3" "departures s = 2"
    by (simp add: rb_wait_step_def rb_goto_def rb_init_def wrap_add_def)
  have r: "reachable (rb_wait_step 3) (rb_init ?b) s" using run_events_reachable [OF s(1)] by (simp add: reach_init)
  show ?thesis using b r s(2,3) rbarrier_rounds [OF b _ r] by auto
qed

end
