(* ===== verification/Net_Bytes.thy ===== *)
theory Net_Bytes
  imports Prelude "HOL-Library.Monad_Syntax"
begin

text \<open>
  Bytes of network packets: slices of a buffer, numbers in network byte order and the Internet
  checksum, from kernel/foundry/holonet/src/utils.rs, and the errors of lib.rs. The value \<open>None\<close> of an
  operation is a panic.
\<close>

type_synonym buf = "u8 list"

datatype network_error = Absent | Invalid | Uninitialized | Unsupported

type_synonym 'a network_result = "(network_error + 'a) option"

section \<open>Slices\<close>

text \<open>Indexing out of range panics, and so does copying from a slice of another length.\<close>

definition get_range :: "buf \<Rightarrow> nat \<Rightarrow> nat \<Rightarrow> buf option" where
  "get_range d i j = (if i \<le> j \<and> j \<le> length d then Some (take (j - i) (drop i d)) else None)"

definition put_range :: "buf \<Rightarrow> nat \<Rightarrow> nat \<Rightarrow> buf \<Rightarrow> buf option" where
  "put_range d i j v = (if i \<le> j \<and> j \<le> length d \<and> length v = j - i then Some (overwrite d i v) else None)"

definition get_byte :: "buf \<Rightarrow> nat \<Rightarrow> u8 option" where
  "get_byte d i = (if i < length d then Some (d ! i) else None)"

definition put_byte :: "buf \<Rightarrow> nat \<Rightarrow> u8 \<Rightarrow> buf option" where
  "put_byte d i v = (if i < length d then Some (d[i := v]) else None)"

section \<open>Network byte order\<close>

definition u16_from_inet_bytes :: "buf \<Rightarrow> u16" where
  "u16_from_inet_bytes bs = push_bit 8 (ucast (bs ! 0)) OR ucast (bs ! 1)"

definition u16_to_inet_bytes :: "u16 \<Rightarrow> buf" where
  "u16_to_inet_bytes v = [ucast (drop_bit 8 v), ucast v]"

definition u32_from_inet_bytes :: "buf \<Rightarrow> u32" where
  "u32_from_inet_bytes bs =
     push_bit 24 (ucast (bs ! 0)) OR push_bit 16 (ucast (bs ! 1)) OR push_bit 8 (ucast (bs ! 2)) OR ucast (bs ! 3)"

definition u32_to_inet_bytes :: "u32 \<Rightarrow> buf" where
  "u32_to_inet_bytes v = [ucast (drop_bit 24 v), ucast (drop_bit 16 v), ucast (drop_bit 8 v), ucast v]"

definition u64_from_inet_bytes :: "buf \<Rightarrow> u64" where
  "u64_from_inet_bytes bs =
     push_bit 32 (ucast (u32_from_inet_bytes (take 4 bs))) OR ucast (u32_from_inet_bytes (drop 4 bs))"

definition u64_to_inet_bytes :: "u64 \<Rightarrow> buf" where
  "u64_to_inet_bytes v = u32_to_inet_bytes (ucast (drop_bit 32 v)) @ u32_to_inet_bytes (ucast v)"

text \<open>An IPv4 address of the standard library is its 32-bit number; its octets are in network byte order.\<close>

type_synonym ipv4_addr = u32

definition ipv4_octets :: "ipv4_addr \<Rightarrow> buf" where
  "ipv4_octets a = u32_to_inet_bytes a"

definition ipv4_from_octets :: "buf \<Rightarrow> ipv4_addr option" where
  "ipv4_from_octets bs = (if length bs = 4 then Some (u32_from_inet_bytes bs) else None)"

text \<open>\<open>unwrap\<close> of an error panics.\<close>

definition unwrap :: "'e + 'a \<Rightarrow> 'a option" where
  "unwrap r = (case r of Inl _ \<Rightarrow> None | Inr x \<Rightarrow> Some x)"

section \<open>The checksum\<close>

text \<open>The loop over 16-bit words, the loop that adds the carry, and the conversion at the end.\<close>

fun sum_words :: "u32 \<Rightarrow> buf \<Rightarrow> u32" where
  "sum_words s [] = s"
| "sum_words s [a] = s + ucast (u16_from_inet_bytes [a, 0])"
| "sum_words s (a # b # bs) = sum_words (s + ucast (u16_from_inet_bytes [a, b])) bs"

lemma split_16: "n = n mod 65536 + n div 65536 + 65535 * (n div 65536)" for n :: nat
  using div_mult_mod_eq [of n 65536] by linarith

lemma unat_carry_parts: "unat (s AND mask 16) = unat s mod 65536" "unat (drop_bit 16 s) = unat s div 65536" for s :: u32
  by (simp_all only: unat_and_mask unat_drop_bit_eq drop_bit_eq_div [where 'a = nat]) simp_all

lemma carry_less:
  assumes "0 < drop_bit 16 (s :: u32)"
  shows "unat ((s AND mask 16) + drop_bit 16 s) = unat s mod 65536 + unat s div 65536"
    "unat s mod 65536 + unat s div 65536 < unat s"
proof -
  have "0 < unat (drop_bit 16 s)" using assms by (simp only: unat_gt_0 word_gt_0)
  then show less: "unat s mod 65536 + unat s div 65536 < unat s"
    unfolding unat_carry_parts using split_16 [of "unat s"] by linarith
  then have "unat (s AND mask 16) + unat (drop_bit 16 s) < 2 ^ LENGTH(32)"
    using unsigned_less [of s] unfolding unat_carry_parts by (rule order.strict_trans)
  then show "unat ((s AND mask 16) + drop_bit 16 s) = unat s mod 65536 + unat s div 65536"
    using unat_add_lem [of "s AND mask 16" "drop_bit 16 s"] unfolding unat_carry_parts by blast
qed

lemma mask_16: "0xFFFF = (mask 16 :: u32)"
  by (simp add: mask_eq_exp_minus_1)

function fold_carry :: "u32 \<Rightarrow> u32" where
  "fold_carry s = (if drop_bit 16 s > 0 then fold_carry ((s AND 0xFFFF) + drop_bit 16 s) else s)"
  by pat_completeness auto
termination
  by (relation "measure unat") (use carry_less in \<open>auto simp: mask_16\<close>)

declare fold_carry.simps [simp del]

definition u16_try_from :: "u32 \<Rightarrow> u16 option" where
  "u16_try_from v = (if v < 0x10000 then Some (ucast v) else None)"

definition checksum :: "buf \<Rightarrow> u16 option" where
  "checksum buffer = do {
     v \<leftarrow> u16_try_from (fold_carry (sum_words 0 buffer));
     Some (NOT v)
   }"

definition checksum_with_pseudo :: "buf \<Rightarrow> buf \<Rightarrow> u16 option" where
  "checksum_with_pseudo pseudo_header dat = do {
     v \<leftarrow> u16_try_from (fold_carry (sum_words (sum_words 0 pseudo_header) dat));
     Some (NOT v)
   }"

section \<open>Round trips of numbers\<close>

lemma unat_u8: "unat (a :: u8) < 256" "unat a \<le> 255"
  using unsigned_less [of a, where 'a = nat] by simp_all

lemma bit_u16_from_inet_bytes: "bit (u16_from_inet_bytes bs) n \<longleftrightarrow> (if n < 8 then bit (bs ! 1) n else n < 16 \<and> bit (bs ! 0) (n - 8))"
  unfolding u16_from_inet_bytes_def by (auto simp: bit_simps dest: bit_u8)

lemma bit_u32_from_inet_bytes:
  "bit (u32_from_inet_bytes bs) n \<longleftrightarrow>
     (if n < 8 then bit (bs ! 3) n else if n < 16 then bit (bs ! 2) (n - 8) else if n < 24 then bit (bs ! 1) (n - 16)
      else n < 32 \<and> bit (bs ! 0) (n - 24))"
  unfolding u32_from_inet_bytes_def by (auto simp: bit_simps dest: bit_u8)

lemma u16_inet_bytes [simp]: "u16_from_inet_bytes (u16_to_inet_bytes v) = v"
  by (rule bit_word_eqI) (auto simp: bit_u16_from_inet_bytes u16_to_inet_bytes_def bit_simps)

lemma u32_inet_bytes [simp]: "u32_from_inet_bytes (u32_to_inet_bytes v) = v"
  by (rule bit_word_eqI) (auto simp: bit_u32_from_inet_bytes u32_to_inet_bytes_def bit_simps)

lemma length_inet_bytes [simp]: "length (u16_to_inet_bytes v) = 2" "length (u32_to_inet_bytes w) = 4"
  by (simp_all add: u16_to_inet_bytes_def u32_to_inet_bytes_def)

lemma u64_inet_bytes: "u64_from_inet_bytes (u64_to_inet_bytes v) = v"
  by (rule bit_word_eqI) (auto simp: u64_from_inet_bytes_def u64_to_inet_bytes_def bit_simps)

lemma unat_u16_from_inet_bytes: "unat (u16_from_inet_bytes [a, b]) = unat a * 256 + unat b"
proof -
  have or_eq: "push_bit 8 (ucast a :: u16) OR ucast b = push_bit 8 (ucast a) + ucast b"
    by (rule disjunctive_add [symmetric]) (auto simp: bit_simps dest: bit_u8)
  have "unat (ucast a :: u16) = unat a" using unat_u8(1) [of a] by (simp add: unat_ucast)
  then have "unat (push_bit 8 (ucast a :: u16)) = unat a * 256"
    using unat_u8(2) [of a] unat_mult_lem [of "ucast a :: u16" 256] by (simp add: push_bit_eq_mult)
  moreover have "unat (ucast b :: u16) = unat b" using unat_u8(2) [of b] by (simp add: unat_ucast)
  moreover have "unat a * 256 + unat b < 2 ^ 16" using unat_u8(2) [of a] unat_u8(2) [of b] by simp
  ultimately show ?thesis
    using unat_add_lem [of "push_bit 8 (ucast a :: u16)" "ucast b"] by (simp add: u16_from_inet_bytes_def or_eq)
qed

section \<open>Fields of a buffer\<close>

text \<open>Writing a field that fits overwrites it; other fields keep their value.\<close>

named_theorems wire_simps \<open>reading and writing of fields\<close>

definition put_at :: "buf \<Rightarrow> nat \<Rightarrow> buf \<Rightarrow> buf" where
  "put_at d i v = (if i + length v \<le> length d then overwrite d i v else d)"

lemma length_put_at [wire_simps]: "length (put_at d i v) = length d"
  by (simp add: put_at_def length_overwrite)

lemma put_range_fits [wire_simps]: "j \<le> length d \<Longrightarrow> i \<le> j \<Longrightarrow> length v = j - i \<Longrightarrow> put_range d i j v = Some (put_at d i v)"
  by (simp add: put_range_def put_at_def)

lemma put_byte_fits [wire_simps]: "i < length d \<Longrightarrow> put_byte d i v = Some (put_at d i [v])"
  by (simp add: put_byte_def put_at_def overwrite_def upd_conv_take_nth_drop)

lemma get_range_same [wire_simps]: "j = i + length v \<Longrightarrow> j \<le> length d \<Longrightarrow> get_range (put_at d i v) i j = Some v"
  by (simp add: get_range_def put_at_def overwrite_def)

lemma drop_put_at [wire_simps]: "i + length v \<le> n \<Longrightarrow> drop n (put_at d i v) = drop n d"
  by (simp add: put_at_def overwrite_def)

lemma get_range_other [wire_simps]:
  assumes "j \<le> p \<or> p + length v \<le> i" "i \<le> j"
  shows "get_range (put_at d p v) i j = get_range d i j"
  using assms(1)
proof
  assume "j \<le> p"
  then have "take (j - i) (drop i (put_at d p v)) = take (j - i) (drop i d)"
    using assms(2) by (simp add: put_at_def overwrite_def drop_take min_absorb1)
  then show ?thesis by (simp add: get_range_def length_put_at)
next
  assume "p + length v \<le> i"
  then show ?thesis by (simp add: get_range_def length_put_at drop_put_at)
qed

lemma get_byte_put_at [wire_simps]:
  assumes "p + length v \<le> length d"
  shows "get_byte (put_at d p v) i = (if p \<le> i \<and> i < p + length v then Some (v ! (i - p)) else get_byte d i)"
proof -
  have "overwrite d p v ! i = (if p \<le> i \<and> i < p + length v then v ! (i - p) else d ! i)" if i: "i < length d"
  proof (cases "i < p")
    case True
    then show ?thesis using assms by (simp add: overwrite_def nth_append)
  next
    case False
    then show ?thesis using assms i by (cases "i - p < length v") (auto simp: overwrite_def nth_append)
  qed
  then show ?thesis using assms by (auto simp: get_byte_def put_at_def length_overwrite)
qed

lemma put_range_again: "length v = j - i \<Longrightarrow> length w = j - i \<Longrightarrow> j \<le> length d \<Longrightarrow> i \<le> j \<Longrightarrow>
    put_range (put_at d i v) i j w = Some (put_at d i w)"
  by (simp add: put_range_def put_at_def overwrite_def)

lemma get_range_rest [wire_simps]: "n \<le> length d \<Longrightarrow> get_range d n (length d) = Some (drop n d)"
  by (simp add: get_range_def)

text \<open>
  The contract of a packet format: a representation that fits a buffer can be emitted, parsing gives it
  back in the form \<open>canon\<close>, and the bytes after the header are the payload, which is untouched.
\<close>

locale wire_format =
  fixes emit :: "'r \<Rightarrow> buf \<Rightarrow> buf option" and parse :: "buf \<Rightarrow> 'r network_result" and payload :: "buf \<Rightarrow> buf option"
    and fits :: "'r \<Rightarrow> buf \<Rightarrow> bool" and canon :: "'r \<Rightarrow> 'r" and hdr :: nat
  assumes emit_parse: "fits r d \<Longrightarrow> \<exists>d'. emit r d = Some d' \<and> parse d' = Some (Inr (canon r)) \<and>
      length d' = length d \<and> payload d' = Some (drop hdr d)"
    and fits_same: "fits r d \<Longrightarrow> length d' = length d \<Longrightarrow> fits r d'"
begin

text \<open>Writing the payload of a packet first and its header then sends both.\<close>

lemma emit_with_payload:
  assumes "fits r d" "length p = length (drop hdr d)" "hdr \<le> length d"
  shows "\<exists>d'. emit r (take hdr d @ p) = Some d' \<and> parse d' = Some (Inr (canon r)) \<and> payload d' = Some p \<and> length d' = length d"
proof -
  have "length (take hdr d @ p) = length d" using assms(2,3) by simp
  then have "fits r (take hdr d @ p)" using fits_same [OF assms(1)] by simp
  then show ?thesis using emit_parse [of r "take hdr d @ p"] assms(2,3) by auto
qed

end

text \<open>A packet carried by another one.\<close>

locale encapsulation =
  outer: wire_format emit1 parse1 payload1 fits1 canon1 hdr1 +
  inner: wire_format emit2 parse2 payload2 fits2 canon2 hdr2
  for emit1 :: "'r \<Rightarrow> buf \<Rightarrow> buf option" and parse1 payload1 fits1 canon1 hdr1
    and emit2 :: "'s \<Rightarrow> buf \<Rightarrow> buf option" and parse2 payload2 fits2 canon2 hdr2
begin

lemma encapsulated:
  assumes "fits1 r d" "hdr1 \<le> length d" "fits2 s (drop hdr1 d)"
  shows "\<exists>p d'. emit2 s (drop hdr1 d) = Some p \<and> emit1 r (take hdr1 d @ p) = Some d' \<and>
    parse1 d' = Some (Inr (canon1 r)) \<and> payload1 d' = Some p \<and> parse2 p = Some (Inr (canon2 s)) \<and>
    payload2 p = Some (drop (hdr1 + hdr2) d) \<and> length d' = length d"
proof -
  obtain p where p: "emit2 s (drop hdr1 d) = Some p" "parse2 p = Some (Inr (canon2 s))"
    "length p = length (drop hdr1 d)" "payload2 p = Some (drop hdr2 (drop hdr1 d))"
    using inner.emit_parse [OF assms(3)] by blast
  then show ?thesis using outer.emit_with_payload [OF assms(1) p(3) assms(2)] by (auto simp: add.commute)
qed

end

section \<open>The one's complement sum\<close>

text \<open>The definition of the checksum: 16-bit words are added with the carry brought around.\<close>

fun words16 :: "buf \<Rightarrow> nat list" where
  "words16 [] = []"
| "words16 [a] = [unat a * 256]"
| "words16 (a # b # bs) = (unat a * 256 + unat b) # words16 bs"

definition ones_add :: "nat \<Rightarrow> nat \<Rightarrow> nat" where
  "ones_add a b = (if a + b < 2 ^ 16 then a + b else a + b - (2 ^ 16 - 1))"

definition internet_checksum :: "nat list \<Rightarrow> nat" where
  "internet_checksum ws = 2 ^ 16 - 1 - fold ones_add ws 0"

definition ones_of :: "nat \<Rightarrow> nat" where
  "ones_of n = (if n = 0 then 0 else if n mod 65535 = 0 then 65535 else n mod 65535)"

lemma ones_of_le: "ones_of n \<le> 65535"
  by (auto simp: ones_of_def intro: less_imp_le)

lemma ones_ofI:
  assumes "x mod 65535 = n mod 65535" "x \<le> 65535" "x = 0 \<longleftrightarrow> n = 0"
  shows "x = ones_of n"
  using assms by (cases "x = 65535") (auto simp: ones_of_def)

lemma ones_of_mod: "ones_of n mod 65535 = n mod 65535" "ones_of n = 0 \<longleftrightarrow> n = 0"
  by (auto simp: ones_of_def)

lemma ones_add_of: "ones_add w (ones_of n) = ones_of (w + n)" if "w \<le> 65535"
proof (rule ones_ofI)
  have "(w + ones_of n) mod 65535 = (w + n) mod 65535" using ones_of_mod(1) by (metis mod_add_right_eq)
  moreover have "65535 \<le> w + ones_of n \<Longrightarrow> (w + ones_of n) mod 65535 = (w + ones_of n - 65535) mod 65535"
    by (rule le_mod_geq)
  ultimately show "ones_add w (ones_of n) mod 65535 = (w + n) mod 65535"
    by (cases "w + ones_of n < 65536") (simp_all add: ones_add_def)
  show "ones_add w (ones_of n) \<le> 65535" using that ones_of_le [of n] by (auto simp: ones_add_def)
  show "ones_add w (ones_of n) = 0 \<longleftrightarrow> w + n = 0" using ones_of_mod(2) [of n] by (auto simp: ones_add_def)
qed

lemma words16_le: "w \<in> set (words16 d) \<Longrightarrow> w \<le> 65535"
proof (induction d rule: words16.induct)
  case (2 a)
  then show ?case using unat_u8(2) [of a] by simp
next
  case (3 a b bs)
  then show ?case using unat_u8(2) [of a] unat_u8(2) [of b] by auto
qed simp

lemma ones_sum: "(\<forall>w \<in> set ws. w \<le> 65535) \<Longrightarrow> fold ones_add ws (ones_of n) = ones_of (n + sum_list ws)"
  by (induction ws arbitrary: n) (simp_all add: ones_add_of add_ac)

lemma internet_checksum_eq: "internet_checksum (words16 d) = 65535 - ones_of (sum_list (words16 d))"
  using ones_sum [of "words16 d" 0] words16_le by (simp add: internet_checksum_def ones_of_def)

lemma sum_words16_le: "sum_list (words16 d) \<le> 65535 * ((length d + 1) div 2)"
proof (induction d rule: words16.induct)
  case (2 a)
  then show ?case using unat_u8(2) [of a] by simp
next
  case (3 a b bs)
  then show ?case using unat_u8(2) [of a] unat_u8(2) [of b] by simp
qed simp

lemma unat_sum_words: "unat s + sum_list (words16 d) < 2 ^ 32 \<Longrightarrow> unat (sum_words s d) = unat s + sum_list (words16 d)"
proof (induction s d rule: sum_words.induct)
  case (2 s a)
  have "unat (ucast (u16_from_inet_bytes [a, 0]) :: u32) = unat a * 256"
    using unat_u8(2) [of a] by (simp add: unat_ucast unat_u16_from_inet_bytes)
  then show ?case using 2 unat_add_lem [of s "ucast (u16_from_inet_bytes [a, 0])"] by simp
next
  case (3 s a b bs)
  have "unat (ucast (u16_from_inet_bytes [a, b]) :: u32) = unat a * 256 + unat b"
    using unat_u8(2) [of a] unat_u8(2) [of b] by (simp add: unat_ucast unat_u16_from_inet_bytes)
  then have "unat (s + ucast (u16_from_inet_bytes [a, b])) = unat s + (unat a * 256 + unat b)"
    using 3(2) unat_add_lem [of s "ucast (u16_from_inet_bytes [a, b])"] by simp
  then show ?case using 3 by simp
qed simp

lemma unat_fold_carry: "unat (fold_carry s) = ones_of (unat s)"
proof (induction s rule: fold_carry.induct)
  case (1 s)
  show ?case
  proof (cases "drop_bit 16 s > 0")
    case True
    note c = carry_less [OF True]
    let ?n = "unat s mod 65536 + unat s div 65536"
    have split: "unat s = ?n + 65535 * (unat s div 65536)" by (rule split_16)
    then have "unat s mod 65535 = ?n mod 65535" by (metis mod_mult_self2)
    moreover have "?n = 0 \<longleftrightarrow> unat s = 0" using split by linarith
    ultimately have same: "ones_of ?n = ones_of (unat s)" by (simp only: ones_of_def)
    have "fold_carry s = fold_carry ((s AND mask 16) + drop_bit 16 s)"
      using True by (subst fold_carry.simps) (simp only: if_True mask_16)
    then show ?thesis using 1 [OF True] c(1) same by (simp only: mask_16)
  next
    case False
    then have "drop_bit 16 s = 0" by (simp only: word_gt_0 not_not)
    then have "unat s div 65536 = 0" using unat_carry_parts(2) [of s] by (simp only: unat_0)
    then have "unat s = ones_of (unat s)" by (intro ones_ofI) (auto simp: div_eq_0_iff)
    moreover have "fold_carry s = s" using False by (subst fold_carry.simps) (simp only: if_False)
    ultimately show ?thesis by simp
  qed
qed

lemma unat_not: "unat (NOT v :: u16) = 65535 - unat v"
proof -
  have "NOT v = - 1 - v" by (simp add: not_eq_complement)
  then show ?thesis by (simp add: unat_sub)
qed

lemma unat_u16_of_nat: "unat (word_of_nat (65535 - n) :: u16) = 65535 - n"
  by (simp only: unat_of_nat) simp

lemma checksum_with_pseudo_eq:
  assumes "sum_list (words16 p) + sum_list (words16 d) < 2 ^ 32"
  shows "checksum_with_pseudo p d = Some (word_of_nat (65535 - ones_of (sum_list (words16 p) + sum_list (words16 d))))"
proof -
  let ?s = "fold_carry (sum_words (sum_words 0 p) d)"
  have "unat (sum_words 0 p) = sum_list (words16 p)" using unat_sum_words [of 0 p] assms by simp
  then have s: "unat ?s = ones_of (sum_list (words16 p) + sum_list (words16 d))"
    using unat_sum_words [of "sum_words 0 p" d] assms by (simp add: unat_fold_carry)
  then have small: "unat ?s < 2 ^ 16" using ones_of_le [of "sum_list (words16 p) + sum_list (words16 d)"] by simp
  then have "?s < 0x10000" by (simp add: word_less_nat_alt)
  moreover have "NOT (ucast ?s :: u16) = word_of_nat (65535 - unat ?s)"
  proof (rule word_unat_eq_iff [THEN iffD2])
    have "unat (ucast ?s :: u16) = unat ?s" using small by (simp add: unat_ucast)
    then show "unat (NOT (ucast ?s :: u16)) = unat (word_of_nat (65535 - unat ?s) :: u16)"
      by (simp only: unat_not unat_u16_of_nat diff_le_self)
  qed
  ultimately show ?thesis by (simp add: checksum_with_pseudo_def u16_try_from_def s)
qed

lemma checksum_no_pseudo: "checksum d = checksum_with_pseudo [] d"
  by (simp add: checksum_def checksum_with_pseudo_def)

lemma words16_append: "even (length xs) \<Longrightarrow> words16 (xs @ ys) = words16 xs @ words16 ys"
  by (induction xs rule: words16.induct) auto

lemma words16_inet_bytes: "words16 (u16_to_inet_bytes v) = [unat v]"
proof -
  have "unat (u16_from_inet_bytes (u16_to_inet_bytes v)) = unat v" by simp
  then show ?thesis unfolding u16_to_inet_bytes_def unat_u16_from_inet_bytes by simp
qed

lemma sum_words16_overwrite:
  assumes "even i" "i + 2 \<le> length d"
  shows "sum_list (words16 (overwrite d i (u16_to_inet_bytes v)))
    = sum_list (words16 (take i d)) + unat v + sum_list (words16 (drop (i + 2) d))"
proof -
  have "even (length (take i d))" using assms by simp
  then have "words16 (overwrite d i (u16_to_inet_bytes v)) = words16 (take i d) @ [unat v] @ words16 (drop (i + 2) d)"
    by (simp add: overwrite_def words16_append words16_inet_bytes)
  then show ?thesis by simp
qed

text \<open>
  A checksum stored at an even offset makes the checksum of the packet zero, which is what a receiver
  checks. The same holds when the checksum 0 is replaced by its other representation.
\<close>

lemma checksum_fills:
  assumes "even i" "i + 2 \<le> length d" "length p + length d \<le> 131000"
  shows "\<exists>c. checksum_with_pseudo p (overwrite d i (u16_to_inet_bytes 0)) = Some c \<and>
    checksum_with_pseudo p (overwrite d i (u16_to_inet_bytes c)) = Some 0 \<and>
    (c = 0 \<longrightarrow> checksum_with_pseudo p (overwrite d i (u16_to_inet_bytes 0xFFFF)) = Some 0)"
proof -
  let ?d = "\<lambda>v. overwrite d i (u16_to_inet_bytes v)"
  define n where "n = sum_list (words16 p) + sum_list (words16 (?d 0))"
  define c :: u16 where "c = word_of_nat (65535 - ones_of n)"
  have len: "length (?d v) = length d" for v using assms(2) by (simp add: length_overwrite)
  have fits: "sum_list (words16 p) + sum_list (words16 (?d v)) < 2 ^ 32" for v
    using sum_words16_le [of p] sum_words16_le [of "?d v"] assms(3) len [of v] by simp
  have sum: "sum_list (words16 p) + sum_list (words16 (?d v)) = n + unat v" for v
    using sum_words16_overwrite [OF assms(1,2)] by (simp add: n_def)
  have check: "checksum_with_pseudo p (?d v) = Some (word_of_nat (65535 - ones_of (n + unat v)))" for v
    using checksum_with_pseudo_eq [OF fits] by (simp add: sum)
  have uc: "unat c = 65535 - ones_of n" unfolding c_def by (rule unat_u16_of_nat)
  have zero: "checksum_with_pseudo p (?d v) = Some 0" if "(n + unat v) mod 65535 = 0" "0 < n + unat v" for v
    using check [of v] that by (simp add: ones_of_def)
  have m: "(n + (65535 - ones_of n)) mod 65535 = 0"
  proof -
    have "(n + (65535 - ones_of n)) mod 65535 = (ones_of n + (65535 - ones_of n)) mod 65535"
      by (metis mod_add_left_eq ones_of_mod(1))
    then show ?thesis using ones_of_le [of n] by simp
  qed
  have "checksum_with_pseudo p (?d c) = Some 0"
    using zero [of c] m uc ones_of_mod(2) [of n] ones_of_le [of n] by auto
  moreover have "checksum_with_pseudo p (?d 0xFFFF) = Some 0" if "c = 0"
  proof -
    have "ones_of n = 65535" using uc that ones_of_le [of n] by simp
    then have "n mod 65535 = 0" using ones_of_mod(1) [of n] by simp
    then show ?thesis using zero [of "0xFFFF"] by (simp add: mod_add_left_eq)
  qed
  ultimately show ?thesis using check [of 0] by (auto simp: c_def)
qed

lemma checksum_fills_at:
  assumes "even i" "i + 2 \<le> length d" "length p + length d \<le> 131000"
  shows "\<exists>c. checksum_with_pseudo p (put_at d i (u16_to_inet_bytes 0)) = Some c \<and>
    checksum_with_pseudo p (put_at d i (u16_to_inet_bytes c)) = Some 0 \<and>
    (c = 0 \<longrightarrow> checksum_with_pseudo p (put_at d i (u16_to_inet_bytes 0xFFFF)) = Some 0)"
  using checksum_fills [OF assms] assms(2) by (simp add: put_at_def)

text \<open>
  C19. The checksum is the Internet checksum: for every buffer of at most 131072 bytes it is the
  complement of the sum of the 16-bit words with end-around carry, and it never panics.
\<close>

theorem checksum_correct:
  assumes "length buffer \<le> 131072"
  shows "\<exists>c. checksum buffer = Some c \<and> unat c = internet_checksum (words16 buffer)"
proof -
  have "sum_list (words16 buffer) < 2 ^ 32" using sum_words16_le [of buffer] assms by simp
  then show ?thesis
    unfolding checksum_no_pseudo internet_checksum_eq using checksum_with_pseudo_eq [of "[]" buffer]
    by (simp add: unat_u16_of_nat del: of_nat_diff)
qed

theorem checksum_correct_witness:
  "\<exists>c. checksum [0x45, 0x00, 0xF0, 0x14, 0xFF] = Some c \<and> unat c = 52201"
  using checksum_correct [of "[0x45, 0x00, 0xF0, 0x14, 0xFF]"] by (simp add: internet_checksum_def ones_add_def)

end
