(* ===== verification/Net_Link.thy ===== *)
theory Net_Link
  imports Net_Bytes
begin

text \<open>
  Ethernet frames (kernel/foundry/holonet/src/l2/ethernet.rs) and ARP packets (l3/arp.rs). A frame or a
  packet is its buffer; a getter that panics returns \<open>None\<close>, a setter returns the new buffer.
\<close>

section \<open>Ethernet\<close>

datatype ethertype = IpV4 | Arp | IpV6

definition ethertype_try_from :: "u16 \<Rightarrow> network_error + ethertype" where
  "ethertype_try_from v =
     (if v = 0x0800 then Inr IpV4 else if v = 0x0806 then Inr Arp else if v = 0x86DD then Inr IpV6 else Inl Invalid)"

definition ethertype_into :: "ethertype \<Rightarrow> u16" where
  "ethertype_into t = (case t of IpV4 \<Rightarrow> 0x0800 | Arp \<Rightarrow> 0x0806 | IpV6 \<Rightarrow> 0x86DD)"

text \<open>An address is an array of six bytes.\<close>

type_synonym mac_address = buf

definition MAC_BROADCAST :: mac_address where
  "MAC_BROADCAST = replicate 6 0xFF"

definition mac_from_bytes :: "buf \<Rightarrow> mac_address option" where
  "mac_from_bytes dat = (if length dat = 6 then Some dat else None)"

definition mac_is_broadcast :: "mac_address \<Rightarrow> bool" where
  "mac_is_broadcast a \<longleftrightarrow> a = MAC_BROADCAST"

definition mac_is_multicast :: "mac_address \<Rightarrow> bool" where
  "mac_is_multicast a \<longleftrightarrow> (a ! 0) AND 0x01 \<noteq> 0"

definition mac_is_local :: "mac_address \<Rightarrow> bool" where
  "mac_is_local a \<longleftrightarrow> (a ! 0) AND 0x02 \<noteq> 0"

definition mac_is_unicast :: "mac_address \<Rightarrow> bool" where
  "mac_is_unicast a \<longleftrightarrow> \<not> (mac_is_broadcast a \<or> mac_is_multicast a)"

definition ETH_HEADER_LEN :: nat where "ETH_HEADER_LEN = 14"

definition eth_check_len :: "buf \<Rightarrow> network_error + unit" where
  "eth_check_len d = (if length d \<ge> ETH_HEADER_LEN then Inr () else Inl Invalid)"

definition eth_new :: "buf \<Rightarrow> network_error + buf" where
  "eth_new d = (case eth_check_len d of Inl e \<Rightarrow> Inl e | Inr _ \<Rightarrow> Inr d)"

definition eth_dst_addr :: "buf \<Rightarrow> mac_address option" where
  "eth_dst_addr d = do { bs \<leftarrow> get_range d 0 6; mac_from_bytes bs }"

definition eth_src_addr :: "buf \<Rightarrow> mac_address option" where
  "eth_src_addr d = do { bs \<leftarrow> get_range d 6 12; mac_from_bytes bs }"

definition eth_ethertype :: "buf \<Rightarrow> ethertype option" where
  "eth_ethertype d = do { bs \<leftarrow> get_range d 12 14; unwrap (ethertype_try_from (u16_from_inet_bytes bs)) }"

definition eth_payload :: "buf \<Rightarrow> buf option" where
  "eth_payload d = get_range d 14 (length d)"

definition eth_set_dst_addr :: "buf \<Rightarrow> mac_address \<Rightarrow> buf option" where
  "eth_set_dst_addr d a = put_range d 0 6 a"

definition eth_set_src_addr :: "buf \<Rightarrow> mac_address \<Rightarrow> buf option" where
  "eth_set_src_addr d a = put_range d 6 12 a"

definition eth_set_ethertype :: "buf \<Rightarrow> ethertype \<Rightarrow> buf option" where
  "eth_set_ethertype d t = put_range d 12 14 (u16_to_inet_bytes (ethertype_into t))"

record eth_repr =
  eth_r_src :: mac_address
  eth_r_dst :: mac_address
  eth_r_type :: ethertype

definition eth_parse :: "buf \<Rightarrow> eth_repr network_result" where
  "eth_parse d =
     (case eth_check_len d of
        Inl e \<Rightarrow> Some (Inl e)
      | Inr _ \<Rightarrow> do {
          src \<leftarrow> eth_src_addr d;
          dst \<leftarrow> eth_dst_addr d;
          ty \<leftarrow> eth_ethertype d;
          Some (Inr \<lparr>eth_r_src = src, eth_r_dst = dst, eth_r_type = ty\<rparr>)
        })"

definition eth_emit :: "eth_repr \<Rightarrow> buf \<Rightarrow> buf option" where
  "eth_emit r d =
     (if length d \<ge> ETH_HEADER_LEN
      then do {
        d1 \<leftarrow> eth_set_src_addr d (eth_r_src r);
        d2 \<leftarrow> eth_set_dst_addr d1 (eth_r_dst r);
        eth_set_ethertype d2 (eth_r_type r)
      }
      else None)"

section \<open>ARP\<close>

datatype hardware = Ethernet

definition hardware_try_from :: "u16 \<Rightarrow> network_error + hardware" where
  "hardware_try_from v = (if v = 1 then Inr Ethernet else Inl Invalid)"

definition hardware_into :: "hardware \<Rightarrow> u16" where
  "hardware_into h = (case h of Ethernet \<Rightarrow> 1)"

datatype operation = Request | Reply

definition operation_try_from :: "u16 \<Rightarrow> network_error + operation" where
  "operation_try_from v = (if v = 1 then Inr Request else if v = 2 then Inr Reply else Inl Invalid)"

definition operation_into :: "operation \<Rightarrow> u16" where
  "operation_into p = (case p of Request \<Rightarrow> 1 | Reply \<Rightarrow> 2)"

text \<open>The ranges of the address fields depend on the lengths that the packet gives.\<close>

definition SOURCE_HARDWARE_ADDR_RANGE :: "u8 \<Rightarrow> nat \<times> nat" where
  "SOURCE_HARDWARE_ADDR_RANGE hl = (8, 8 + unat hl)"

definition SOURCE_PROTOCOL_ADDR_RANGE :: "u8 \<Rightarrow> u8 \<Rightarrow> nat \<times> nat" where
  "SOURCE_PROTOCOL_ADDR_RANGE hl pl = (let start = 8 + unat hl in (start, start + unat pl))"

definition TARGET_HARDWARE_ADDR_RANGE :: "u8 \<Rightarrow> u8 \<Rightarrow> nat \<times> nat" where
  "TARGET_HARDWARE_ADDR_RANGE hl pl = (let start = 8 + unat hl + unat pl in (start, start + unat hl))"

definition TARGET_PROTOCOL_ADDR_RANGE :: "u8 \<Rightarrow> u8 \<Rightarrow> nat \<times> nat" where
  "TARGET_PROTOCOL_ADDR_RANGE hl pl = (let start = 8 + 2 * unat hl + unat pl in (start, start + unat pl))"

definition arp_hardware_type :: "buf \<Rightarrow> hardware option" where
  "arp_hardware_type d = do { bs \<leftarrow> get_range d 0 2; unwrap (hardware_try_from (u16_from_inet_bytes bs)) }"

definition arp_protocol_type :: "buf \<Rightarrow> ethertype option" where
  "arp_protocol_type d = do { bs \<leftarrow> get_range d 2 4; unwrap (ethertype_try_from (u16_from_inet_bytes bs)) }"

definition arp_hardware_len :: "buf \<Rightarrow> u8 option" where
  "arp_hardware_len d = get_byte d 4"

definition arp_protocol_len :: "buf \<Rightarrow> u8 option" where
  "arp_protocol_len d = get_byte d 5"

definition arp_operation :: "buf \<Rightarrow> operation option" where
  "arp_operation d = do { bs \<leftarrow> get_range d 6 8; unwrap (operation_try_from (u16_from_inet_bytes bs)) }"

definition arp_check_len :: "buf \<Rightarrow> unit network_result" where
  "arp_check_len d = do {
     hl \<leftarrow> arp_hardware_len d;
     pl \<leftarrow> arp_protocol_len d;
     Some (if length d \<ge> snd (TARGET_PROTOCOL_ADDR_RANGE hl pl) then Inr () else Inl Invalid)
   }"

definition arp_new :: "buf \<Rightarrow> buf network_result" where
  "arp_new d = do { r \<leftarrow> arp_check_len d; Some (case r of Inl e \<Rightarrow> Inl e | Inr _ \<Rightarrow> Inr d) }"

definition arp_source_hardware_addr :: "buf \<Rightarrow> buf option" where
  "arp_source_hardware_addr d = do {
     hl \<leftarrow> arp_hardware_len d;
     (case SOURCE_HARDWARE_ADDR_RANGE hl of (i, j) \<Rightarrow> get_range d i j)
   }"

definition arp_source_protocol_addr :: "buf \<Rightarrow> buf option" where
  "arp_source_protocol_addr d = do {
     hl \<leftarrow> arp_hardware_len d;
     pl \<leftarrow> arp_protocol_len d;
     (case SOURCE_PROTOCOL_ADDR_RANGE hl pl of (i, j) \<Rightarrow> get_range d i j)
   }"

definition arp_target_hardware_addr :: "buf \<Rightarrow> buf option" where
  "arp_target_hardware_addr d = do {
     hl \<leftarrow> arp_hardware_len d;
     pl \<leftarrow> arp_protocol_len d;
     (case TARGET_HARDWARE_ADDR_RANGE hl pl of (i, j) \<Rightarrow> get_range d i j)
   }"

definition arp_target_protocol_addr :: "buf \<Rightarrow> buf option" where
  "arp_target_protocol_addr d = do {
     hl \<leftarrow> arp_hardware_len d;
     pl \<leftarrow> arp_protocol_len d;
     (case TARGET_PROTOCOL_ADDR_RANGE hl pl of (i, j) \<Rightarrow> get_range d i j)
   }"

definition arp_buffer_len :: nat where
  "arp_buffer_len = snd (TARGET_PROTOCOL_ADDR_RANGE 6 4)"

definition arp_set_hardware_type :: "buf \<Rightarrow> hardware \<Rightarrow> buf option" where
  "arp_set_hardware_type d h = put_range d 0 2 (u16_to_inet_bytes (hardware_into h))"

definition arp_set_protocol_type :: "buf \<Rightarrow> ethertype \<Rightarrow> buf option" where
  "arp_set_protocol_type d t = put_range d 2 4 (u16_to_inet_bytes (ethertype_into t))"

definition arp_set_hardware_len :: "buf \<Rightarrow> u8 \<Rightarrow> buf option" where
  "arp_set_hardware_len d v = put_byte d 4 v"

definition arp_set_protocol_len :: "buf \<Rightarrow> u8 \<Rightarrow> buf option" where
  "arp_set_protocol_len d v = put_byte d 5 v"

definition arp_set_operation :: "buf \<Rightarrow> operation \<Rightarrow> buf option" where
  "arp_set_operation d p = put_range d 6 8 (u16_to_inet_bytes (operation_into p))"

definition arp_set_source_hardware_addr :: "buf \<Rightarrow> buf \<Rightarrow> buf option" where
  "arp_set_source_hardware_addr d v = do {
     hl \<leftarrow> arp_hardware_len d;
     (case SOURCE_HARDWARE_ADDR_RANGE hl of (i, j) \<Rightarrow> put_range d i j v)
   }"

definition arp_set_source_protocol_addr :: "buf \<Rightarrow> buf \<Rightarrow> buf option" where
  "arp_set_source_protocol_addr d v = do {
     hl \<leftarrow> arp_hardware_len d;
     pl \<leftarrow> arp_protocol_len d;
     (case SOURCE_PROTOCOL_ADDR_RANGE hl pl of (i, j) \<Rightarrow> put_range d i j v)
   }"

definition arp_set_target_hardware_addr :: "buf \<Rightarrow> buf \<Rightarrow> buf option" where
  "arp_set_target_hardware_addr d v = do {
     hl \<leftarrow> arp_hardware_len d;
     pl \<leftarrow> arp_protocol_len d;
     (case TARGET_HARDWARE_ADDR_RANGE hl pl of (i, j) \<Rightarrow> put_range d i j v)
   }"

definition arp_set_target_protocol_addr :: "buf \<Rightarrow> buf \<Rightarrow> buf option" where
  "arp_set_target_protocol_addr d v = do {
     hl \<leftarrow> arp_hardware_len d;
     pl \<leftarrow> arp_protocol_len d;
     (case TARGET_PROTOCOL_ADDR_RANGE hl pl of (i, j) \<Rightarrow> put_range d i j v)
   }"

record arp_repr =
  arp_r_operation :: operation
  arp_r_source_hardware :: mac_address
  arp_r_source_protocol :: ipv4_addr
  arp_r_target_hardware :: mac_address
  arp_r_target_protocol :: ipv4_addr

definition arp_parse :: "buf \<Rightarrow> arp_repr network_result" where
  "arp_parse d = do {
     checked \<leftarrow> arp_check_len d;
     (case checked of
        Inl e \<Rightarrow> Some (Inl e)
      | Inr _ \<Rightarrow> do {
          ht \<leftarrow> arp_hardware_type d;
          pt \<leftarrow> arp_protocol_type d;
          hl \<leftarrow> arp_hardware_len d;
          pl \<leftarrow> arp_protocol_len d;
          if ht = Ethernet \<and> pt = IpV4 \<and> hl = 6 \<and> pl = 4
          then do {
            p \<leftarrow> arp_operation d;
            sh \<leftarrow> arp_source_hardware_addr d;
            sha \<leftarrow> mac_from_bytes sh;
            sp \<leftarrow> arp_source_protocol_addr d;
            spa \<leftarrow> ipv4_from_octets sp;
            th \<leftarrow> arp_target_hardware_addr d;
            tha \<leftarrow> mac_from_bytes th;
            tp \<leftarrow> arp_target_protocol_addr d;
            tpa \<leftarrow> ipv4_from_octets tp;
            Some (Inr \<lparr>arp_r_operation = p, arp_r_source_hardware = sha, arp_r_source_protocol = spa,
                       arp_r_target_hardware = tha, arp_r_target_protocol = tpa\<rparr>)
          }
          else Some (Inl Unsupported)
        })
   }"

definition arp_emit :: "arp_repr \<Rightarrow> buf \<Rightarrow> buf option" where
  "arp_emit r d = do {
     d1 \<leftarrow> arp_set_hardware_type d Ethernet;
     d2 \<leftarrow> arp_set_protocol_type d1 IpV4;
     d3 \<leftarrow> arp_set_hardware_len d2 6;
     d4 \<leftarrow> arp_set_protocol_len d3 4;
     d5 \<leftarrow> arp_set_operation d4 (arp_r_operation r);
     d6 \<leftarrow> arp_set_source_hardware_addr d5 (arp_r_source_hardware r);
     d7 \<leftarrow> arp_set_source_protocol_addr d6 (ipv4_octets (arp_r_source_protocol r));
     d8 \<leftarrow> arp_set_target_hardware_addr d7 (arp_r_target_hardware r);
     arp_set_target_protocol_addr d8 (ipv4_octets (arp_r_target_protocol r))
   }"

section \<open>Round trips\<close>

lemma ethertype_try_from_into [simp]: "ethertype_try_from (ethertype_into t) = Inr t"
  by (cases t) (simp_all add: ethertype_try_from_def ethertype_into_def)

lemma hardware_try_from_into [simp]: "hardware_try_from (hardware_into h) = Inr h"
  by (cases h) (simp add: hardware_try_from_def hardware_into_def)

lemma operation_try_from_into [simp]: "operation_try_from (operation_into p) = Inr p"
  by (cases p) (simp_all add: operation_try_from_def operation_into_def)

lemma unwrap_simps [simp]: "unwrap (Inr x) = Some x" "unwrap (Inl e) = None"
  by (simp_all add: unwrap_def)

lemma ipv4_octets_simps [simp]: "length (ipv4_octets a) = 4" "ipv4_from_octets (ipv4_octets a) = Some a"
  by (simp_all add: ipv4_octets_def ipv4_from_octets_def)

text \<open>The addresses of a representation are arrays of six bytes.\<close>

definition eth_fits :: "eth_repr \<Rightarrow> buf \<Rightarrow> bool" where
  "eth_fits r d \<longleftrightarrow> length (eth_r_src r) = 6 \<and> length (eth_r_dst r) = 6 \<and> ETH_HEADER_LEN \<le> length d"

lemmas eth_defs = eth_emit_def eth_parse_def eth_check_len_def ETH_HEADER_LEN_def eth_src_addr_def eth_dst_addr_def
  eth_ethertype_def eth_set_src_addr_def eth_set_dst_addr_def eth_set_ethertype_def eth_payload_def mac_from_bytes_def

interpretation eth: wire_format eth_emit eth_parse eth_payload eth_fits "\<lambda>r. r" ETH_HEADER_LEN
proof
  fix r d d'
  show "\<exists>d'. eth_emit r d = Some d' \<and> eth_parse d' = Some (Inr r) \<and> length d' = length d \<and>
    eth_payload d' = Some (drop ETH_HEADER_LEN d)" if "eth_fits r d"
    using that by (auto simp: eth_fits_def eth_defs wire_simps)
  show "eth_fits r d'" if "eth_fits r d" "length d' = length d"
    using that by (simp add: eth_fits_def)
qed

definition arp_fits :: "arp_repr \<Rightarrow> buf \<Rightarrow> bool" where
  "arp_fits r d \<longleftrightarrow> length (arp_r_source_hardware r) = 6 \<and> length (arp_r_target_hardware r) = 6 \<and> arp_buffer_len \<le> length d"

lemmas arp_ranges = SOURCE_HARDWARE_ADDR_RANGE_def SOURCE_PROTOCOL_ADDR_RANGE_def TARGET_HARDWARE_ADDR_RANGE_def
  TARGET_PROTOCOL_ADDR_RANGE_def Let_def

lemmas arp_getters = arp_hardware_type_def arp_protocol_type_def arp_hardware_len_def arp_protocol_len_def
  arp_operation_def arp_source_hardware_addr_def arp_source_protocol_addr_def arp_target_hardware_addr_def
  arp_target_protocol_addr_def arp_ranges mac_from_bytes_def

lemmas arp_setters = arp_set_hardware_type_def arp_set_protocol_type_def arp_set_hardware_len_def arp_set_protocol_len_def
  arp_set_operation_def arp_set_source_hardware_addr_def arp_set_source_protocol_addr_def
  arp_set_target_hardware_addr_def arp_set_target_protocol_addr_def

text \<open>What an emitted packet is.\<close>

lemma arp_emit_eq:
  assumes "arp_fits r d"
  shows "\<exists>d'. arp_emit r d = Some d' \<and> length d' = length d \<and> arp_hardware_type d' = Some Ethernet \<and> arp_protocol_type d' = Some IpV4 \<and>
    arp_hardware_len d' = Some 6 \<and> arp_protocol_len d' = Some 4 \<and> arp_operation d' = Some (arp_r_operation r) \<and>
    get_range d' 8 14 = Some (arp_r_source_hardware r) \<and> get_range d' 14 18 = Some (ipv4_octets (arp_r_source_protocol r)) \<and>
    get_range d' 18 24 = Some (arp_r_target_hardware r) \<and> get_range d' 24 28 = Some (ipv4_octets (arp_r_target_protocol r))"
  using assms
  by (simp add: arp_fits_def arp_buffer_len_def arp_emit_def arp_setters arp_getters wire_simps)

lemma arp_emit_parse_some:
  assumes "arp_fits r d"
  shows "\<exists>d'. arp_emit r d = Some d' \<and> arp_parse d' = Some (Inr r) \<and> length d' = length d"
proof -
  obtain d' where d': "arp_emit r d = Some d'" "length d' = length d" "arp_hardware_type d' = Some Ethernet" "arp_protocol_type d' = Some IpV4"
    "arp_hardware_len d' = Some 6" "arp_protocol_len d' = Some 4" "arp_operation d' = Some (arp_r_operation r)"
    "get_range d' 8 14 = Some (arp_r_source_hardware r)" "get_range d' 14 18 = Some (ipv4_octets (arp_r_source_protocol r))"
    "get_range d' 18 24 = Some (arp_r_target_hardware r)" "get_range d' 24 28 = Some (ipv4_octets (arp_r_target_protocol r))"
    using arp_emit_eq [OF assms] by blast
  have "arp_check_len d' = Some (Inr ())"
    using assms d'(2,5,6) by (simp add: arp_check_len_def arp_fits_def arp_buffer_len_def arp_ranges)
  moreover have "arp_source_hardware_addr d' = Some (arp_r_source_hardware r)"
    "arp_source_protocol_addr d' = Some (ipv4_octets (arp_r_source_protocol r))"
    "arp_target_hardware_addr d' = Some (arp_r_target_hardware r)"
    "arp_target_protocol_addr d' = Some (ipv4_octets (arp_r_target_protocol r))"
    using d' by (simp_all add: arp_source_hardware_addr_def arp_source_protocol_addr_def arp_target_hardware_addr_def
        arp_target_protocol_addr_def arp_ranges)
  ultimately show ?thesis using d' assms by (simp add: arp_parse_def mac_from_bytes_def arp_fits_def)
qed

interpretation arp: wire_format arp_emit arp_parse "\<lambda>d. get_range d 28 (length d)" arp_fits "\<lambda>r. r" 28
proof
  fix r d d'
  show "\<exists>d'. arp_emit r d = Some d' \<and> arp_parse d' = Some (Inr r) \<and> length d' = length d \<and>
    get_range d' 28 (length d') = Some (drop 28 d)" if fit: "arp_fits r d"
  proof -
    obtain d' where d': "arp_emit r d = Some d'" "arp_parse d' = Some (Inr r)" "length d' = length d"
      using arp_emit_parse_some [OF fit] by blast
    have "drop 28 d' = drop 28 d" using d'(1) fit
      by (auto simp: arp_fits_def arp_buffer_len_def arp_emit_def arp_setters arp_getters wire_simps)
    then show ?thesis using d' fit get_range_rest [of 28 d'] by (simp add: arp_fits_def arp_buffer_len_def arp_ranges)
  qed
  show "arp_fits r d'" if "arp_fits r d" "length d' = length d"
    using that by (simp add: arp_fits_def)
qed

interpretation eth_arp: encapsulation eth_emit eth_parse eth_payload eth_fits "\<lambda>r. r" ETH_HEADER_LEN
  arp_emit arp_parse "\<lambda>d. get_range d 28 (length d)" arp_fits "\<lambda>r. r" 28 ..

text \<open>
  C25. An ARP packet sent in an Ethernet frame is received as it was sent: writing the packet into the
  payload of a frame and then the header of the frame succeeds on every buffer of at least 42 bytes, and
  parsing the frame and its payload gives back both representations.
\<close>

theorem arp_over_ethernet:
  assumes "length (eth_r_src r) = 6" "length (eth_r_dst r) = 6"
    and "length (arp_r_source_hardware a) = 6" "length (arp_r_target_hardware a) = 6" "42 \<le> length d"
  shows "\<exists>p d'. arp_emit a (drop 14 d) = Some p \<and> eth_emit r (take 14 d @ p) = Some d' \<and>
    eth_parse d' = Some (Inr r) \<and> eth_payload d' = Some p \<and> arp_parse p = Some (Inr a)"
proof -
  have "eth_fits r d" "arp_fits a (drop ETH_HEADER_LEN d)" "ETH_HEADER_LEN \<le> length d"
    using assms by (simp_all add: eth_fits_def arp_fits_def ETH_HEADER_LEN_def arp_buffer_len_def arp_ranges)
  then show ?thesis using eth_arp.encapsulated [of r d a] by (auto simp: ETH_HEADER_LEN_def)
qed

theorem arp_over_ethernet_witness:
  "\<exists>p d'. arp_emit \<lparr>arp_r_operation = Request, arp_r_source_hardware = [1, 2, 3, 4, 5, 6], arp_r_source_protocol = 7,
       arp_r_target_hardware = MAC_BROADCAST, arp_r_target_protocol = 8\<rparr> (replicate 28 0) = Some p \<and>
     eth_emit \<lparr>eth_r_src = [1, 2, 3, 4, 5, 6], eth_r_dst = MAC_BROADCAST, eth_r_type = Arp\<rparr> (replicate 14 0 @ p) = Some d' \<and>
     eth_parse d' = Some (Inr \<lparr>eth_r_src = [1, 2, 3, 4, 5, 6], eth_r_dst = MAC_BROADCAST, eth_r_type = Arp\<rparr>)"
  using arp_over_ethernet [of "\<lparr>eth_r_src = [1, 2, 3, 4, 5, 6], eth_r_dst = MAC_BROADCAST, eth_r_type = Arp\<rparr>"
      "\<lparr>arp_r_operation = Request, arp_r_source_hardware = [1, 2, 3, 4, 5, 6], arp_r_source_protocol = 7,
       arp_r_target_hardware = MAC_BROADCAST, arp_r_target_protocol = 8\<rparr>" "replicate 42 0"]
  by (auto simp: MAC_BROADCAST_def)

text \<open>
  The parser of ARP packets panics on a buffer of fewer than six bytes, where it reads the length
  fields, and on a packet with another hardware type; its documentation promises an error.
\<close>

lemma arp_parse_panics:
  shows "length d < 6 \<Longrightarrow> arp_parse d = None"
    and "arp_check_len d = Some (Inr ()) \<Longrightarrow> u16_from_inet_bytes (take 2 d) \<noteq> 1 \<Longrightarrow> arp_parse d = None"
proof -
  show "arp_parse d = None" if "length d < 6"
  proof -
    have "arp_check_len d = None"
      using that by (cases "length d = 5") (simp_all add: arp_check_len_def arp_hardware_len_def arp_protocol_len_def get_byte_def)
    then show ?thesis by (simp add: arp_parse_def)
  qed
  show "arp_parse d = None" if "arp_check_len d = Some (Inr ())" "u16_from_inet_bytes (take 2 d) \<noteq> 1"
    using that by (simp add: arp_parse_def arp_hardware_type_def get_range_def hardware_try_from_def)
qed

end
