(* ===== verification/Net_Ip.thy ===== *)
theory Net_Ip
  imports Net_Link
begin

text \<open>IPv4 packets, kernel/foundry/holonet/src/l3/ip.rs.\<close>

section \<open>Protocols and flags\<close>

datatype protocol = Icmp | Igmp | Tcp | Udp

definition protocol_try_from :: "u8 \<Rightarrow> network_error + protocol" where
  "protocol_try_from v =
     (if v = 1 then Inr Icmp else if v = 2 then Inr Igmp else if v = 6 then Inr Tcp else if v = 17 then Inr Udp
      else Inl Invalid)"

definition protocol_into :: "protocol \<Rightarrow> u8" where
  "protocol_into p = (case p of Icmp \<Rightarrow> 1 | Igmp \<Rightarrow> 2 | Tcp \<Rightarrow> 6 | Udp \<Rightarrow> 17)"

record ip_flags =
  reserved :: bool
  dont_fragment :: bool
  more_fragments :: bool

definition ip_flags_from_bits :: "u8 \<Rightarrow> ip_flags" where
  "ip_flags_from_bits v =
     \<lparr>reserved = (v AND 0x80 \<noteq> 0), dont_fragment = (v AND 0x40 \<noteq> 0), more_fragments = (v AND 0x20 \<noteq> 0)\<rparr>"

definition ip_flags_to_bits :: "ip_flags \<Rightarrow> u8" where
  "ip_flags_to_bits f =
     (let bits = (0 :: u8);
          bits = (if reserved f then bits OR 0x80 else bits);
          bits = (if dont_fragment f then bits OR 0x40 else bits)
      in (if more_fragments f then bits OR 0x20 else bits))"

section \<open>Packets\<close>

definition IP_HEADER_LEN :: nat where "IP_HEADER_LEN = 20"

definition ip_check_len :: "buf \<Rightarrow> network_error + unit" where
  "ip_check_len d = (if length d \<ge> IP_HEADER_LEN then Inr () else Inl Invalid)"

definition ip_new :: "buf \<Rightarrow> network_error + buf" where
  "ip_new d = (case ip_check_len d of Inl e \<Rightarrow> Inl e | Inr _ \<Rightarrow> Inr d)"

definition ip_header_len :: "buf \<Rightarrow> nat option" where
  "ip_header_len d = do { b \<leftarrow> get_byte d 0; Some (unat (b AND 0x0F) * 4) }"

definition ip_version :: "buf \<Rightarrow> u8 option" where
  "ip_version d = do { b \<leftarrow> get_byte d 0; Some (drop_bit 4 b) }"

definition ip_dscp :: "buf \<Rightarrow> u8 option" where
  "ip_dscp d = do { b \<leftarrow> get_byte d 1; Some (drop_bit 2 b) }"

definition ip_ecn :: "buf \<Rightarrow> u8 option" where
  "ip_ecn d = do { b \<leftarrow> get_byte d 1; Some (b AND 0x03) }"

definition ip_total_len :: "buf \<Rightarrow> u16 option" where
  "ip_total_len d = do { bs \<leftarrow> get_range d 2 4; Some (u16_from_inet_bytes bs) }"

definition ip_identification :: "buf \<Rightarrow> u16 option" where
  "ip_identification d = do { bs \<leftarrow> get_range d 4 6; Some (u16_from_inet_bytes bs) }"

definition ip_get_flags :: "buf \<Rightarrow> ip_flags option" where
  "ip_get_flags d = do { b \<leftarrow> get_byte d 6; Some (ip_flags_from_bits b) }"

definition ip_fragment_offset :: "buf \<Rightarrow> u16 option" where
  "ip_fragment_offset d = do { bs \<leftarrow> get_range d 6 8; Some (u16_from_inet_bytes bs AND 0x1FFF) }"

definition ip_ttl :: "buf \<Rightarrow> u8 option" where
  "ip_ttl d = get_byte d 8"

definition ip_protocol :: "buf \<Rightarrow> protocol option" where
  "ip_protocol d = do { b \<leftarrow> get_byte d 9; unwrap (protocol_try_from b) }"

definition ip_checksum :: "buf \<Rightarrow> u16 option" where
  "ip_checksum d = do { bs \<leftarrow> get_range d 10 12; Some (u16_from_inet_bytes bs) }"

definition ip_src_addr :: "buf \<Rightarrow> ipv4_addr option" where
  "ip_src_addr d = do { bs \<leftarrow> get_range d 12 16; Some (u32_from_inet_bytes bs) }"

definition ip_dst_addr :: "buf \<Rightarrow> ipv4_addr option" where
  "ip_dst_addr d = do { bs \<leftarrow> get_range d 16 20; Some (u32_from_inet_bytes bs) }"

definition ip_payload :: "buf \<Rightarrow> buf option" where
  "ip_payload d = do { h \<leftarrow> ip_header_len d; get_range d h (length d) }"

definition ip_set_version_and_header_len :: "buf \<Rightarrow> u8 \<Rightarrow> u8 \<Rightarrow> buf option" where
  "ip_set_version_and_header_len d version header_len = put_byte d 0 (push_bit 4 version OR (header_len AND 0x0F))"

definition ip_set_dscp_ecn :: "buf \<Rightarrow> u8 \<Rightarrow> u8 \<Rightarrow> buf option" where
  "ip_set_dscp_ecn d dscp ecn = put_byte d 1 (push_bit 2 dscp OR (ecn AND 0x03))"

definition ip_set_total_len :: "buf \<Rightarrow> u16 \<Rightarrow> buf option" where
  "ip_set_total_len d v = put_range d 2 4 (u16_to_inet_bytes v)"

definition ip_set_identification :: "buf \<Rightarrow> u16 \<Rightarrow> buf option" where
  "ip_set_identification d v = put_range d 4 6 (u16_to_inet_bytes v)"

definition ip_set_flags_and_fragment_offset :: "buf \<Rightarrow> ip_flags \<Rightarrow> u16 \<Rightarrow> buf option" where
  "ip_set_flags_and_fragment_offset d fl off =
     (let v = push_bit 5 (ucast (ip_flags_to_bits fl)) OR (off AND 0x1FFF)
      in put_range d 6 8 (u16_to_inet_bytes v))"

definition ip_set_ttl :: "buf \<Rightarrow> u8 \<Rightarrow> buf option" where
  "ip_set_ttl d v = put_byte d 8 v"

definition ip_set_protocol :: "buf \<Rightarrow> protocol \<Rightarrow> buf option" where
  "ip_set_protocol d p = put_byte d 9 (protocol_into p)"

definition ip_set_checksum :: "buf \<Rightarrow> u16 \<Rightarrow> buf option" where
  "ip_set_checksum d v = put_range d 10 12 (u16_to_inet_bytes v)"

definition ip_set_src_addr :: "buf \<Rightarrow> ipv4_addr \<Rightarrow> buf option" where
  "ip_set_src_addr d a = put_range d 12 16 (u32_to_inet_bytes a)"

definition ip_set_dst_addr :: "buf \<Rightarrow> ipv4_addr \<Rightarrow> buf option" where
  "ip_set_dst_addr d a = put_range d 16 20 (u32_to_inet_bytes a)"

definition ip_fill_checksum :: "buf \<Rightarrow> buf option" where
  "ip_fill_checksum d = do {
     d1 \<leftarrow> ip_set_checksum d 0;
     h \<leftarrow> ip_header_len d1;
     header \<leftarrow> get_range d1 0 h;
     cksum \<leftarrow> checksum header;
     ip_set_checksum d1 cksum
   }"

section \<open>Representations\<close>

record ip_repr =
  ip_r_src :: ipv4_addr
  ip_r_dst :: ipv4_addr
  ip_r_protocol :: protocol
  ip_r_payload_len :: nat
  ip_r_ttl :: u8
  ip_r_flags :: ip_flags

definition ip_parse :: "buf \<Rightarrow> ip_repr network_result" where
  "ip_parse d =
     (case ip_check_len d of
        Inl e \<Rightarrow> Some (Inl e)
      | Inr _ \<Rightarrow> do {
          v \<leftarrow> ip_version d;
          if v \<noteq> 4 then Some (Inl Invalid)
          else do {
            src \<leftarrow> ip_src_addr d;
            dst \<leftarrow> ip_dst_addr d;
            p \<leftarrow> ip_protocol d;
            pay \<leftarrow> ip_payload d;
            ttl \<leftarrow> ip_ttl d;
            fl \<leftarrow> ip_get_flags d;
            Some (Inr \<lparr>ip_r_src = src, ip_r_dst = dst, ip_r_protocol = p, ip_r_payload_len = length pay,
                       ip_r_ttl = ttl, ip_r_flags = fl\<rparr>)
          }
        })"

definition ip_buffer_len :: "ip_repr \<Rightarrow> nat" where
  "ip_buffer_len r = wrap_add 64 IP_HEADER_LEN (ip_r_payload_len r)"

definition u16_try_from_usize :: "nat \<Rightarrow> u16 option" where
  "u16_try_from_usize n = (if n < 2 ^ 16 then Some (word_of_nat n) else None)"

definition ip_emit :: "ip_repr \<Rightarrow> buf \<Rightarrow> buf option" where
  "ip_emit r d =
     (if length d \<ge> ip_buffer_len r
      then do {
        d1 \<leftarrow> ip_set_version_and_header_len d 4 5;
        d2 \<leftarrow> ip_set_dscp_ecn d1 0 0;
        len \<leftarrow> u16_try_from_usize (wrap_add 64 IP_HEADER_LEN (ip_r_payload_len r));
        d3 \<leftarrow> ip_set_total_len d2 len;
        d4 \<leftarrow> ip_set_identification d3 0;
        d5 \<leftarrow> ip_set_flags_and_fragment_offset d4 (ip_r_flags r) 0;
        d6 \<leftarrow> ip_set_ttl d5 (ip_r_ttl r);
        d7 \<leftarrow> ip_set_protocol d6 (ip_r_protocol r);
        d8 \<leftarrow> ip_set_src_addr d7 (ip_r_src r);
        d9 \<leftarrow> ip_set_dst_addr d8 (ip_r_dst r);
        ip_fill_checksum d9
      }
      else None)"

section \<open>Checksum\<close>

lemma ip_fill_checksum_some:
  assumes "ip_header_len d = Some h" "12 \<le> h" "h \<le> length d"
  shows "\<exists>c. ip_fill_checksum d = Some (put_at d 10 (u16_to_inet_bytes c)) \<and>
    checksum (take h (put_at d 10 (u16_to_inet_bytes c))) = Some 0"
proof -
  let ?d = "\<lambda>v. put_at d 10 (u16_to_inet_bytes v)"
  have h: "h \<le> 60"
  proof -
    obtain b where b: "h = unat (b AND 0x0F :: u8) * 4" using assms(1) by (auto simp: ip_header_len_def bind_eq_Some_conv)
    have "(0x0F :: u8) = mask 4" by (simp add: mask_eq_exp_minus_1)
    then show ?thesis using b unat_and_mask [of b 4] by simp
  qed
  have head: "ip_header_len (?d v) = Some h" for v
    using assms by (simp add: ip_header_len_def wire_simps)
  have twice: "put_range (?d v) 10 12 (u16_to_inet_bytes w) = Some (?d w)" for v w
    using assms by (intro put_range_again) simp_all
  have taken: "take h (?d v) = overwrite (take h d) 10 (u16_to_inet_bytes v)" for v
    using assms by (simp add: put_at_def overwrite_def min_def drop_take)
  obtain c where c: "checksum (take h (?d 0)) = Some c" "checksum (take h (?d c)) = Some 0"
    using checksum_fills [of 10 "take h d" "[]"] assms h by (auto simp: checksum_no_pseudo taken)
  then have "ip_fill_checksum d = Some (?d c)"
    using assms head [of 0] twice [of 0 c]
    by (simp add: ip_fill_checksum_def ip_set_checksum_def get_range_def put_range_fits length_put_at)
  then show ?thesis using c(2) by blast
qed

section \<open>Emitting and parsing\<close>

lemma protocol_try_from_into [simp]: "protocol_try_from (protocol_into p) = Inr p"
  by (cases p) (simp_all add: protocol_try_from_def protocol_into_def)

lemma protocol_try_from_Inl: "protocol_try_from v = Inl e \<longleftrightarrow> e = Invalid \<and> v \<notin> {1, 2, 6, 17}"
  by (auto simp: protocol_try_from_def)

definition no_flags :: ip_flags where
  "no_flags = \<lparr>reserved = False, dont_fragment = False, more_fragments = False\<rparr>"

text \<open>
  The flags are shifted by five places instead of eight: they end up in the fragment offset, and the
  byte from which they are read has none of them.
\<close>

lemma ip_flags_shifted:
  "ip_flags_from_bits (ucast (drop_bit 8 (push_bit 5 (ucast (ip_flags_to_bits f)) :: u16))) = no_flags"
  "push_bit 5 (ucast (ip_flags_to_bits f)) AND 0x1FFF = (push_bit 5 (ucast (ip_flags_to_bits f)) :: u16)"
  by (cases f; simp add: ip_flags_to_bits_def ip_flags_from_bits_def no_flags_def)+

lemmas ip_setters = ip_set_version_and_header_len_def ip_set_dscp_ecn_def ip_set_total_len_def ip_set_identification_def
  ip_set_flags_and_fragment_offset_def ip_set_ttl_def ip_set_protocol_def ip_set_src_addr_def ip_set_dst_addr_def

lemma ip_emit_fields:
  assumes "20 + ip_r_payload_len r \<le> length d" "20 + ip_r_payload_len r < 2 ^ 16"
  shows "\<exists>d'. ip_emit r d = ip_fill_checksum d' \<and> length d' = length d \<and> get_byte d' 0 = Some 0x45 \<and>
    get_range d' 6 8 = Some (u16_to_inet_bytes (push_bit 5 (ucast (ip_flags_to_bits (ip_r_flags r))))) \<and>
    get_byte d' 6 = Some (ucast (drop_bit 8 (push_bit 5 (ucast (ip_flags_to_bits (ip_r_flags r))) :: u16))) \<and>
    get_byte d' 8 = Some (ip_r_ttl r) \<and> get_byte d' 9 = Some (protocol_into (ip_r_protocol r)) \<and>
    get_range d' 12 16 = Some (u32_to_inet_bytes (ip_r_src r)) \<and> get_range d' 16 20 = Some (u32_to_inet_bytes (ip_r_dst r)) \<and>
    drop 20 d' = drop 20 d"
proof -
  have "d \<noteq> []" using assms by auto
  have nth: "u16_to_inet_bytes v ! 0 = ucast (drop_bit 8 v)" for v by (simp add: u16_to_inet_bytes_def)
  have "wrap_add 64 20 (ip_r_payload_len r) = 20 + ip_r_payload_len r" using assms by (simp add: wrap_add_eq)
  then show ?thesis using assms \<open>d \<noteq> []\<close>
    by (simp add: ip_emit_def ip_buffer_len_def IP_HEADER_LEN_def u16_try_from_usize_def ip_setters Let_def wire_simps nth)
      (intro exI conjI, rule refl, simp_all add: wire_simps nth)
qed

lemma ip_emit_parse_some:
  assumes "length d = 20 + ip_r_payload_len r" "20 + ip_r_payload_len r < 2 ^ 16"
  shows "\<exists>d'. ip_emit r d = Some d' \<and> ip_parse d' = Some (Inr (r\<lparr>ip_r_flags := no_flags\<rparr>)) \<and>
    ip_fragment_offset d' = Some (push_bit 5 (ucast (ip_flags_to_bits (ip_r_flags r)))) \<and>
    checksum (take 20 d') = Some 0 \<and> length d' = length d \<and> ip_payload d' = Some (drop 20 d)"
proof -
  obtain e where e: "ip_emit r d = ip_fill_checksum e" "length e = length d" "get_byte e 0 = Some 0x45"
    "get_range e 6 8 = Some (u16_to_inet_bytes (push_bit 5 (ucast (ip_flags_to_bits (ip_r_flags r)))))"
    "get_byte e 6 = Some (ucast (drop_bit 8 (push_bit 5 (ucast (ip_flags_to_bits (ip_r_flags r))) :: u16)))"
    "get_byte e 8 = Some (ip_r_ttl r)" "get_byte e 9 = Some (protocol_into (ip_r_protocol r))"
    "get_range e 12 16 = Some (u32_to_inet_bytes (ip_r_src r))" "get_range e 16 20 = Some (u32_to_inet_bytes (ip_r_dst r))"
    "drop 20 e = drop 20 d"
    using ip_emit_fields [of r d] assms by auto
  have "ip_header_len e = Some 20" using e(3) by (simp add: ip_header_len_def)
  then obtain c where c: "ip_fill_checksum e = Some (put_at e 10 (u16_to_inet_bytes c))"
    "checksum (take 20 (put_at e 10 (u16_to_inet_bytes c))) = Some 0"
    using ip_fill_checksum_some [of e 20] e(2) assms by auto
  define d' where "d' = put_at e 10 (u16_to_inet_bytes c)"
  have d': "length d' = length d" "get_byte d' 0 = Some 0x45" "get_byte d' 6 = get_byte e 6" "get_byte d' 8 = get_byte e 8"
    "get_byte d' 9 = get_byte e 9" "get_range d' 6 8 = get_range e 6 8" "get_range d' 12 16 = get_range e 12 16"
    "get_range d' 16 20 = get_range e 16 20" "drop 20 d' = drop 20 d"
    using e(2,3,10) assms by (simp_all add: d'_def wire_simps)
  have head: "ip_header_len d' = Some 20" "ip_version d' = Some 4" using d'(2) by (simp_all add: ip_header_len_def ip_version_def)
  have pay: "ip_payload d' = Some (drop 20 d)" using head d'(1,9) get_range_rest [of 20 d'] assms by (simp add: ip_payload_def)
  have "ip_check_len d' = Inr ()" using d'(1) assms by (simp add: ip_check_len_def IP_HEADER_LEN_def)
  then have "ip_parse d' = Some (Inr (r\<lparr>ip_r_flags := no_flags\<rparr>))"
    using head pay d' e assms
    by (simp add: ip_parse_def ip_src_addr_def ip_dst_addr_def ip_protocol_def ip_ttl_def ip_get_flags_def ip_flags_shifted)
  moreover have "ip_fragment_offset d' = Some (push_bit 5 (ucast (ip_flags_to_bits (ip_r_flags r))))"
    using d'(6) e(4) by (simp add: ip_fragment_offset_def ip_flags_shifted)
  ultimately show ?thesis using e(1) c d'(1) pay by (simp add: d'_def)
qed

definition ip_fits :: "ip_repr \<Rightarrow> buf \<Rightarrow> bool" where
  "ip_fits r d \<longleftrightarrow> length d = IP_HEADER_LEN + ip_r_payload_len r \<and> length d < 2 ^ 16"

interpretation ip: wire_format ip_emit ip_parse ip_payload ip_fits "\<lambda>r. r\<lparr>ip_r_flags := no_flags\<rparr>" IP_HEADER_LEN
proof
  fix r d d'
  show "\<exists>d'. ip_emit r d = Some d' \<and> ip_parse d' = Some (Inr (r\<lparr>ip_r_flags := no_flags\<rparr>)) \<and> length d' = length d \<and>
    ip_payload d' = Some (drop IP_HEADER_LEN d)" if "ip_fits r d"
    using ip_emit_parse_some [of d r] that by (auto simp: ip_fits_def IP_HEADER_LEN_def)
  show "ip_fits r d'" if "ip_fits r d" "length d' = length d"
    using that by (simp add: ip_fits_def)
qed

text \<open>
  C22. A header that is emitted is parsed back, and its checksum verifies, but its flags are lost:
  whatever flags the representation has, the parsed one has none, and they appear in the fragment
  offset field, which was to be 0.
\<close>

theorem ip_emit_parse:
  assumes "length d = 20 + ip_r_payload_len r" "length d < 2 ^ 16"
  shows "\<exists>d'. ip_emit r d = Some d' \<and> ip_parse d' = Some (Inr (r\<lparr>ip_r_flags := no_flags\<rparr>)) \<and> checksum (take 20 d') = Some 0 \<and>
    ip_fragment_offset d' = Some (push_bit 5 (ucast (ip_flags_to_bits (ip_r_flags r))))"
  using ip_emit_parse_some [of d r] assms by auto

theorem ip_emit_parse_witness:
  "\<exists>d'. ip_emit \<lparr>ip_r_src = 1, ip_r_dst = 2, ip_r_protocol = Udp, ip_r_payload_len = 3, ip_r_ttl = 64,
       ip_r_flags = \<lparr>reserved = False, dont_fragment = True, more_fragments = False\<rparr>\<rparr> (replicate 23 9) = Some d' \<and>
     ip_fragment_offset d' = Some 0x800"
  using ip_emit_parse [of "replicate 23 9" "\<lparr>ip_r_src = 1, ip_r_dst = 2, ip_r_protocol = Udp, ip_r_payload_len = 3,
      ip_r_ttl = 64, ip_r_flags = \<lparr>reserved = False, dont_fragment = True, more_fragments = False\<rparr>\<rparr>"]
  by (auto simp: ip_flags_to_bits_def)

text \<open>
  After \<open>fill_checksum\<close> the header of an IPv4 packet verifies: the checksum of the header with its
  checksum field is zero, for every packet whose header length field covers the checksum and lies in the
  buffer.
\<close>

theorem ip_checksum_valid:
  assumes "ip_header_len d = Some h" "12 \<le> h" "h \<le> length d"
  shows "\<exists>d'. ip_fill_checksum d = Some d' \<and> length d' = length d \<and> ip_header_len d' = Some h \<and> checksum (take h d') = Some 0"
proof -
  obtain c where c: "ip_fill_checksum d = Some (put_at d 10 (u16_to_inet_bytes c))"
    "checksum (take h (put_at d 10 (u16_to_inet_bytes c))) = Some 0" using ip_fill_checksum_some [OF assms] by blast
  have "ip_header_len (put_at d 10 (u16_to_inet_bytes c)) = Some h"
    using assms by (simp add: ip_header_len_def wire_simps)
  then show ?thesis using c by (simp add: length_put_at)
qed

theorem ip_checksum_valid_witness:
  "\<exists>d'. ip_fill_checksum (0x45 # replicate 19 7) = Some d' \<and> checksum (take 20 d') = Some 0"
  using ip_checksum_valid [of "0x45 # replicate 19 7" 20] by (auto simp: ip_header_len_def get_byte_def)

text \<open>
  C26. What the parser does with a buffer that is not its own: it panics exactly on version 4 packets of
  at least 20 bytes whose protocol is none of the four it knows or whose header length lies beyond the
  buffer, and it never returns the error \<open>Unsupported\<close> that is documented for unknown protocols.
\<close>

theorem ip_parse_outcome:
  "(ip_parse d = None \<longleftrightarrow> 20 \<le> length d \<and> drop_bit 4 (d ! 0) = 4 \<and>
      (d ! 9 \<notin> {1, 2, 6, 17} \<or> length d < unat (d ! 0 AND 0x0F) * 4)) \<and>
   ip_parse d \<noteq> Some (Inl Unsupported)"
proof (cases "20 \<le> length d \<and> drop_bit 4 (d ! 0) = 4")
  case True
  then have "ip_check_len d = Inr ()" "ip_version d = Some 4" "ip_src_addr d \<noteq> None" "ip_dst_addr d \<noteq> None"
    "ip_ttl d \<noteq> None" "ip_get_flags d \<noteq> None" "ip_header_len d = Some (unat (d ! 0 AND 0x0F) * 4)"
    by (auto simp: ip_check_len_def IP_HEADER_LEN_def ip_version_def get_byte_def ip_src_addr_def ip_dst_addr_def
        ip_ttl_def ip_get_flags_def ip_header_len_def get_range_def)
  moreover have "ip_protocol d = None \<longleftrightarrow> d ! 9 \<notin> {1, 2, 6, 17}"
    using True by (auto simp: ip_protocol_def get_byte_def unwrap_def protocol_try_from_def)
  moreover have "ip_payload d = None \<longleftrightarrow> length d < unat (d ! 0 AND 0x0F) * 4"
    using calculation(7) by (auto simp: ip_payload_def get_range_def)
  ultimately show ?thesis using True by (auto simp: ip_parse_def bind_eq_None_conv)
next
  case False
  then show ?thesis by (auto simp: ip_parse_def ip_check_len_def IP_HEADER_LEN_def ip_version_def get_byte_def)
qed

theorem ip_parse_outcome_witness: "ip_parse (0x45 # replicate 19 3) = None"
  using ip_parse_outcome [of "0x45 # replicate 19 3"] by simp

interpretation eth_ip: encapsulation eth_emit eth_parse eth_payload eth_fits "\<lambda>r. r" ETH_HEADER_LEN
  ip_emit ip_parse ip_payload ip_fits "\<lambda>r. r\<lparr>ip_r_flags := no_flags\<rparr>" IP_HEADER_LEN ..

end
