(* ===== verification/Net_Transport.thy ===== *)
theory Net_Transport
  imports Net_Ip
begin

text \<open>
  ICMP, UDP and TCP packets, kernel/foundry/holonet/src/l4/icmp.rs, l4/udp.rs and l4/tcp.rs.
\<close>

section \<open>ICMP\<close>

datatype message_type =
    EchoReply
  | DestinationUnreachable
  | SourceQuench
  | Redirect
  | EchoRequest
  | RouterAdvertisement
  | RouterSolicitation
  | TimeExceeded
  | ParameterProblem
  | Timestamp
  | TimestampReply
  | InformationRequest
  | InformationReply

definition message_type_try_from :: "u8 \<Rightarrow> network_error + message_type" where
  "message_type_try_from v =
     (if v = 0 then Inr EchoReply
      else if v = 3 then Inr DestinationUnreachable
      else if v = 4 then Inr SourceQuench
      else if v = 5 then Inr Redirect
      else if v = 8 then Inr EchoRequest
      else if v = 9 then Inr RouterAdvertisement
      else if v = 10 then Inr RouterSolicitation
      else if v = 11 then Inr TimeExceeded
      else if v = 12 then Inr ParameterProblem
      else if v = 13 then Inr Timestamp
      else if v = 14 then Inr TimestampReply
      else if v = 15 then Inr InformationRequest
      else if v = 16 then Inr InformationReply
      else Inl Invalid)"

definition message_type_into :: "message_type \<Rightarrow> u8" where
  "message_type_into t =
     (case t of
        EchoReply \<Rightarrow> 0
      | DestinationUnreachable \<Rightarrow> 3
      | SourceQuench \<Rightarrow> 4
      | Redirect \<Rightarrow> 5
      | EchoRequest \<Rightarrow> 8
      | RouterAdvertisement \<Rightarrow> 9
      | RouterSolicitation \<Rightarrow> 10
      | TimeExceeded \<Rightarrow> 11
      | ParameterProblem \<Rightarrow> 12
      | Timestamp \<Rightarrow> 13
      | TimestampReply \<Rightarrow> 14
      | InformationRequest \<Rightarrow> 15
      | InformationReply \<Rightarrow> 16)"

definition ICMP_HEADER_LEN :: nat where "ICMP_HEADER_LEN = 8"

definition icmp_check_len :: "buf \<Rightarrow> network_error + unit" where
  "icmp_check_len d = (if length d \<ge> ICMP_HEADER_LEN then Inr () else Inl Invalid)"

definition icmp_new :: "buf \<Rightarrow> network_error + buf" where
  "icmp_new d = (case icmp_check_len d of Inl e \<Rightarrow> Inl e | Inr _ \<Rightarrow> Inr d)"

definition icmp_msg_type :: "buf \<Rightarrow> message_type option" where
  "icmp_msg_type d = do { b \<leftarrow> get_byte d 0; unwrap (message_type_try_from b) }"

definition icmp_code :: "buf \<Rightarrow> u8 option" where
  "icmp_code d = get_byte d 1"

definition icmp_checksum :: "buf \<Rightarrow> u16 option" where
  "icmp_checksum d = do { bs \<leftarrow> get_range d 2 4; Some (u16_from_inet_bytes bs) }"

definition icmp_rest_of_header :: "buf \<Rightarrow> u32 option" where
  "icmp_rest_of_header d = do { bs \<leftarrow> get_range d 4 8; Some (u32_from_inet_bytes bs) }"

definition icmp_echo_identity :: "buf \<Rightarrow> (u16 \<times> u16) option" where
  "icmp_echo_identity d = do {
     ident \<leftarrow> get_range d 4 6;
     seq \<leftarrow> get_range d 6 8;
     Some (u16_from_inet_bytes ident, u16_from_inet_bytes seq)
   }"

definition icmp_payload :: "buf \<Rightarrow> buf option" where
  "icmp_payload d = get_range d ICMP_HEADER_LEN (length d)"

definition icmp_set_msg_type :: "buf \<Rightarrow> message_type \<Rightarrow> buf option" where
  "icmp_set_msg_type d t = put_byte d 0 (message_type_into t)"

definition icmp_set_code :: "buf \<Rightarrow> u8 \<Rightarrow> buf option" where
  "icmp_set_code d v = put_byte d 1 v"

definition icmp_set_checksum :: "buf \<Rightarrow> u16 \<Rightarrow> buf option" where
  "icmp_set_checksum d v = put_range d 2 4 (u16_to_inet_bytes v)"

definition icmp_set_rest_of_header :: "buf \<Rightarrow> u32 \<Rightarrow> buf option" where
  "icmp_set_rest_of_header d v = put_range d 4 8 (u32_to_inet_bytes v)"

definition icmp_set_echo_identity :: "buf \<Rightarrow> u16 \<Rightarrow> u16 \<Rightarrow> buf option" where
  "icmp_set_echo_identity d ident seq = do {
     d1 \<leftarrow> put_range d 4 6 (u16_to_inet_bytes ident);
     put_range d1 6 8 (u16_to_inet_bytes seq)
   }"

definition icmp_fill_checksum :: "buf \<Rightarrow> buf option" where
  "icmp_fill_checksum d = do {
     d1 \<leftarrow> icmp_set_checksum d 0;
     cksum \<leftarrow> checksum d1;
     icmp_set_checksum d1 cksum
   }"

record icmp_repr =
  icmp_r_type :: message_type
  icmp_r_code :: u8
  icmp_r_payload_len :: nat

definition icmp_parse :: "buf \<Rightarrow> icmp_repr network_result" where
  "icmp_parse d =
     (case icmp_check_len d of
        Inl e \<Rightarrow> Some (Inl e)
      | Inr _ \<Rightarrow> do {
          t \<leftarrow> icmp_msg_type d;
          c \<leftarrow> icmp_code d;
          pay \<leftarrow> icmp_payload d;
          Some (Inr \<lparr>icmp_r_type = t, icmp_r_code = c, icmp_r_payload_len = length pay\<rparr>)
        })"

definition icmp_buffer_len :: "icmp_repr \<Rightarrow> nat" where
  "icmp_buffer_len r = wrap_add 64 ICMP_HEADER_LEN (icmp_r_payload_len r)"

definition icmp_emit :: "icmp_repr \<Rightarrow> buf \<Rightarrow> buf option" where
  "icmp_emit r d =
     (if length d \<ge> icmp_buffer_len r
      then do {
        d1 \<leftarrow> icmp_set_msg_type d (icmp_r_type r);
        d2 \<leftarrow> icmp_set_code d1 (icmp_r_code r);
        d3 \<leftarrow> icmp_set_rest_of_header d2 0;
        icmp_fill_checksum d3
      }
      else None)"

section \<open>UDP\<close>

definition UDP_HEADER_LEN :: nat where "UDP_HEADER_LEN = 8"

definition udp_check_len :: "buf \<Rightarrow> network_error + unit" where
  "udp_check_len d = (if length d \<ge> UDP_HEADER_LEN then Inr () else Inl Invalid)"

definition udp_new :: "buf \<Rightarrow> network_error + buf" where
  "udp_new d = (case udp_check_len d of Inl e \<Rightarrow> Inl e | Inr _ \<Rightarrow> Inr d)"

definition udp_src_port :: "buf \<Rightarrow> u16 option" where
  "udp_src_port d = do { bs \<leftarrow> get_range d 0 2; Some (u16_from_inet_bytes bs) }"

definition udp_dst_port :: "buf \<Rightarrow> u16 option" where
  "udp_dst_port d = do { bs \<leftarrow> get_range d 2 4; Some (u16_from_inet_bytes bs) }"

definition udp_len :: "buf \<Rightarrow> u16 option" where
  "udp_len d = do { bs \<leftarrow> get_range d 4 6; Some (u16_from_inet_bytes bs) }"

definition udp_checksum :: "buf \<Rightarrow> u16 option" where
  "udp_checksum d = do { bs \<leftarrow> get_range d 6 8; Some (u16_from_inet_bytes bs) }"

definition udp_has_checksum :: "buf \<Rightarrow> bool option" where
  "udp_has_checksum d = do { c \<leftarrow> udp_checksum d; Some (c \<noteq> 0) }"

text \<open>\<open>split_at\<close> panics when the length field exceeds the buffer; the subtraction saturates.\<close>

definition udp_payload :: "buf \<Rightarrow> buf option" where
  "udp_payload d = do {
     rest \<leftarrow> get_range d UDP_HEADER_LEN (length d);
     len \<leftarrow> udp_len d;
     get_range rest 0 (unat len - UDP_HEADER_LEN)
   }"

definition udp_is_empty :: "buf \<Rightarrow> bool option" where
  "udp_is_empty d = do { len \<leftarrow> udp_len d; Some (unat len \<le> UDP_HEADER_LEN) }"

definition udp_set_src_port :: "buf \<Rightarrow> u16 \<Rightarrow> buf option" where
  "udp_set_src_port d v = put_range d 0 2 (u16_to_inet_bytes v)"

definition udp_set_dst_port :: "buf \<Rightarrow> u16 \<Rightarrow> buf option" where
  "udp_set_dst_port d v = put_range d 2 4 (u16_to_inet_bytes v)"

definition udp_set_len :: "buf \<Rightarrow> u16 \<Rightarrow> buf option" where
  "udp_set_len d v = put_range d 4 6 (u16_to_inet_bytes v)"

definition udp_set_checksum :: "buf \<Rightarrow> u16 \<Rightarrow> buf option" where
  "udp_set_checksum d v = put_range d 6 8 (u16_to_inet_bytes v)"

text \<open>The pseudo header of twelve bytes.\<close>

definition pseudo_header :: "ipv4_addr \<Rightarrow> ipv4_addr \<Rightarrow> u8 \<Rightarrow> u16 \<Rightarrow> buf" where
  "pseudo_header src dst proto len = ipv4_octets src @ ipv4_octets dst @ [0, proto] @ u16_to_inet_bytes len"

definition udp_fill_checksum :: "ipv4_addr \<Rightarrow> ipv4_addr \<Rightarrow> buf \<Rightarrow> buf option" where
  "udp_fill_checksum src dst d = do {
     len \<leftarrow> udp_len d;
     d1 \<leftarrow> udp_set_checksum d 0;
     cksum \<leftarrow> checksum_with_pseudo (pseudo_header src dst 17 len) d1;
     udp_set_checksum d1 (if cksum = 0 then 0xFFFF else cksum)
   }"

record udp_repr =
  udp_r_src_port :: u16
  udp_r_dst_port :: u16
  udp_r_payload_len :: nat

definition udp_parse :: "buf \<Rightarrow> udp_repr network_result" where
  "udp_parse d =
     (case udp_check_len d of
        Inl e \<Rightarrow> Some (Inl e)
      | Inr _ \<Rightarrow> do {
          src \<leftarrow> udp_src_port d;
          dst \<leftarrow> udp_dst_port d;
          pay \<leftarrow> udp_payload d;
          Some (Inr \<lparr>udp_r_src_port = src, udp_r_dst_port = dst, udp_r_payload_len = length pay\<rparr>)
        })"

definition udp_buffer_len :: "udp_repr \<Rightarrow> nat" where
  "udp_buffer_len r = wrap_add 64 UDP_HEADER_LEN (udp_r_payload_len r)"

definition udp_emit :: "udp_repr \<Rightarrow> buf \<Rightarrow> buf option" where
  "udp_emit r d =
     (if length d \<ge> udp_buffer_len r
      then do {
        d1 \<leftarrow> udp_set_src_port d (udp_r_src_port r);
        d2 \<leftarrow> udp_set_dst_port d1 (udp_r_dst_port r);
        len \<leftarrow> u16_try_from_usize (wrap_add 64 UDP_HEADER_LEN (udp_r_payload_len r));
        udp_set_len d2 len
      }
      else None)"

section \<open>TCP\<close>

definition TCP_FIN :: u8 where "TCP_FIN = 0x01"
definition TCP_SYN :: u8 where "TCP_SYN = 0x02"
definition TCP_RST :: u8 where "TCP_RST = 0x04"
definition TCP_PSH :: u8 where "TCP_PSH = 0x08"
definition TCP_ACK :: u8 where "TCP_ACK = 0x10"
definition TCP_URG :: u8 where "TCP_URG = 0x20"

text \<open>The flags are a byte.\<close>

type_synonym tcp_flags = u8

definition tcp_flags_from_bits :: "u8 \<Rightarrow> tcp_flags" where
  "tcp_flags_from_bits v = v AND 0x3F"

definition tcp_flags_to_bits :: "tcp_flags \<Rightarrow> u8" where
  "tcp_flags_to_bits f = f"

definition tcp_fin :: "tcp_flags \<Rightarrow> bool" where "tcp_fin f \<longleftrightarrow> f AND TCP_FIN \<noteq> 0"
definition tcp_syn :: "tcp_flags \<Rightarrow> bool" where "tcp_syn f \<longleftrightarrow> f AND TCP_SYN \<noteq> 0"
definition tcp_rst :: "tcp_flags \<Rightarrow> bool" where "tcp_rst f \<longleftrightarrow> f AND TCP_RST \<noteq> 0"
definition tcp_psh :: "tcp_flags \<Rightarrow> bool" where "tcp_psh f \<longleftrightarrow> f AND TCP_PSH \<noteq> 0"
definition tcp_ack :: "tcp_flags \<Rightarrow> bool" where "tcp_ack f \<longleftrightarrow> f AND TCP_ACK \<noteq> 0"
definition tcp_urg :: "tcp_flags \<Rightarrow> bool" where "tcp_urg f \<longleftrightarrow> f AND TCP_URG \<noteq> 0"

definition TCP_HEADER_LEN :: nat where "TCP_HEADER_LEN = 20"

definition tcp_check_len :: "buf \<Rightarrow> network_error + unit" where
  "tcp_check_len d = (if length d \<ge> TCP_HEADER_LEN then Inr () else Inl Invalid)"

definition tcp_new :: "buf \<Rightarrow> network_error + buf" where
  "tcp_new d = (case tcp_check_len d of Inl e \<Rightarrow> Inl e | Inr _ \<Rightarrow> Inr d)"

definition tcp_src_port :: "buf \<Rightarrow> u16 option" where
  "tcp_src_port d = do { bs \<leftarrow> get_range d 0 2; Some (u16_from_inet_bytes bs) }"

definition tcp_dst_port :: "buf \<Rightarrow> u16 option" where
  "tcp_dst_port d = do { bs \<leftarrow> get_range d 2 4; Some (u16_from_inet_bytes bs) }"

definition tcp_seq_num :: "buf \<Rightarrow> u32 option" where
  "tcp_seq_num d = do { bs \<leftarrow> get_range d 4 8; Some (u32_from_inet_bytes bs) }"

definition tcp_ack_num :: "buf \<Rightarrow> u32 option" where
  "tcp_ack_num d = do { bs \<leftarrow> get_range d 8 12; Some (u32_from_inet_bytes bs) }"

definition tcp_data_offset :: "buf \<Rightarrow> u8 option" where
  "tcp_data_offset d = do { b \<leftarrow> get_byte d 12; Some (drop_bit 4 b) }"

definition tcp_header_len :: "buf \<Rightarrow> nat option" where
  "tcp_header_len d = do { b \<leftarrow> tcp_data_offset d; Some (unat b * 4) }"

definition tcp_get_flags :: "buf \<Rightarrow> tcp_flags option" where
  "tcp_get_flags d = do { b \<leftarrow> get_byte d (12 + 1); Some (tcp_flags_from_bits b) }"

definition tcp_window_size :: "buf \<Rightarrow> u16 option" where
  "tcp_window_size d = do { bs \<leftarrow> get_range d 14 16; Some (u16_from_inet_bytes bs) }"

definition tcp_checksum :: "buf \<Rightarrow> u16 option" where
  "tcp_checksum d = do { bs \<leftarrow> get_range d 16 18; Some (u16_from_inet_bytes bs) }"

definition tcp_urgent_ptr :: "buf \<Rightarrow> u16 option" where
  "tcp_urgent_ptr d = do { bs \<leftarrow> get_range d 18 20; Some (u16_from_inet_bytes bs) }"

definition tcp_payload :: "buf \<Rightarrow> buf option" where
  "tcp_payload d = do { h \<leftarrow> tcp_header_len d; get_range d h (length d) }"

definition tcp_is_empty :: "buf \<Rightarrow> bool option" where
  "tcp_is_empty d = do { p \<leftarrow> tcp_payload d; Some (p = []) }"

definition tcp_set_src_port :: "buf \<Rightarrow> u16 \<Rightarrow> buf option" where
  "tcp_set_src_port d v = put_range d 0 2 (u16_to_inet_bytes v)"

definition tcp_set_dst_port :: "buf \<Rightarrow> u16 \<Rightarrow> buf option" where
  "tcp_set_dst_port d v = put_range d 2 4 (u16_to_inet_bytes v)"

definition tcp_set_seq_num :: "buf \<Rightarrow> u32 \<Rightarrow> buf option" where
  "tcp_set_seq_num d v = put_range d 4 8 (u32_to_inet_bytes v)"

definition tcp_set_ack_num :: "buf \<Rightarrow> u32 \<Rightarrow> buf option" where
  "tcp_set_ack_num d v = put_range d 8 12 (u32_to_inet_bytes v)"

definition tcp_set_data_offset :: "buf \<Rightarrow> u8 \<Rightarrow> buf option" where
  "tcp_set_data_offset d v = put_byte d 12 (push_bit 4 (v AND 0x0F))"

definition tcp_set_flags :: "buf \<Rightarrow> tcp_flags \<Rightarrow> buf option" where
  "tcp_set_flags d f = put_byte d (12 + 1) (tcp_flags_to_bits f)"

definition tcp_set_window_size :: "buf \<Rightarrow> u16 \<Rightarrow> buf option" where
  "tcp_set_window_size d v = put_range d 14 16 (u16_to_inet_bytes v)"

definition tcp_set_checksum :: "buf \<Rightarrow> u16 \<Rightarrow> buf option" where
  "tcp_set_checksum d v = put_range d 16 18 (u16_to_inet_bytes v)"

definition tcp_set_urgent_ptr :: "buf \<Rightarrow> u16 \<Rightarrow> buf option" where
  "tcp_set_urgent_ptr d v = put_range d 18 20 (u16_to_inet_bytes v)"

definition tcp_fill_checksum :: "ipv4_addr \<Rightarrow> ipv4_addr \<Rightarrow> buf \<Rightarrow> buf option" where
  "tcp_fill_checksum src dst d = do {
     h \<leftarrow> tcp_header_len d;
     pay \<leftarrow> tcp_payload d;
     len \<leftarrow> u16_try_from_usize (h + length pay);
     d1 \<leftarrow> tcp_set_checksum d 0;
     cksum \<leftarrow> checksum_with_pseudo (pseudo_header src dst 6 len) d1;
     tcp_set_checksum d1 cksum
   }"

record tcp_repr =
  tcp_r_src_port :: u16
  tcp_r_dst_port :: u16
  tcp_r_seq_num :: u32
  tcp_r_ack_num :: u32
  tcp_r_flags :: tcp_flags
  tcp_r_window_size :: u16
  tcp_r_payload_len :: nat

definition tcp_parse :: "buf \<Rightarrow> tcp_repr network_result" where
  "tcp_parse d =
     (case tcp_check_len d of
        Inl e \<Rightarrow> Some (Inl e)
      | Inr _ \<Rightarrow> do {
          src \<leftarrow> tcp_src_port d;
          dst \<leftarrow> tcp_dst_port d;
          seq \<leftarrow> tcp_seq_num d;
          ack \<leftarrow> tcp_ack_num d;
          fl \<leftarrow> tcp_get_flags d;
          win \<leftarrow> tcp_window_size d;
          pay \<leftarrow> tcp_payload d;
          Some (Inr \<lparr>tcp_r_src_port = src, tcp_r_dst_port = dst, tcp_r_seq_num = seq, tcp_r_ack_num = ack,
                     tcp_r_flags = fl, tcp_r_window_size = win, tcp_r_payload_len = length pay\<rparr>)
        })"

definition tcp_buffer_len :: "tcp_repr \<Rightarrow> nat" where
  "tcp_buffer_len r = wrap_add 64 TCP_HEADER_LEN (tcp_r_payload_len r)"

definition tcp_emit :: "tcp_repr \<Rightarrow> buf \<Rightarrow> buf option" where
  "tcp_emit r d =
     (if length d \<ge> tcp_buffer_len r
      then do {
        d1 \<leftarrow> tcp_set_src_port d (tcp_r_src_port r);
        d2 \<leftarrow> tcp_set_dst_port d1 (tcp_r_dst_port r);
        d3 \<leftarrow> tcp_set_seq_num d2 (tcp_r_seq_num r);
        d4 \<leftarrow> tcp_set_ack_num d3 (tcp_r_ack_num r);
        d5 \<leftarrow> tcp_set_data_offset d4 5;
        d6 \<leftarrow> tcp_set_flags d5 (tcp_r_flags r);
        d7 \<leftarrow> tcp_set_window_size d6 (tcp_r_window_size r);
        tcp_set_urgent_ptr d7 0
      }
      else None)"

section \<open>Checksums\<close>

lemma length_pseudo_header [simp]: "length (pseudo_header src dst p len) = 12"
  by (simp add: pseudo_header_def)

lemma icmp_fill_checksum_some:
  assumes "8 \<le> length d" "length d \<le> 131000"
  shows "\<exists>c. icmp_fill_checksum d = Some (put_at d 2 (u16_to_inet_bytes c)) \<and> checksum (put_at d 2 (u16_to_inet_bytes c)) = Some 0"
  using checksum_fills_at [of 2 d "[]"] assms
  by (auto simp: icmp_fill_checksum_def icmp_set_checksum_def checksum_no_pseudo put_range_fits put_range_again)

lemma tcp_fill_checksum_some:
  assumes "tcp_header_len d = Some h" "h \<le> length d" "20 \<le> length d" "length d < 2 ^ 16"
  shows "\<exists>c. tcp_fill_checksum src dst d = Some (put_at d 16 (u16_to_inet_bytes c)) \<and>
    checksum_with_pseudo (pseudo_header src dst 6 (word_of_nat (length d))) (put_at d 16 (u16_to_inet_bytes c)) = Some 0"
proof -
  let ?p = "pseudo_header src dst 6 (word_of_nat (length d))"
  obtain c where c: "checksum_with_pseudo ?p (put_at d 16 (u16_to_inet_bytes 0)) = Some c"
    "checksum_with_pseudo ?p (put_at d 16 (u16_to_inet_bytes c)) = Some 0"
    using checksum_fills_at [of 16 d ?p] assms by auto
  have "tcp_payload d = Some (drop h d)" using assms by (simp add: tcp_payload_def get_range_rest)
  then have "tcp_fill_checksum src dst d = Some (put_at d 16 (u16_to_inet_bytes c))"
    using c assms by (simp add: tcp_fill_checksum_def tcp_set_checksum_def u16_try_from_usize_def put_range_fits put_range_again)
  then show ?thesis using c(2) by blast
qed

text \<open>
  C23. After \<open>fill_checksum\<close> a UDP packet verifies: its checksum with the pseudo header of the addresses and
  the length field is zero, the field is never 0 (which would mean that there is no checksum), and no
  other byte changed.
\<close>

theorem udp_checksum_valid:
  assumes "8 \<le> length d" "length d \<le> 130000" "udp_len d = Some len"
  shows "\<exists>c. udp_fill_checksum src dst d = Some (put_at d 6 (u16_to_inet_bytes c)) \<and> c \<noteq> 0 \<and>
    checksum_with_pseudo (pseudo_header src dst 17 len) (put_at d 6 (u16_to_inet_bytes c)) = Some 0"
proof -
  let ?p = "pseudo_header src dst 17 len"
  obtain c where c: "checksum_with_pseudo ?p (put_at d 6 (u16_to_inet_bytes 0)) = Some c"
    "checksum_with_pseudo ?p (put_at d 6 (u16_to_inet_bytes c)) = Some 0"
    "c = 0 \<Longrightarrow> checksum_with_pseudo ?p (put_at d 6 (u16_to_inet_bytes 0xFFFF)) = Some 0"
    using checksum_fills_at [of 6 d ?p] assms by auto
  let ?c = "if c = 0 then 0xFFFF else c"
  have "udp_fill_checksum src dst d = Some (put_at d 6 (u16_to_inet_bytes ?c))"
    using c(1) assms by (simp add: udp_fill_checksum_def udp_set_checksum_def put_range_fits put_range_again)
  moreover have "checksum_with_pseudo ?p (put_at d 6 (u16_to_inet_bytes ?c)) = Some 0" using c(2,3) by (cases "c = 0") simp_all
  moreover have "?c \<noteq> 0" by simp
  ultimately show ?thesis by blast
qed

theorem udp_checksum_valid_witness:
  "\<exists>c. udp_fill_checksum 1 2 [0, 53, 0x12, 0x34, 0, 9, 1, 2, 3] = Some (put_at [0, 53, 0x12, 0x34, 0, 9, 1, 2, 3] 6 (u16_to_inet_bytes c)) \<and> c \<noteq> 0"
  using udp_checksum_valid [of "[0, 53, 0x12, 0x34, 0, 9, 1, 2, 3]" 9 1 2]
  by (auto simp: udp_len_def get_range_def u16_from_inet_bytes_def)

section \<open>Round trips\<close>

lemma message_type_try_from_into [simp]: "message_type_try_from (message_type_into t) = Inr t"
  by (cases t) (simp_all add: message_type_try_from_def message_type_into_def)

definition icmp_fits :: "icmp_repr \<Rightarrow> buf \<Rightarrow> bool" where
  "icmp_fits r d \<longleftrightarrow> length d = ICMP_HEADER_LEN + icmp_r_payload_len r \<and> length d \<le> 131000"

lemma icmp_emit_parse_some:
  assumes "icmp_fits r d"
  shows "\<exists>d'. icmp_emit r d = Some d' \<and> icmp_parse d' = Some (Inr r) \<and> checksum d' = Some 0 \<and> length d' = length d \<and>
    icmp_payload d' = Some (drop ICMP_HEADER_LEN d)"
proof -
  have l: "length d = 8 + icmp_r_payload_len r" "length d \<le> 131000" using assms by (simp_all add: icmp_fits_def ICMP_HEADER_LEN_def)
  have "d \<noteq> []" using l by auto
  define e where "e = put_at (put_at (put_at d 0 [message_type_into (icmp_r_type r)]) 1 [icmp_r_code r]) 4 (u32_to_inet_bytes 0)"
  have e: "icmp_emit r d = icmp_fill_checksum e"
    using l \<open>d \<noteq> []\<close> wrap_add_le [of 64 8 "icmp_r_payload_len r"] by (simp add: icmp_emit_def icmp_buffer_len_def ICMP_HEADER_LEN_def icmp_set_msg_type_def icmp_set_code_def
        icmp_set_rest_of_header_def e_def wire_simps)
  have len: "length e = length d" by (simp add: e_def wire_simps)
  obtain c where c: "icmp_fill_checksum e = Some (put_at e 2 (u16_to_inet_bytes c))" "checksum (put_at e 2 (u16_to_inet_bytes c)) = Some 0"
    using icmp_fill_checksum_some [of e] l len by auto
  define d' where "d' = put_at e 2 (u16_to_inet_bytes c)"
  have "get_byte d' 0 = Some (message_type_into (icmp_r_type r))" "get_byte d' 1 = Some (icmp_r_code r)" "drop 8 d' = drop 8 d"
    "length d' = length d"
    using l \<open>d \<noteq> []\<close> by (simp_all add: d'_def e_def wire_simps)
  then show ?thesis using e c l get_range_rest [of 8 d']
    by (simp add: icmp_parse_def icmp_check_len_def ICMP_HEADER_LEN_def icmp_msg_type_def icmp_code_def icmp_payload_def flip: d'_def)
qed

interpretation icmp: wire_format icmp_emit icmp_parse icmp_payload icmp_fits "\<lambda>r. r" ICMP_HEADER_LEN
proof
  fix r d d'
  show "\<exists>d'. icmp_emit r d = Some d' \<and> icmp_parse d' = Some (Inr r) \<and> length d' = length d \<and>
    icmp_payload d' = Some (drop ICMP_HEADER_LEN d)" if "icmp_fits r d" using icmp_emit_parse_some [OF that] by blast
  show "icmp_fits r d'" if "icmp_fits r d" "length d' = length d" using that by (simp add: icmp_fits_def)
qed

definition udp_fits :: "udp_repr \<Rightarrow> buf \<Rightarrow> bool" where
  "udp_fits r d \<longleftrightarrow> length d = UDP_HEADER_LEN + udp_r_payload_len r \<and> length d < 2 ^ 16"

interpretation udp: wire_format udp_emit udp_parse udp_payload udp_fits "\<lambda>r. r" UDP_HEADER_LEN
proof
  fix r d d'
  show "\<exists>d'. udp_emit r d = Some d' \<and> udp_parse d' = Some (Inr r) \<and> length d' = length d \<and>
    udp_payload d' = Some (drop UDP_HEADER_LEN d)" if fit: "udp_fits r d"
  proof -
    let ?n = "8 + udp_r_payload_len r"
    have l: "length d = ?n" "?n < 2 ^ 16" using fit by (simp_all add: udp_fits_def UDP_HEADER_LEN_def)
    define d' where "d' = put_at (put_at (put_at d 0 (u16_to_inet_bytes (udp_r_src_port r))) 2 (u16_to_inet_bytes (udp_r_dst_port r)))
      4 (u16_to_inet_bytes (word_of_nat ?n))"
    have "wrap_add 64 8 (udp_r_payload_len r) = ?n" using l by (simp add: wrap_add_eq)
    then have "udp_emit r d = Some d'"
      using l by (simp add: udp_emit_def udp_buffer_len_def UDP_HEADER_LEN_def udp_set_src_port_def udp_set_dst_port_def
          udp_set_len_def u16_try_from_usize_def d'_def wire_simps)
    moreover have f: "get_range d' 0 2 = Some (u16_to_inet_bytes (udp_r_src_port r))"
      "get_range d' 2 4 = Some (u16_to_inet_bytes (udp_r_dst_port r))" "get_range d' 4 6 = Some (u16_to_inet_bytes (word_of_nat ?n))"
      "drop 8 d' = drop 8 d" "length d' = length d" using l by (simp_all add: d'_def wire_simps)
    have "unat (word_of_nat ?n :: u16) = ?n" using l by (simp only: unat_of_nat) simp
    then have pay: "udp_payload d' = Some (drop 8 d)"
      using f l get_range_rest [of 8 d'] by (simp add: udp_payload_def UDP_HEADER_LEN_def udp_len_def get_range_def)
    moreover have "udp_parse d' = Some (Inr r)"
      using f pay l by (simp add: udp_parse_def udp_check_len_def UDP_HEADER_LEN_def udp_src_port_def udp_dst_port_def)
    ultimately show ?thesis using f(5) by (simp add: UDP_HEADER_LEN_def)
  qed
  show "udp_fits r d'" if "udp_fits r d" "length d' = length d" using that by (simp add: udp_fits_def)
qed

text \<open>The flags of a representation come from \<open>from_bits\<close>, which clears the two upper bits.\<close>

definition tcp_fits :: "tcp_repr \<Rightarrow> buf \<Rightarrow> bool" where
  "tcp_fits r d \<longleftrightarrow> length d = TCP_HEADER_LEN + tcp_r_payload_len r \<and> tcp_flags_from_bits (tcp_r_flags r) = tcp_r_flags r"

lemmas tcp_setters = tcp_set_src_port_def tcp_set_dst_port_def tcp_set_seq_num_def tcp_set_ack_num_def tcp_set_data_offset_def
  tcp_set_flags_def tcp_set_window_size_def tcp_set_urgent_ptr_def tcp_flags_to_bits_def

lemma tcp_emit_fields:
  assumes "length d = 20 + tcp_r_payload_len r"
  shows "\<exists>d'. tcp_emit r d = Some d' \<and> length d' = length d \<and> get_range d' 0 2 = Some (u16_to_inet_bytes (tcp_r_src_port r)) \<and>
    get_range d' 2 4 = Some (u16_to_inet_bytes (tcp_r_dst_port r)) \<and> get_range d' 4 8 = Some (u32_to_inet_bytes (tcp_r_seq_num r)) \<and>
    get_range d' 8 12 = Some (u32_to_inet_bytes (tcp_r_ack_num r)) \<and> get_byte d' 12 = Some 0x50 \<and> get_byte d' 13 = Some (tcp_r_flags r) \<and>
    get_range d' 14 16 = Some (u16_to_inet_bytes (tcp_r_window_size r)) \<and> drop 20 d' = drop 20 d"
  using assms wrap_add_le [of 64 20 "tcp_r_payload_len r"] by (simp add: tcp_emit_def tcp_buffer_len_def TCP_HEADER_LEN_def tcp_setters wire_simps)

interpretation tcp: wire_format tcp_emit tcp_parse tcp_payload tcp_fits "\<lambda>r. r" TCP_HEADER_LEN
proof
  fix r d d'
  show "\<exists>d'. tcp_emit r d = Some d' \<and> tcp_parse d' = Some (Inr r) \<and> length d' = length d \<and>
    tcp_payload d' = Some (drop TCP_HEADER_LEN d)" if fit: "tcp_fits r d"
  proof -
    have l: "length d = 20 + tcp_r_payload_len r" "tcp_flags_from_bits (tcp_r_flags r) = tcp_r_flags r"
      using fit by (simp_all add: tcp_fits_def TCP_HEADER_LEN_def)
    obtain d' where d': "tcp_emit r d = Some d'" "length d' = length d" "get_range d' 0 2 = Some (u16_to_inet_bytes (tcp_r_src_port r))"
      "get_range d' 2 4 = Some (u16_to_inet_bytes (tcp_r_dst_port r))" "get_range d' 4 8 = Some (u32_to_inet_bytes (tcp_r_seq_num r))"
      "get_range d' 8 12 = Some (u32_to_inet_bytes (tcp_r_ack_num r))" "get_byte d' 12 = Some 0x50" "get_byte d' 13 = Some (tcp_r_flags r)"
      "get_range d' 14 16 = Some (u16_to_inet_bytes (tcp_r_window_size r))" "drop 20 d' = drop 20 d"
      using tcp_emit_fields [OF l(1)] by blast
    have pay: "tcp_payload d' = Some (drop 20 d)"
      using d'(2,7,10) l(1) get_range_rest [of 20 d'] by (simp add: tcp_payload_def tcp_header_len_def tcp_data_offset_def)
    have "tcp_parse d' = Some (Inr r)"
      using d' l pay by (simp add: tcp_parse_def tcp_check_len_def TCP_HEADER_LEN_def tcp_src_port_def tcp_dst_port_def tcp_seq_num_def
          tcp_ack_num_def tcp_get_flags_def tcp_window_size_def)
    then show ?thesis using d' pay by (simp add: TCP_HEADER_LEN_def)
  qed
  show "tcp_fits r d'" if "tcp_fits r d" "length d' = length d" using that by (simp add: tcp_fits_def)
qed

text \<open>Transport packets carried by IPv4.\<close>

interpretation ip_icmp: encapsulation ip_emit ip_parse ip_payload ip_fits "\<lambda>r. r\<lparr>ip_r_flags := no_flags\<rparr>" IP_HEADER_LEN
  icmp_emit icmp_parse icmp_payload icmp_fits "\<lambda>r. r" ICMP_HEADER_LEN ..

interpretation ip_udp: encapsulation ip_emit ip_parse ip_payload ip_fits "\<lambda>r. r\<lparr>ip_r_flags := no_flags\<rparr>" IP_HEADER_LEN
  udp_emit udp_parse udp_payload udp_fits "\<lambda>r. r" UDP_HEADER_LEN ..

interpretation ip_tcp: encapsulation ip_emit ip_parse ip_payload ip_fits "\<lambda>r. r\<lparr>ip_r_flags := no_flags\<rparr>" IP_HEADER_LEN
  tcp_emit tcp_parse tcp_payload tcp_fits "\<lambda>r. r" TCP_HEADER_LEN ..

text \<open>
  C24. A TCP header that is emitted is parsed back with all its fields, for every packet whose flags are
  six bits, and the checksum that is filled in afterwards verifies with the pseudo header.
\<close>

theorem tcp_emit_parse:
  assumes "length d = 20 + tcp_r_payload_len r" "tcp_r_flags r AND 0x3F = tcp_r_flags r" "length d < 2 ^ 16"
  shows "\<exists>d' c. tcp_emit r d = Some d' \<and> tcp_parse d' = Some (Inr r) \<and>
    tcp_fill_checksum src dst d' = Some (put_at d' 16 (u16_to_inet_bytes c)) \<and>
    checksum_with_pseudo (pseudo_header src dst 6 (word_of_nat (length d))) (put_at d' 16 (u16_to_inet_bytes c)) = Some 0"
proof -
  have "tcp_fits r d" using assms by (simp add: tcp_fits_def TCP_HEADER_LEN_def tcp_flags_from_bits_def)
  then obtain d' where d': "tcp_emit r d = Some d'" "tcp_parse d' = Some (Inr r)" "length d' = length d"
    using tcp.emit_parse by blast
  obtain e where "tcp_emit r d = Some e" "get_byte e 12 = Some 0x50" using tcp_emit_fields [OF assms(1)] by blast
  then have "tcp_header_len d' = Some 20" using d'(1) by (simp add: tcp_header_len_def tcp_data_offset_def)
  then show ?thesis using tcp_fill_checksum_some [of d' 20 src dst] d' assms by auto
qed

theorem tcp_emit_parse_witness:
  "\<exists>d'. tcp_emit \<lparr>tcp_r_src_port = 80, tcp_r_dst_port = 4660, tcp_r_seq_num = 1, tcp_r_ack_num = 0, tcp_r_flags = 0x12,
       tcp_r_window_size = 8192, tcp_r_payload_len = 2\<rparr> (replicate 22 7) = Some d' \<and> tcp_parse d' \<noteq> None"
  using tcp_emit_parse [of "replicate 22 7" "\<lparr>tcp_r_src_port = 80, tcp_r_dst_port = 4660, tcp_r_seq_num = 1, tcp_r_ack_num = 0,
      tcp_r_flags = 0x12, tcp_r_window_size = 8192, tcp_r_payload_len = 2\<rparr>" 0 0] by auto

text \<open>
  A UDP packet whose length field exceeds its buffer makes \<open>payload\<close>, and with it the parser, panic.
\<close>

lemma udp_parse_panics:
  assumes "8 \<le> length d" "udp_len d = Some len" "length d < unat len"
  shows "udp_parse d = None"
proof -
  have "udp_payload d = None" using assms by (simp add: udp_payload_def UDP_HEADER_LEN_def get_range_rest) (simp add: get_range_def)
  then show ?thesis using assms(1) by (simp add: udp_parse_def udp_check_len_def UDP_HEADER_LEN_def bind_eq_None_conv)
qed

end
