(* ===== verification/Spec2Isabelle.thy ===== *)
theory Spec2Isabelle
  imports Page_Table Hybrid Fat_Dir Queues Ticket_Lock Rw_Lock Once_Cell Barriers Net_Transport
begin

text \<open>
  A verification development of beskar-os, an operating system for x86-64 written in Rust.

  \<^bold>\<open>The program.\<close> The kernel (src/kernel) stands on libraries of its own: beskar-core with addresses,
  pages, frames and sets of memory ranges; beskar-hal with the page tables; hyperdrive with locks and
  queues; heaperion with the allocators of the kernel heap; and, under src/kernel/foundry, holonet with
  packet formats and storage with the FAT file system. The boot loader hands the free physical memory to
  the kernel as a list of ranges. The frame allocator and the page allocator cut frames and pages out of
  sets of such ranges, the page tables take their own tables from the frame allocator, and the kernel heap
  gets its pages from both and is divided between a slab and a buddy allocator. Shared state is guarded by
  the locks of hyperdrive. A file of a FAT volume is a chain of clusters in the file allocation table, a
  directory is a file of entries. A packet is a buffer on which every layer reads and writes its header.

  \<^bold>\<open>Conventions.\<close> Integers are words of their width; where sizes and indices are natural numbers, the
  wrap-around is written out. The release profile is modelled: arithmetic wraps and \<open>debug_assert!\<close> is absent.
  A panic is \<open>None\<close>, an error value is \<open>Inl\<close>. A loop that may run forever is a \<open>partial_function (option)\<close>, whose
  \<open>None\<close> covers panics and runs that do not return; theorems about such loops say that a value is
  returned. There is no fuel. A concurrent program is a step function on the shared state and the places
  of the threads, one step per atomic operation, run along arbitrary schedules; memory is sequentially
  consistent. Where the code calls closures or devices, they are parameters.

  \<^bold>\<open>Theories.\<close>

  \<^item> \<open>Prelude\<close>: machine integers, checked and saturating arithmetic, masks, lists with a part overwritten.

  \<^item> \<open>Allocator\<close>: the locale \<open>allocator\<close>, the contract of all allocators of the system, with the lemma that a
  client which only gives back what it holds never holds two blocks that overlap. It is interpreted
  for the memory ranges, the frame allocator, the slabs, the buddy system and the kernel heap.

  \<^item> \<open>Addrs\<close>, \<open>Ranges\<close>, \<open>Paging\<close> (beskar-core/src/arch/addrs.rs, mem/ranges.rs, arch/paging.rs, arch/paging/page.rs and frame.rs):
  canonical addresses and page-table indices; insertion, merging and best-fit allocation in sets of
  ranges, as operations on sets of addresses; pages, frames and their iterators, which visit every unit
  of a range once, from both ends.

  \<^item> \<open>Mem_Alloc\<close> (kernel/src/mem/frame_alloc.rs, page_alloc.rs, page_alloc/pmap.rs): frames and pages are
  free, aligned and disjoint; guard pages; translation in a physical mapping.

  \<^item> \<open>Page_Table\<close> (beskar-hal/src/x86_64/paging/page_table.rs): entries and their flags, and mapping, unmapping, changing
  flags and translating in recursive and offset tables. The memory of the tables is a function from
  frames to entries. The invariant \<open>pt_ok\<close> says that the tables form a tree and share no frame with the frame
  allocator; under it the operations on 4 KiB pages implement updates of a map from pages to frames.
  The locale \<open>page_mapper\<close> holds these proofs for every way to follow an entry and every frame allocator that
  hands out fresh frames, and is interpreted for both kinds of tables with the kernel's frame allocator.

  \<^item> \<open>Heap_List\<close>, \<open>Tiling\<close>, \<open>Buddy\<close>, \<open>Slab\<close>, \<open>Hybrid\<close> (heaperion/src/utils.rs, buddy.rs, slab.rs, hybrid.rs, kernel/src/mem/heap.rs):
  free lists threaded through the memory, tilings of an interval by buddies, and the three
  allocators over one memory. Every sequence of calls keeps live blocks disjoint, inside the heap and
  apart from the free lists; the buddy system is completely coalesced when everything is given back.

  \<^item> \<open>Fat_Entries\<close>, \<open>Fat_Table\<close>, \<open>Fat_File\<close>, \<open>Dos_Date\<close>, \<open>Fat_Dirent\<close>, \<open>Fat_Dir\<close> (kernel/foundry/storage/src/fs/fat.rs and fat/fat.rs, file.rs,
  date.rs, dirent.rs, dir.rs): the three encodings of table entries, behind the locale \<open>fat_codec\<close>; allocation
  and release of chains as steps on the map of the table; reading, writing and seeking as operations
  on an array of bytes; dates and times; entries as 32 bytes; reading and writing of directories.

  \<^item> \<open>Interleave\<close>, \<open>Ticket_Lock\<close>, \<open>Rw_Lock\<close>, \<open>Once_Cell\<close>, \<open>Barriers\<close> (hyperdrive/src/locks/ticket.rs, locks/rw.rs, once.rs, sync/barrier.rs):
  reachability and invariants (locale \<open>invariant_system\<close>); mutual exclusion, order and absence of starvation of
  the ticket lock by refinement to a lock with a queue; exclusion of the read-write lock; at most one
  initialisation; the rounds of the barriers.

  \<^item> \<open>Queues\<close> (hyperdrive/src/queues/ring.rs, mpmc.rs): both queues implement a list of bounded length (locale \<open>bounded_queue\<close>).

  \<^item> \<open>Net_Bytes\<close>, \<open>Net_Link\<close>, \<open>Net_Ip\<close>, \<open>Net_Transport\<close> (kernel/foundry/holonet/src): byte order and the Internet checksum; Ethernet,
  ARP, IPv4, ICMP, UDP and TCP. The locale \<open>wire_format\<close> states what emitting and parsing owe each other, the
  locale \<open>encapsulation\<close> composes two such formats; this theory composes three of them.

  \<^bold>\<open>Bounds.\<close> The ticket lock and the read-write lock are verified for as many threads as their 32-bit counters can
  count, where a thread holds at most one guard. The barrier that is used once is verified for fewer than 2^16 threads, the reusable one for a
  count and a number of threads with a sum below 2^16; with a sum above 2^16 + 1 it can be passed too early
  (\<open>rbarrier_rank_overflow\<close>). Lengths and sums of lengths have 64 bits. A client of the kernel heap takes a null pointer as a refusal. The
  checksum is verified for buffers up to 131072 bytes, beyond which its 32-bit sum could wrap.

  \<^bold>\<open>Behaviour that the code does not intend.\<close> Some theorems state what the code does where it does not do what its
  documentation says: flags of an IPv4 header are lost (\<open>ip_emit_parse\<close>); packets of the network make the
  parsers panic (\<open>ip_parse_outcome\<close>, and the lemmas \<open>arp_parse_panics\<close>, \<open>udp_parse_panics\<close>); long names are never read and a new
  entry ends its directory (\<open>Fat_Dir\<close>); a seek to the end of a full file (\<open>file_seek_full_chain\<close>); a queue with one
  slot (\<open>mpmc_size_one\<close>); a reusable barrier with very many threads (\<open>rbarrier_rank_overflow\<close>); a failed \<open>map\<close> that makes a large page writable (\<open>next_or_create_large\<close>).

  \<^bold>\<open>Not modelled.\<close> The queue with sequence numbers is modelled as one thread runs it, not with interleaved
  threads. The MCS lock and the MPSC queue keep their nodes on the stacks of their users and hand them
  over by pinned pointers, which needs a model of stacks and ownership. The boot sector of a FAT volume is
  represented by the values that are read from it; mounting, the virtual file system and the device files are
  glue around locks and trait objects. Device drivers (interrupt controllers, timers, PCI, network card, NVMe, AHCI, xHCI,
  PS/2), the processor's registers and descriptors, interrupts, system calls, context switches, the scheduler, the start of
  further processors and the boot loader are defined by the hardware or firmware they talk to; the
  flush of the TLB and weak memory belong there too. ELF headers are parsed by a package that is not part of the sources.
  Formatting, logging, drawing and the user programs have no specification beyond their output.
\<close>

section \<open>The network stack\<close>

text \<open>
  C6. A datagram sent through the stack arrives: the UDP header written before the payload, the IPv4
  header before it and the Ethernet header before that can all be emitted on a buffer of the right
  length, and parsing frame, packet and datagram in turn gives back the three representations, the
  flags of the IPv4 header apart, and the payload.
\<close>

theorem udp_stack_roundtrip:
  assumes "length (eth_r_src re) = 6" "length (eth_r_dst re) = 6" "length d = 42 + udp_r_payload_len ru"
    and "ip_r_payload_len ri = 8 + udp_r_payload_len ru" "28 + udp_r_payload_len ru < 2 ^ 16"
  shows "\<exists>u i e. udp_emit ru (drop 34 d) = Some u \<and> ip_emit ri (take 20 (drop 14 d) @ u) = Some i \<and> eth_emit re (take 14 d @ i) = Some e \<and>
    eth_parse e = Some (Inr re) \<and> eth_payload e = Some i \<and> ip_parse i = Some (Inr (ri\<lparr>ip_r_flags := no_flags\<rparr>)) \<and>
    ip_payload i = Some u \<and> udp_parse u = Some (Inr ru) \<and> udp_payload u = Some (drop 42 d)"
proof -
  note hdrs = ETH_HEADER_LEN_def IP_HEADER_LEN_def UDP_HEADER_LEN_def
  have "ip_fits ri (drop 14 d)" "udp_fits ru (drop IP_HEADER_LEN (drop 14 d))" "IP_HEADER_LEN \<le> length (drop 14 d)"
    using assms by (simp_all add: ip_fits_def udp_fits_def hdrs)
  then obtain u i where ui: "udp_emit ru (drop 20 (drop 14 d)) = Some u" "ip_emit ri (take 20 (drop 14 d) @ u) = Some i"
    "ip_parse i = Some (Inr (ri\<lparr>ip_r_flags := no_flags\<rparr>))" "ip_payload i = Some u" "udp_parse u = Some (Inr ru)"
    "udp_payload u = Some (drop 28 (drop 14 d))" "length i = length (drop 14 d)"
    using ip_udp.encapsulated [of ri "drop 14 d" ru] by (auto simp: hdrs)
  have "eth_fits re d" "ETH_HEADER_LEN \<le> length d" using assms by (simp_all add: eth_fits_def hdrs)
  then obtain e where "eth_emit re (take 14 d @ i) = Some e" "eth_parse e = Some (Inr re)" "eth_payload e = Some i"
    using eth.emit_with_payload [of re d i] ui(7) by (auto simp: hdrs)
  then show ?thesis using ui by auto
qed

theorem udp_stack_roundtrip_witness:
  "\<exists>u i e. udp_emit \<lparr>udp_r_src_port = 53, udp_r_dst_port = 4660, udp_r_payload_len = 3\<rparr> (replicate 11 7) = Some u \<and>
     ip_emit \<lparr>ip_r_src = 1, ip_r_dst = 2, ip_r_protocol = Udp, ip_r_payload_len = 11, ip_r_ttl = 64, ip_r_flags = no_flags\<rparr>
       (replicate 20 7 @ u) = Some i \<and>
     eth_emit \<lparr>eth_r_src = [1, 2, 3, 4, 5, 6], eth_r_dst = MAC_BROADCAST, eth_r_type = IpV4\<rparr> (replicate 14 7 @ i) = Some e \<and>
     eth_payload e = Some i \<and> ip_payload i = Some u \<and> udp_payload u = Some [7, 7, 7]"
  using udp_stack_roundtrip [of "\<lparr>eth_r_src = [1, 2, 3, 4, 5, 6], eth_r_dst = MAC_BROADCAST, eth_r_type = IpV4\<rparr>" "replicate 45 7"
      "\<lparr>udp_r_src_port = 53, udp_r_dst_port = 4660, udp_r_payload_len = 3\<rparr>"
      "\<lparr>ip_r_src = 1, ip_r_dst = 2, ip_r_protocol = Udp, ip_r_payload_len = 11, ip_r_ttl = 64, ip_r_flags = no_flags\<rparr>"]
  by (auto simp: MAC_BROADCAST_def numeral_3_eq_3)

end
